(* ===== verification/Prelude.thy ===== *)
theory Prelude
  imports Main "HOL-Library.Word" "HOL-Library.Monad_Syntax"
begin

unbundle bit_operations_syntax

text \<open>
  Shared vocabulary of the development: the machine integer types, the model of raw memory
  (a C object of known size is a list of bytes, \<open>memcpy\<close> in and out of it is checked against
  that size), and the generic lemmas about list slices, bounded search and words that the
  component theories use.

  A C computation is a function into \<open>'a option\<close>. \<open>None\<close> means that the C program has no
  defined result there: an access outside an object, a division by zero, a failed assertion,
  \<open>abort()\<close>, or a loop that never ends.
\<close>

named_theorems mem_simps "raw memory: reading back what was written"
named_theorems inv_simps "definitions of the component invariants"

type_synonym u8 = "8 word"
type_synonym u32 = "32 word"
type_synonym u64 = "64 word"

section \<open>Raw memory\<close>

text \<open>\<open>mem_write m off xs\<close> is \<open>memcpy(m + off, xs, length xs)\<close> into the object \<open>m\<close>;
  \<open>mem_read m off n\<close> is the block of \<open>n\<close> cells that \<open>memcpy(_, m + off, n)\<close> reads.\<close>

definition mem_write :: "'a list \<Rightarrow> nat \<Rightarrow> 'a list \<Rightarrow> 'a list option" where
  "mem_write m off xs =
     (if off + length xs \<le> length m
      then Some (take off m @ xs @ drop (off + length xs) m) else None)"

definition mem_read :: "'a list \<Rightarrow> nat \<Rightarrow> nat \<Rightarrow> 'a list option" where
  "mem_read m off n = (if off + n \<le> length m then Some (take n (drop off m)) else None)"

lemma mem_write_eq_Some [mem_simps]:
  "mem_write m off xs = Some m' \<longleftrightarrow>
     off + length xs \<le> length m \<and> m' = take off m @ xs @ drop (off + length xs) m"
  by (auto simp: mem_write_def)

lemma mem_write_ok: "off + length xs \<le> length m \<Longrightarrow> \<exists>m'. mem_write m off xs = Some m'"
  by (simp add: mem_write_def)

lemma mem_write_length: "mem_write m off xs = Some m' \<Longrightarrow> length m' = length m"
  by (auto simp: mem_simps)

lemma mem_write_nth:
  assumes "mem_write m off xs = Some m'" "i < length m"
  shows "m' ! i = (if off \<le> i \<and> i < off + length xs then xs ! (i - off) else m ! i)"
  using assms by (auto simp: mem_simps nth_append min_def not_less)

lemma mem_read_eq_Some [mem_simps]:
  "mem_read m off n = Some ys \<longleftrightarrow> off + n \<le> length m \<and> ys = take n (drop off m)"
  by (auto simp: mem_read_def)

lemma mem_read_write_same:
  "mem_write m off xs = Some m' \<Longrightarrow> mem_read m' off (length xs) = Some xs"
  by (auto simp: mem_simps)

lemma mem_read_write_disjoint:
  assumes "mem_write m off xs = Some m'" and "a + n \<le> off \<or> off + length xs \<le> a"
  shows "mem_read m' a n = mem_read m a n"
proof -
  have len: "length m' = length m" using assms(1) by (rule mem_write_length)
  have "take n (drop a m') = take n (drop a m)" if fits: "a + n \<le> length m"
  proof (rule nth_equalityI)
    show "length (take n (drop a m')) = length (take n (drop a m))" using len by simp
  next
    fix i assume "i < length (take n (drop a m'))"
    then show "take n (drop a m') ! i = take n (drop a m) ! i"
      using mem_write_nth [OF assms(1), of "a + i"] assms(2) len fits by auto
  qed
  then show ?thesis using len by (simp add: mem_read_def)
qed

section \<open>Arrays\<close>

text \<open>\<open>a[i]\<close> of a C array with its bounds: an access outside of it has no defined result.\<close>

definition arr_get :: "'a list \<Rightarrow> int \<Rightarrow> 'a option" where
  "arr_get xs i = (if 0 \<le> i \<and> i < int (length xs) then Some (xs ! nat i) else None)"

definition arr_set :: "'a list \<Rightarrow> int \<Rightarrow> 'a \<Rightarrow> 'a list option" where
  "arr_set xs i v = (if 0 \<le> i \<and> i < int (length xs) then Some (xs[nat i := v]) else None)"

lemma arr_get_int [simp]: "arr_get xs (int i) = (if i < length xs then Some (xs ! i) else None)"
  by (simp add: arr_get_def)

lemma arr_set_int [simp]: "arr_set xs (int i) v = (if i < length xs then Some (xs[i := v]) else None)"
  by (simp add: arr_set_def)

section \<open>Fixed-width slots of a byte array\<close>

text \<open>\<open>chunk w xs i\<close> is the \<open>i\<close>-th slot of width \<open>w\<close>.\<close>

definition chunk :: "nat \<Rightarrow> 'a list \<Rightarrow> nat \<Rightarrow> 'a list" where
  "chunk w xs i = take w (drop (i * w) xs)"

lemma slot_end_le: "i < n \<Longrightarrow> n * w \<le> (l::nat) \<Longrightarrow> i * w + w \<le> l"
  by (metis Suc_leI add.commute mult_Suc mult_le_mono1 order_trans)

lemma length_chunk: "i < n \<Longrightarrow> n * w \<le> length xs \<Longrightarrow> length (chunk w xs i) = w"
  using slot_end_le [of i n w "length xs"] by (simp add: chunk_def)

lemma chunk_nth: "b < w \<Longrightarrow> i < n \<Longrightarrow> n * w \<le> length xs \<Longrightarrow> chunk w xs i ! b = xs ! (i * w + b)"
  using slot_end_le [of i n w "length xs"] by (simp add: chunk_def)

lemma chunk_eqI:
  assumes "i < n" "n * w \<le> length xs" "j < m" "m * w \<le> length ys"
    and "\<And>b. b < w \<Longrightarrow> xs ! (i * w + b) = ys ! (j * w + b)"
  shows "chunk w xs i = chunk w ys j"
  by (rule nth_equalityI)
     (use assms in \<open>auto simp: length_chunk [OF assms(1,2)] length_chunk [OF assms(3,4)]
        chunk_nth [OF _ assms(1,2)] chunk_nth [OF _ assms(3,4)]\<close>)

lemma chunk_append_left:
  "i < n \<Longrightarrow> n * w \<le> length xs \<Longrightarrow> chunk w (xs @ ys) i = chunk w xs i"
  using slot_end_le [of i n w "length xs"] by (simp add: chunk_def)

lemma chunk_mem_write:
  assumes "mem_write m (a * w) xs = Some m'" "length xs = k * w"
    and "a + k \<le> c" "c * w \<le> length m" "j < c"
  shows "chunk w m' j = (if a \<le> j \<and> j < a + k then chunk w xs (j - a) else chunk w m j)"
proof (rule nth_equalityI)
  have len: "length m' = length m" using assms(1) by (rule mem_write_length)
  have cw: "c * w \<le> length m'" using assms(4) len by simp
  show "length (chunk w m' j) =
      length (if a \<le> j \<and> j < a + k then chunk w xs (j - a) else chunk w m j)"
    using length_chunk [OF assms(5) cw] length_chunk [OF assms(5,4)] assms(2)
      length_chunk [of "j - a" k w xs] by auto
  fix b assume "b < length (chunk w m' j)"
  then have b: "b < w" by (simp add: length_chunk [OF assms(5) cw])
  have inside: "j * w + b < length m" using b slot_end_le [OF assms(5,4)] by simp
  have le: "a * w \<le> j * w + b \<longleftrightarrow> a \<le> j"
  proof
    assume "a * w \<le> j * w + b"
    then have "a * w < Suc j * w" using b by simp
    then show "a \<le> j" by (metis less_Suc_eq_le mult_less_cancel2)
  qed (metis mult_le_mono1 trans_le_add1)
  have lt: "j * w + b < a * w + k * w \<longleftrightarrow> j < a + k"
  proof
    assume "j * w + b < a * w + k * w"
    then have "j * w < (a + k) * w" by (simp add: algebra_simps)
    then show "j < a + k" by simp
  next
    assume "j < a + k"
    then have "j * w + w \<le> (a + k) * w" by (rule slot_end_le) simp
    then show "j * w + b < a * w + k * w" using b by (simp add: algebra_simps)
  qed
  have "m' ! (j * w + b) = (if a \<le> j \<and> j < a + k then xs ! (j * w + b - a * w) else m ! (j * w + b))"
    using mem_write_nth [OF assms(1) inside] by (simp add: le lt assms(2))
  moreover have "a \<le> j \<Longrightarrow> j * w + b - a * w = (j - a) * w + b"
    by (simp add: diff_mult_distrib)
  ultimately show "chunk w m' j ! b =
      (if a \<le> j \<and> j < a + k then chunk w xs (j - a) else chunk w m j) ! b"
    using chunk_nth [OF b assms(5) cw] chunk_nth [OF b assms(5,4)] b assms(2)
      chunk_nth [of b w "j - a" k xs] by auto
qed

lemma chunk_drop: "chunk w (drop (b * w) xs) i = chunk w xs (b + i)"
  by (simp add: chunk_def algebra_simps)

lemma chunk_take: "i < k \<Longrightarrow> chunk w (take (k * w) xs) i = chunk w xs i"
  using slot_end_le [of i k w "k * w"] by (simp add: chunk_def drop_take min_def)

lemma concat_chunks:
  "(a + k) * w \<le> length xs \<Longrightarrow>
     take (k * w) (drop (a * w) xs) = concat (map (\<lambda>i. chunk w xs (a + i)) [0..<k])"
proof (induction k)
  case 0
  then show ?case by simp
next
  case (Suc k)
  have "take (Suc k * w) (drop (a * w) xs) = take (k * w) (drop (a * w) xs) @ chunk w xs (a + k)"
    by (simp add: chunk_def take_add add.commute algebra_simps flip: take_add)
       (metis add.commute take_add drop_drop)
  then show ?case using Suc by simp
qed

lemma chunk_append_right: "length xs = k * w \<Longrightarrow> chunk w (xs @ ys) (k + i) = chunk w ys i"
  by (simp add: chunk_def algebra_simps)

section \<open>Modular positions\<close>

lemma mod_add_cases:
  assumes "(i::nat) < c"
  shows "(a + i) mod c = (if a mod c + i < c then a mod c + i else a mod c + i - c)"
proof -
  have "a mod c < c" using assms by simp
  then have "a mod c + i - c < c" using assms by linarith
  moreover have "(a + i) mod c = (a mod c + i) mod c" by (simp add: mod_add_left_eq)
  ultimately show ?thesis by (simp add: le_mod_geq not_less)
qed

section \<open>Words\<close>

lemma unat_and_mask: "unat (x AND (2 ^ n - 1 :: 'a::len word)) = unat x mod 2 ^ n"
proof -
  have "x AND (2 ^ n - 1) = take_bit n x"
    by (simp add: take_bit_eq_mask mask_eq_exp_minus_1)
  then have "unat (x AND (2 ^ n - 1)) = take_bit n (unat x)"
    by (simp only: unsigned_take_bit_eq)
  then show ?thesis by (simp only: take_bit_eq_mod)
qed

lemma unat_pow2: "n < LENGTH('a) \<Longrightarrow> unat (2 ^ n :: 'a::len word) = 2 ^ n"
  by (simp add: of_nat_inverse)

lemma unat_pow2_minus1:
  assumes "n < LENGTH('a)"
  shows "unat (2 ^ n - 1 :: 'a::len word) = 2 ^ n - 1"
proof -
  have u: "unat (2 ^ n :: 'a word) = 2 ^ n" using assms by (rule unat_pow2)
  then have "unat (1 :: 'a word) \<le> unat (2 ^ n :: 'a word)" by simp
  then have "unat (2 ^ n - 1 :: 'a word) = unat (2 ^ n :: 'a word) - unat (1 :: 'a word)"
    by (simp only: unat_sub_if' if_True)
  with u show ?thesis by simp
qed

lemma unat_sub_mod:
  "unat (a - b :: 'a::len word) = (unat a + 2 ^ LENGTH('a) - unat b) mod 2 ^ LENGTH('a)"
proof -
  have b: "unat b < 2 ^ LENGTH('a)" and a: "unat a < 2 ^ LENGTH('a)" by simp_all
  show ?thesis
  proof (cases "unat b \<le> unat a")
    case True
    then have "(unat a + 2 ^ LENGTH('a) - unat b) mod 2 ^ LENGTH('a)
        = (unat a - unat b) mod 2 ^ LENGTH('a)"
      by (metis Nat.add_diff_assoc2 mod_add_self2)
    then show ?thesis using True a b by (simp only: unat_sub_if') (simp add: less_imp_diff_less)
  next
    case False
    then have "unat a + 2 ^ LENGTH('a) - unat b < 2 ^ LENGTH('a)" using b by linarith
    then show ?thesis using False by (simp add: unat_sub_if')
  qed
qed

lemma unat_mult_bounded:
  "unat a * unat b < 2 ^ LENGTH('a) \<Longrightarrow> unat (a * b :: 'a::len word) = unat a * unat b"
  by (simp add: unat_word_ariths)

lemma unat_add_bounded:
  "unat a + unat b < 2 ^ LENGTH('a) \<Longrightarrow> unat (a + b :: 'a::len word) = unat a + unat b"
  by (simp add: unat_word_ariths)

lemma unat_less_exp: "unat (x :: 'a::len word) < 2 ^ LENGTH('a)"
  by simp

lemma unat_eq_1_iff [simp]: "unat x = Suc 0 \<longleftrightarrow> (x :: 'a::len word) = 1"
  by (metis One_nat_def unat_1 word_unat_eq_iff)

lemma unat_ucast_up: "unat (ucast (w :: u32) :: u64) = unat w"
proof -
  have "unat w < 2 ^ 64" using unat_less_exp [of w] by simp
  then show ?thesis by (simp only: unsigned_ucast_eq) (simp add: take_bit_nat_eq_self)
qed

lemma sint_small:
  fixes w :: u32
  assumes "unat w < 2 ^ 31"
  shows "sint w = int (unat w)"
proof -
  have "int (unat w) < int (2 ^ 31)" using assms by (simp only: of_nat_less_iff)
  then have "uint w < 2 ^ 31" by simp
  moreover have "- (2 ^ 31) \<le> uint w" by (rule order_trans [of _ 0]) simp_all
  ultimately have "signed_take_bit 31 (uint w) = uint w" by (intro signed_take_bit_int_eq_self)
  then show ?thesis by (simp add: sint_uint)
qed

lemma unat_ucast_down: "unat (w :: u64) < 2 ^ 32 \<Longrightarrow> unat (ucast w :: u32) = unat w"
  by (simp add: unsigned_ucast_eq take_bit_nat_eq_self)

lemma distinct_concat_map:
  assumes "distinct xs" "\<And>x. x \<in> set xs \<Longrightarrow> distinct (f x)"
    "\<And>x y. x \<in> set xs \<Longrightarrow> y \<in> set xs \<Longrightarrow> x \<noteq> y \<Longrightarrow> set (f x) \<inter> set (f y) = {}"
  shows "distinct (concat (map f xs))"
  using assms by (induction xs) fastforce+

section \<open>Little-endian integers in memory\<close>

fun le_bytes :: "nat \<Rightarrow> 'a::len word \<Rightarrow> u8 list" where
  "le_bytes 0 w = []"
| "le_bytes (Suc n) w = ucast w # le_bytes n (drop_bit 8 w)"

fun le_word :: "u8 list \<Rightarrow> 'a::len word" where
  "le_word [] = 0"
| "le_word (b # bs) = ucast b OR push_bit 8 (le_word bs)"

lemma length_le_bytes [simp]: "length (le_bytes n w) = n"
  by (induction n arbitrary: w) simp_all

lemma le_word_bytes: "le_word (le_bytes n w) = take_bit (8 * n) w"
proof (induction n arbitrary: w)
  case (Suc n)
  have "ucast (ucast w :: u8) OR push_bit 8 (take_bit (8 * n) (drop_bit 8 w)) = take_bit (8 * Suc n) w"
    by (rule bit_word_eqI)
       (auto simp: bit_simps less_diff_conv2 dest: bit_imp_le_length)
  then show ?case using Suc by simp
qed simp

lemma le_word_bytes_full [simp]: "8 * n = LENGTH('a) \<Longrightarrow> le_word (le_bytes n w) = (w :: 'a::len word)"
  by (simp add: le_word_bytes)

end
