(* ===== verification/Migrate_Protocol.thy ===== *)
theory Migrate_Protocol
  imports Prelude
begin

text \<open>
  The handshake of a migration, \<open>mix_segment_migration_begin\<close> and \<open>mix_segment_migration_end\<close> on the side
  of the worker and the loop of \<open>migrate\<close> on the side of the eight threads, \<open>src/src/mix_meta.c\<close>,
  as a transition system in which every access to shared memory is a step of its own. What a thread
  does with its share of the index is one step here; it is modelled in \<open>Mix_Migrate\<close>.
\<close>

section \<open>The transition system\<close>

definition migrate_threads :: nat where "migrate_threads = 8"

text \<open>Where a thread is: it waits for its flag, reads the segment, moves its share, counts itself, and
  lowers its flag.\<close>

datatype thread_pc = Spin | Fetch | Work nat | Count nat | Lower

text \<open>Where the worker is that holds \<open>migrate_mutex\<close>: outside, before the counter is reset, raising the
  flags, and waiting in \<open>mix_segment_migration_end\<close>.\<close>

datatype caller_pc = Idle | Zero nat | Raise nat nat | Wait nat

text \<open>The shared memory, the positions, and two history variables: the threads that have moved their share
  in this migration, and those that have counted themselves.\<close>

record handshake =
  hs_segment :: nat
  hs_flags :: "bool list"
  hs_completed :: "nat list"
  hs_threads :: "thread_pc list"
  hs_caller :: caller_pc
  hs_moved :: "nat list"
  hs_counted :: "nat list"

definition caller_step :: "nat \<Rightarrow> handshake \<Rightarrow> handshake option" where
  "caller_step idx s = (case hs_caller s of
     Idle \<Rightarrow> if idx < 4 then Some (s\<lparr>hs_segment := idx, hs_caller := Zero idx\<rparr>) else None
   | Zero i \<Rightarrow> Some (s\<lparr>hs_completed := (hs_completed s)[i := 0], hs_caller := Raise i 0\<rparr>)
   | Raise i t \<Rightarrow>
       if t < migrate_threads then Some (s\<lparr>hs_flags := (hs_flags s)[t := True], hs_caller := Raise i (Suc t)\<rparr>)
       else Some (s\<lparr>hs_caller := Wait i\<rparr>)
   | Wait i \<Rightarrow>
       if hs_completed s ! i < migrate_threads then None
       else Some (s\<lparr>hs_completed := (hs_completed s)[i := 0], hs_caller := Idle, hs_moved := [], hs_counted := []\<rparr>))"

definition thread_step :: "nat \<Rightarrow> handshake \<Rightarrow> handshake option" where
  "thread_step t s = (case hs_threads s ! t of
     Spin \<Rightarrow> if hs_flags s ! t then Some (s\<lparr>hs_threads := (hs_threads s)[t := Fetch]\<rparr>) else None
   | Fetch \<Rightarrow> Some (s\<lparr>hs_threads := (hs_threads s)[t := Work (hs_segment s)]\<rparr>)
   | Work i \<Rightarrow> Some (s\<lparr>hs_moved := t # hs_moved s, hs_threads := (hs_threads s)[t := Count i]\<rparr>)
   | Count i \<Rightarrow> Some (s\<lparr>hs_completed := (hs_completed s)[i := hs_completed s ! i + 1], hs_counted := t # hs_counted s,
       hs_threads := (hs_threads s)[t := Lower]\<rparr>)
   | Lower \<Rightarrow> Some (s\<lparr>hs_flags := (hs_flags s)[t := False], hs_threads := (hs_threads s)[t := Spin]\<rparr>))"

inductive step :: "handshake \<Rightarrow> handshake \<Rightarrow> bool" where
  caller: "caller_step idx s = Some s' \<Longrightarrow> step s s'"
| thread: "t < migrate_threads \<Longrightarrow> thread_step t s = Some s' \<Longrightarrow> step s s'"

inductive_cases stepE: "step s s'"

text \<open>The start: every thread spins, no migration is under way, and all flags are down. The code does not make
  sure of the last: the flags are in memory from \<open>malloc\<close> that \<open>mix_metadata_init\<close> does not write; a flag that
  happened to be up would send its thread through a share of a migration that nobody asked for.\<close>

definition start :: handshake where
  "start = \<lparr>hs_segment = 0, hs_flags = replicate migrate_threads False, hs_completed = replicate 4 0,
     hs_threads = replicate migrate_threads Spin, hs_caller = Idle, hs_moved = [], hs_counted = []\<rparr>"

inductive reachable :: "handshake \<Rightarrow> bool" where
  reach_start: "reachable start"
| reach_step: "reachable s \<Longrightarrow> step s s' \<Longrightarrow> reachable s'"

section \<open>The invariant\<close>

text \<open>How many threads had their flag raised.\<close>

fun raised :: "caller_pc \<Rightarrow> nat" where
  "raised (Raise i t) = t"
| "raised (Wait i) = migrate_threads"
| "raised _ = 0"

definition quiet :: "handshake \<Rightarrow> nat \<Rightarrow> bool" where
  "quiet s t \<longleftrightarrow> hs_threads s ! t = Lower \<or> hs_threads s ! t = Spin \<and> \<not> hs_flags s ! t"

text \<open>A thread that has not counted itself is on its way with the present segment.\<close>

definition busy :: "handshake \<Rightarrow> nat \<Rightarrow> bool" where
  "busy s t \<longleftrightarrow> hs_threads s ! t \<in> {Spin, Fetch, Work (hs_segment s), Count (hs_segment s), Lower} \<and>
     (hs_threads s ! t = Count (hs_segment s) \<longrightarrow> t \<in> set (hs_moved s))"

fun at_segment :: "caller_pc \<Rightarrow> nat \<Rightarrow> bool" where
  "at_segment Idle j = True"
| "at_segment (Zero i) j = (i = j)"
| "at_segment (Raise i t) j = (i = j)"
| "at_segment (Wait i) j = (i = j)"

definition thread_ok :: "handshake \<Rightarrow> nat \<Rightarrow> bool" where
  "thread_ok s t \<longleftrightarrow> (if t < raised (hs_caller s) \<and> t \<notin> set (hs_counted s) then busy s t else quiet s t)"

definition shared_ok :: "handshake \<Rightarrow> bool" where
  "shared_ok s \<longleftrightarrow> length (hs_flags s) = migrate_threads \<and> length (hs_threads s) = migrate_threads \<and>
     length (hs_completed s) = 4 \<and> hs_segment s < 4 \<and> at_segment (hs_caller s) (hs_segment s) \<and> raised (hs_caller s) \<le> migrate_threads \<and>
     distinct (hs_counted s) \<and> set (hs_counted s) \<subseteq> set (hs_moved s) \<and> set (hs_counted s) \<subseteq> {..<raised (hs_caller s)} \<and>
     (\<forall>i < 4. hs_completed s ! i = (if i = hs_segment s then length (hs_counted s) else 0))"

definition handshake_inv :: "handshake \<Rightarrow> bool" where
  "handshake_inv s \<longleftrightarrow> shared_ok s \<and> (\<forall>t < migrate_threads. thread_ok s t)"

lemmas thread_defs = thread_ok_def busy_def quiet_def

lemma start_inv: "handshake_inv start"
  by (simp add: handshake_inv_def shared_ok_def start_def thread_defs)

lemma counted_all:
  assumes "handshake_inv s" "hs_caller s = Wait i" "migrate_threads \<le> hs_completed s ! i"
  shows "set (hs_counted s) = {..<migrate_threads}"
proof -
  have c: "set (hs_counted s) \<subseteq> {..<migrate_threads}" "distinct (hs_counted s)" "migrate_threads \<le> length (hs_counted s)"
    using assms by (simp_all add: handshake_inv_def shared_ok_def)
  then have "card {..<migrate_threads} \<le> card (set (hs_counted s))" by (simp add: distinct_card)
  then show ?thesis using c(1) by (intro card_seteq) simp_all
qed

lemma caller_step_inv:
  assumes inv: "handshake_inv s" and step: "caller_step idx s = Some s'"
  shows "handshake_inv s'"
proof -
  have sh: "shared_ok s" and th: "\<And>t. t < migrate_threads \<Longrightarrow> thread_ok s t" using inv by (simp_all add: handshake_inv_def)
  have full: "t \<in> set (hs_counted s)" if "t < migrate_threads" "hs_caller s = Wait i" for t i
    using step counted_all [OF inv that(2)] that by (auto simp: caller_step_def split: if_splits)
  have "shared_ok s'"
    using step sh by (auto simp: caller_step_def shared_ok_def nth_list_update split: caller_pc.splits if_splits)
  moreover have "thread_ok s' t" if "t < migrate_threads" for t
  proof (cases "hs_caller s")
    case (Raise i k)
    then show ?thesis using step sh th [OF that] that
      by (cases "t = k") (auto simp: caller_step_def shared_ok_def thread_defs less_Suc_eq split: if_splits)
  next
    case (Wait i)
    then show ?thesis using step th [OF that] full [OF that Wait] by (auto simp: caller_step_def thread_defs split: if_splits)
  qed (use step sh th [OF that] in \<open>auto simp: caller_step_def shared_ok_def thread_defs split: if_splits\<close>)
  ultimately show ?thesis by (simp add: handshake_inv_def)
qed

lemma thread_step_inv:
  assumes inv: "handshake_inv s" and t: "t < migrate_threads" and step: "thread_step t s = Some s'"
  shows "handshake_inv s'"
proof -
  have sh: "shared_ok s" and th: "\<And>t. t < migrate_threads \<Longrightarrow> thread_ok s t" using inv by (simp_all add: handshake_inv_def)
  have len: "t < length (hs_flags s)" "t < length (hs_threads s)" using sh t by (simp_all add: shared_ok_def)
  have "shared_ok s'"
    using step sh len th [OF t]
    by (auto simp: thread_step_def shared_ok_def thread_defs nth_list_update split: thread_pc.splits if_splits)
  moreover have "thread_ok s' u" if "u < migrate_threads" for u
  proof (cases "u = t")
    case True
    then show ?thesis using step len th [OF t]
      by (cases "hs_threads s ! t") (auto simp: thread_step_def thread_defs split: if_splits)
  next
    case False
    then have "nth (hs_threads s') u = hs_threads s ! u" "hs_flags s' ! u = hs_flags s ! u" "hs_segment s' = hs_segment s"
        "hs_caller s' = hs_caller s" "u \<in> set (hs_counted s') \<longleftrightarrow> u \<in> set (hs_counted s)" "u \<in> set (hs_moved s') \<longleftrightarrow> u \<in> set (hs_moved s)"
      using step by (auto simp: thread_step_def split: thread_pc.splits if_splits)
    then show ?thesis using th [OF that] by (auto simp: thread_defs split: if_splits)
  qed
  ultimately show ?thesis by (simp add: handshake_inv_def)
qed

lemma reachable_inv: "reachable s \<Longrightarrow> handshake_inv s"
  by (induction rule: reachable.induct) (auto simp: start_inv elim!: stepE intro: caller_step_inv thread_step_inv)

section \<open>Executions\<close>

text \<open>An execution as the list of those who move: the worker, or a thread.\<close>

datatype mover = Caller nat | Thread nat

fun run :: "mover list \<Rightarrow> handshake \<Rightarrow> handshake option" where
  "run [] s = Some s"
| "run (Caller idx # ms) s = caller_step idx s \<bind> run ms"
| "run (Thread t # ms) s = (if t < migrate_threads then thread_step t s \<bind> run ms else None)"

lemma run_reachable: "run ms s = Some s' \<Longrightarrow> reachable s \<Longrightarrow> reachable s'"
  by (induction ms s rule: run.induct) (auto split: bind_splits if_splits intro: reach_step step.intros)

text \<open>All of a thread's pass, and all of the worker's steps up to the point where it waits.\<close>

definition pass :: "nat \<Rightarrow> mover list" where "pass t = replicate 5 (Thread t)"
definition begin_migration :: "mover list" where "begin_migration = replicate 11 (Caller 0)"

definition lost_wakeup :: "mover list" where
  "lost_wakeup = begin_migration @ concat (map pass [0..<7]) @ replicate 4 (Thread 7) @ [Caller 0] @
     begin_migration @ [Thread 7] @ concat (map pass [0..<7])"

definition stuck :: handshake where
  "stuck = \<lparr>hs_segment = 0, hs_flags = replicate 8 False, hs_completed = [7, 0, 0, 0],
     hs_threads = replicate 8 Spin, hs_caller = Wait 0, hs_moved = [6, 5, 4, 3, 2, 1, 0], hs_counted = [6, 5, 4, 3, 2, 1, 0]\<rparr>"

lemma run_lost_wakeup: "run lost_wakeup start = Some stuck"
  by code_simp

definition all_passed :: handshake where
  "all_passed = \<lparr>hs_segment = 0, hs_flags = replicate 8 False, hs_completed = [8, 0, 0, 0],
     hs_threads = replicate 8 Spin, hs_caller = Wait 0, hs_moved = rev [0..<8], hs_counted = rev [0..<8]\<rparr>"

lemma run_one_migration: "run (begin_migration @ concat (map pass [0..<8])) start = Some all_passed"
  by code_simp

lemma stuck_no_step: "\<not> step stuck s'"
  by (auto elim!: stepE simp: stuck_def caller_step_def thread_step_def migrate_threads_def)

section \<open>Properties\<close>

text \<open>C8. The counter of a migration can be trusted: in every interleaving of the worker with the eight
  threads, when \<open>mix_segment_migration_end\<close> stops waiting, every thread has moved its share of the
  segment in this migration. The runs start with all flags down, as \<open>start\<close> says.\<close>

theorem migration_end_waits_for_all:
  assumes "reachable s" "hs_caller s = Wait i" "caller_step idx s = Some s'"
  shows "\<forall>t < 8. t \<in> set (hs_moved s)"
proof -
  have inv: "handshake_inv s" using assms(1) by (rule reachable_inv)
  have "migrate_threads \<le> hs_completed s ! i" using assms(2,3) by (auto simp: caller_step_def split: if_splits)
  from counted_all [OF inv assms(2) this] inv show ?thesis
    by (auto simp: handshake_inv_def shared_ok_def migrate_threads_def)
qed

theorem migration_end_waits_for_all_witness:
  "\<exists>s s'. run (begin_migration @ concat (map pass [0..<8])) start = Some s \<and> caller_step 0 s = Some s' \<and> hs_caller s = Wait 0 \<and> 3 \<in> set (hs_moved s)"
proof -
  obtain s s' where s: "run (begin_migration @ concat (map pass [0..<8])) start = Some s" "caller_step 0 s = Some s'" "hs_caller s = Wait 0"
    using run_one_migration by (auto simp: all_passed_def caller_step_def migrate_threads_def)
  then show ?thesis using migration_end_waits_for_all [OF run_reachable [OF s(1) reach_start] s(3,2)] by auto
qed

text \<open>C15. The handshake can lose a wake-up and block for good: a thread counts itself before it lowers its
  flag, so that it can lower the flag that the next migration has already raised. Then seven threads
  count themselves, all eight wait for their flags, and the worker waits for the eighth forever.\<close>

theorem lost_wakeup_blocks:
  "\<exists>s. reachable s \<and> hs_caller s = Wait 0 \<and> hs_completed s ! 0 = 7 \<and> (\<forall>s'. \<not> step s s')"
  using run_reachable [OF run_lost_wakeup reach_start] stuck_no_step
  by (intro exI [of _ stuck]) (simp add: stuck_def)

text \<open>C16. A lost wake-up is the only way to block: in every reachable state in which nobody can move, the
  worker waits for a thread that has not counted itself and whose flag is down. The runs start with all flags
  down, as \<open>start\<close> says.\<close>

theorem blocked_only_by_lost_wakeup:
  assumes "reachable s" "\<And>s'. \<not> step s s'"
  shows "\<exists>i t. hs_caller s = Wait i \<and> t < 8 \<and> t \<notin> set (hs_counted s) \<and> hs_threads s ! t = Spin \<and> \<not> hs_flags s ! t"
proof -
  have inv: "handshake_inv s" using assms(1) by (rule reachable_inv)
  have "caller_step 0 s = None" using assms(2) step.caller [of 0 s] by (cases "caller_step 0 s") auto
  then obtain i where i: "hs_caller s = Wait i" "hs_completed s ! i < migrate_threads"
    by (auto simp: caller_step_def split: caller_pc.splits if_splits)
  then have "length (hs_counted s) < migrate_threads" using inv by (auto simp: handshake_inv_def shared_ok_def split: if_splits)
  then have "card (set (hs_counted s)) < card {..<migrate_threads}" using card_length [of "hs_counted s"] by simp
  then obtain t where t: "t < migrate_threads" "t \<notin> set (hs_counted s)" by (metis card_mono finite_set lessThan_iff not_le subsetI)
  have "thread_step t s = None" using assms(2) step.thread [OF t(1), of s] by (cases "thread_step t s") auto
  then have "hs_threads s ! t = Spin" "\<not> hs_flags s ! t" by (auto simp: thread_step_def split: thread_pc.splits if_splits)
  then show ?thesis using i(1) t by (auto simp: migrate_threads_def)
qed

theorem blocked_only_by_lost_wakeup_witness:
  "\<exists>i t. hs_caller stuck = Wait i \<and> t < 8 \<and> t \<notin> set (hs_counted stuck) \<and> hs_threads stuck ! t = Spin \<and> \<not> hs_flags stuck ! t"
  by (rule blocked_only_by_lost_wakeup [OF run_reachable [OF run_lost_wakeup reach_start] stuck_no_step])

end
