(* ===== verification/Bit_Index_Spec.thy ===== *)
theory Bit_Index_Spec
  imports Prelude
begin

text \<open>
  The contract of a fixed-size index of used blocks, as \<open>src/src/mix_meta.c\<close> uses its
  bitmaps: mark a block, release it, or let the index choose a free block. Marking and
  releasing report the previous state of the block.
\<close>

text \<open>Taking \<open>n\<close> free blocks one after the other.\<close>

fun take_many :: "('b \<Rightarrow> ('b \<times> int) option) \<Rightarrow> nat \<Rightarrow> 'b \<Rightarrow> ('b \<times> int list) option" where
  "take_many pick 0 b = Some (b, [])"
| "take_many pick (Suc n) b =
     (case pick b of
        None \<Rightarrow> None
      | Some (b', z) \<Rightarrow> map_option (\<lambda>(b'', zs). (b'', z # zs)) (take_many pick n b'))"

locale bit_index =
  fixes used :: "'b \<Rightarrow> nat \<Rightarrow> bool"
    and cap :: "'b \<Rightarrow> nat"
    and mark :: "'b \<Rightarrow> nat \<Rightarrow> ('b \<times> int) option"
    and release :: "'b \<Rightarrow> nat \<Rightarrow> ('b \<times> int) option"
    and pick :: "'b \<Rightarrow> ('b \<times> int) option"
    and invar :: "'b \<Rightarrow> bool"
  assumes mark_spec: "invar b \<Longrightarrow> k < cap b \<Longrightarrow>
      \<exists>b'. mark b k = Some (b', if used b k then 1 else 0) \<and> invar b' \<and> cap b' = cap b \<and>
        (\<forall>j < cap b. used b' j \<longleftrightarrow> j = k \<or> used b j)"
    and release_spec: "invar b \<Longrightarrow> k < cap b \<Longrightarrow>
      \<exists>b'. release b k = Some (b', if used b k then 1 else 0) \<and> invar b' \<and> cap b' = cap b \<and>
        (\<forall>j < cap b. used b' j \<longleftrightarrow> j \<noteq> k \<and> used b j)"
    and pick_spec: "invar b \<Longrightarrow> k < cap b \<Longrightarrow> \<not> used b k \<Longrightarrow>
      \<exists>b' z. pick b = Some (b', int z) \<and> z < cap b \<and> \<not> used b z \<and> invar b' \<and>
        cap b' = cap b \<and> (\<forall>j < cap b. used b' j \<longleftrightarrow> j = z \<or> used b j)"
    and pick_full: "invar b \<Longrightarrow> \<forall>k < cap b. used b k \<Longrightarrow> pick b = None"
begin

text \<open>The blocks in use and the blocks still free.\<close>

definition used_set :: "'b \<Rightarrow> nat set" where
  "used_set b = {k. k < cap b \<and> used b k}"

lemma finite_used_set [simp]: "finite (used_set b)"
  by (simp add: used_set_def)

lemma used_set_bound: "card (used_set b) \<le> cap b"
  using card_mono [of "{..<cap b}" "used_set b"] by (auto simp: used_set_def)

lemma pick_fresh:
  assumes "invar b" "card (used_set b) < cap b"
  shows "\<exists>b' z. pick b = Some (b', int z) \<and> z < cap b \<and> z \<notin> used_set b \<and> invar b' \<and>
    cap b' = cap b \<and> used_set b' = insert z (used_set b)"
proof -
  have "\<exists>k < cap b. \<not> used b k"
  proof (rule ccontr)
    assume "\<not> (\<exists>k < cap b. \<not> used b k)"
    then have "used_set b = {..<cap b}" unfolding used_set_def by blast
    then show False using assms(2) by simp
  qed
  then obtain k where "k < cap b" "\<not> used b k" by blast
  from pick_spec [OF assms(1) this] obtain b' z where
    "pick b = Some (b', int z)" "z < cap b" "\<not> used b z" "invar b'" "cap b' = cap b"
    "\<forall>j < cap b. used b' j \<longleftrightarrow> j = z \<or> used b j" by blast
  then show ?thesis
    by (intro exI [of _ b'] exI [of _ z]) (auto simp: used_set_def)
qed

lemma take_many_distinct:
  assumes "invar b" "n + card (used_set b) \<le> cap b"
  shows "\<exists>b' zs. take_many pick n b = Some (b', map int zs) \<and> length zs = n \<and> distinct zs \<and>
    set zs \<inter> used_set b = {} \<and> set zs \<subseteq> {..<cap b} \<and> invar b' \<and> cap b' = cap b \<and>
    used_set b' = used_set b \<union> set zs"
  using assms
proof (induction n arbitrary: b)
  case 0
  then show ?case by (intro exI [of _ b] exI [of _ "[]"]) simp
next
  case (Suc n)
  then obtain b1 z where z: "pick b = Some (b1, int z)" "z < cap b" "z \<notin> used_set b"
      "invar b1" "cap b1 = cap b" "used_set b1 = insert z (used_set b)"
    using pick_fresh [of b] by auto
  then have "n + card (used_set b1) \<le> cap b1" using Suc.prems by simp
  from Suc.IH [OF z(4) this] obtain b' zs where zs: "take_many pick n b1 = Some (b', map int zs)"
      "length zs = n" "distinct zs" "set zs \<inter> used_set b1 = {}" "set zs \<subseteq> {..<cap b1}"
      "invar b'" "cap b' = cap b1" "used_set b' = used_set b1 \<union> set zs"
    by blast
  have "take_many pick (Suc n) b = Some (b', map int (z # zs))" using z(1) zs(1) by simp
  with z zs show ?case by (intro exI [of _ b'] exI [of _ "z # zs"]) auto
qed

lemma mark_release:
  assumes "invar b" "k < cap b" "\<not> used b k"
  shows "\<exists>b1 b2. mark b k = Some (b1, 0) \<and> release b1 k = Some (b2, 1) \<and> used_set b2 = used_set b"
proof -
  obtain b1 where b1: "mark b k = Some (b1, 0)" "invar b1" "cap b1 = cap b"
      "\<forall>j < cap b. used b1 j \<longleftrightarrow> j = k \<or> used b j"
    using mark_spec [OF assms(1,2)] assms(3) by auto
  moreover obtain b2 where "release b1 k = Some (b2, 1)" "cap b2 = cap b1"
      "\<forall>j < cap b1. used b2 j \<longleftrightarrow> j \<noteq> k \<and> used b1 j"
    using release_spec [OF b1(2), of k] assms(2) b1 by auto
  ultimately show ?thesis using assms(2,3) by (auto simp: used_set_def)
qed

end

end
