(* ===== verification/Mix_Bitmap.thy ===== *)
theory Mix_Bitmap
  imports Bit_Index_Spec "HOL-Library.Signed_Division"
begin

text \<open>
  The bitmap of \<open>src/src/mix_bitmap.c\<close>, in its two uses: as one bit per block of a buffer
  segment (set, clear, test, next free bit), and as an array of 4-bit counters for the
  counting bloom filter. C \<open>int\<close> values are HOL integers with the C division and remainder
  (\<open>sdiv\<close>, \<open>smod\<close>); every byte access is checked against the allocated array.
\<close>

section \<open>The data structure and its operations\<close>

record mix_bitmap =
  bm_array :: "u8 list"
  bm_bytes :: int
  bm_next_bit :: int

definition BITS_PER_BYTE :: int where
  "BITS_PER_BYTE = 8"

text \<open>\<open>mix_bitmap_init\<close>: the three flags say whether the \<open>malloc\<close> of the bitmap, of its array
  and of its lock succeeded; \<open>None\<close> is the returned \<open>NULL\<close>.\<close>

definition mix_bitmap_init :: "bool \<Rightarrow> bool \<Rightarrow> bool \<Rightarrow> int \<Rightarrow> mix_bitmap option" where
  "mix_bitmap_init bitmap_ok array_ok rwlock_ok bytes =
     (if \<not> bitmap_ok then None
      else let bytes' = bytes sdiv BITS_PER_BYTE; next_bit = 0
           in if \<not> array_ok then None
              else let array = replicate (nat bytes) 0
                   in if \<not> rwlock_ok then None
                      else Some \<lparr>bm_array = array, bm_bytes = bytes', bm_next_bit = next_bit\<rparr>)"

text \<open>\<open>addr = bitmap->array + (nr >> 3)\<close> and \<open>mask = 1 << (nr & 0x07)\<close>.\<close>

definition bm_byte :: "mix_bitmap \<Rightarrow> int \<Rightarrow> u8 option" where
  "bm_byte bitmap addr =
     (if 0 \<le> addr \<and> addr < int (length (bm_array bitmap))
      then Some (bm_array bitmap ! nat addr) else None)"

definition bm_store :: "mix_bitmap \<Rightarrow> int \<Rightarrow> u8 \<Rightarrow> mix_bitmap" where
  "bm_store bitmap addr v = bitmap\<lparr>bm_array := (bm_array bitmap)[nat addr := v]\<rparr>"

definition bit_mask :: "int \<Rightarrow> u8" where
  "bit_mask nr = push_bit (nat (nr AND 7)) 1"

definition mix_bitmap_set_bit :: "mix_bitmap \<Rightarrow> int \<Rightarrow> (mix_bitmap \<times> int) option" where
  "mix_bitmap_set_bit bitmap nr =
     (let addr = drop_bit 3 nr; mask = bit_mask nr
      in do {
        byte \<leftarrow> bm_byte bitmap addr;
        let retval = (if mask AND byte \<noteq> 0 then 1 else 0);
        Some (bm_store bitmap addr (byte OR mask), retval)
      })"

definition mix_bitmap_clear :: "mix_bitmap \<Rightarrow> mix_bitmap option" where
  "mix_bitmap_clear bitmap = do {
     array \<leftarrow> mem_write (bm_array bitmap) 0 (replicate (nat (bm_bytes bitmap)) 0);
     Some (bitmap\<lparr>bm_array := array, bm_next_bit := 0\<rparr>)
   }"

definition mix_bitmap_clear_bit :: "mix_bitmap \<Rightarrow> int \<Rightarrow> (mix_bitmap \<times> int) option" where
  "mix_bitmap_clear_bit bitmap nr =
     (let addr = drop_bit 3 nr; mask = bit_mask nr
      in do {
        byte \<leftarrow> bm_byte bitmap addr;
        let retval = (if mask AND byte \<noteq> 0 then 1 else 0);
        Some (bm_store bitmap addr (byte AND NOT mask), retval)
      })"

definition mix_bitmap_test_bit :: "mix_bitmap \<Rightarrow> int \<Rightarrow> int option" where
  "mix_bitmap_test_bit bitmap nr =
     (let addr = drop_bit 3 nr; mask = bit_mask nr
      in do {
        byte \<leftarrow> bm_byte bitmap addr;
        Some (if mask AND byte \<noteq> 0 then 1 else 0)
      })"

text \<open>C's \<open>%\<close> and \<open>/\<close> trap on a zero divisor.\<close>

definition c_mod :: "int \<Rightarrow> int \<Rightarrow> int option" where
  "c_mod a b = (if b = 0 then None else Some (a smod b))"

definition c_div :: "int \<Rightarrow> int \<Rightarrow> int option" where
  "c_div a b = (if b = 0 then None else Some (a sdiv b))"

text \<open>The search loop of \<open>mix_bitmap_next_zero_bit\<close>; \<open>None\<close> also when it never ends.\<close>

partial_function (option) next_zero_loop :: "mix_bitmap \<Rightarrow> int \<Rightarrow> int option" where
  "next_zero_loop bitmap next_zero_bit = do {
     t \<leftarrow> mix_bitmap_test_bit bitmap next_zero_bit;
     if t \<noteq> 0
     then do {
       z \<leftarrow> c_mod (next_zero_bit + 1) (bm_bytes bitmap * BITS_PER_BYTE);
       next_zero_loop bitmap z
     }
     else Some next_zero_bit
   }"

definition mix_bitmap_next_zero_bit :: "mix_bitmap \<Rightarrow> (mix_bitmap \<times> int) option" where
  "mix_bitmap_next_zero_bit bitmap =
     (let next_zero_bit = bm_next_bit bitmap
      in do {
        t \<leftarrow> mix_bitmap_test_bit bitmap next_zero_bit;
        if t = 0
        then do {
          (bitmap, old) \<leftarrow> mix_bitmap_set_bit bitmap next_zero_bit;
          if old = 0
          then do {
            n \<leftarrow> c_mod (next_zero_bit + 1) (bm_bytes bitmap * BITS_PER_BYTE);
            Some (bitmap\<lparr>bm_next_bit := n\<rparr>, next_zero_bit)
          }
          else Some (bitmap, -1)
        }
        else do {
          next_zero_bit \<leftarrow> next_zero_loop bitmap next_zero_bit;
          (bitmap, old) \<leftarrow> mix_bitmap_set_bit bitmap next_zero_bit;
          if old = 0
          then do {
            n \<leftarrow> c_div (next_zero_bit + 1) (bm_bytes bitmap * BITS_PER_BYTE);
            Some (bitmap\<lparr>bm_next_bit := n\<rparr>, next_zero_bit)
          }
          else Some (bitmap, -1)
        }
      })"

section \<open>Four-bit counters\<close>

text \<open>\<open>access = index / 2 + offset\<close>; an odd index is the low nibble of its byte. The byte is
  recomputed in \<open>uint8_t\<close> and stored unless the counter is at its limit.\<close>

definition counting_access :: "u32 \<Rightarrow> int \<Rightarrow> int" where
  "counting_access index offset = uint (index div 2) + offset"

definition mix_counting_bitmap_increment ::
    "mix_bitmap \<Rightarrow> u32 \<Rightarrow> int \<Rightarrow> (mix_bitmap \<times> int) option" where
  "mix_counting_bitmap_increment bitmap index offset =
     (let access = counting_access index offset
      in do {
        n \<leftarrow> bm_byte bitmap access;
        let (temp, n') =
          (if index mod 2 \<noteq> 0
           then (n AND 0x0f, (n AND 0xf0) + ((n AND 0x0f) + 0x01))
           else (drop_bit 4 (n AND 0xf0), (n AND 0x0f) + ((n AND 0xf0) + 0x10)));
        if temp = 0x0f then Some (bitmap, -1)
        else Some (bm_store bitmap access n', 0)
      })"

definition mix_counting_bitmap_decrement ::
    "mix_bitmap \<Rightarrow> u32 \<Rightarrow> int \<Rightarrow> (mix_bitmap \<times> int) option" where
  "mix_counting_bitmap_decrement bitmap index offset =
     (let access = counting_access index offset
      in do {
        n \<leftarrow> bm_byte bitmap access;
        let (temp, n') =
          (if index mod 2 \<noteq> 0
           then (n AND 0x0f, (n AND 0xf0) + ((n AND 0x0f) - 0x01))
           else (drop_bit 4 (n AND 0xf0), (n AND 0x0f) + ((n AND 0xf0) - 0x10)));
        if temp = 0x00 then Some (bitmap, -1)
        else Some (bm_store bitmap access n', 0)
      })"

text \<open>The byte is a (signed) \<open>char\<close>: it is sign extended before the mask is applied.\<close>

definition mix_counting_bitmap_check :: "mix_bitmap \<Rightarrow> u32 \<Rightarrow> int \<Rightarrow> int option" where
  "mix_counting_bitmap_check bitmap index offset =
     (let access = counting_access index offset
      in do {
        n \<leftarrow> bm_byte bitmap access;
        Some (if index mod 2 \<noteq> 0 then sint n AND 0x0f else sint n AND 0xf0)
      })"

section \<open>The bitmap as a set of bits\<close>

definition bit_at :: "mix_bitmap \<Rightarrow> nat \<Rightarrow> bool" where
  "bit_at b k = bit (bm_array b ! (k div 8)) (k mod 8)"

definition bm_alloc :: "mix_bitmap \<Rightarrow> nat" where
  "bm_alloc b = 8 * length (bm_array b)"

text \<open>The number of bits the search considers: \<open>bitmap->bytes * BITS_PER_BYTE\<close>.\<close>

definition bm_bits :: "mix_bitmap \<Rightarrow> nat" where
  "bm_bits b = 8 * nat (bm_bytes b)"

definition bitmap_ok :: "mix_bitmap \<Rightarrow> bool" where
  "bitmap_ok b \<longleftrightarrow> 0 < bm_bytes b \<and> bm_bits b \<le> bm_alloc b \<and>
     0 \<le> bm_next_bit b \<and> bm_next_bit b < int (bm_bits b)"

lemma byte_index [simp]: "drop_bit 3 (int k) = int (k div 8)"
  by (simp add: drop_bit_eq_div zdiv_int)

lemma bit_offset: "nat (int k AND 7) = k mod 8"
proof -
  have "int k AND 7 = take_bit 3 (int k)" by (simp add: take_bit_eq_mask mask_eq_exp_minus_1)
  then show ?thesis by (simp add: take_bit_eq_mod nat_mod_distrib)
qed

lemma bit_bit_mask: "bit (bit_mask (int k)) j \<longleftrightarrow> j = k mod 8"
  by (auto simp: bit_mask_def bit_offset bit_exp_iff possible_bit_word)

lemma mask_and_byte: "bit_mask (int k) AND byte \<noteq> 0 \<longleftrightarrow> bit byte (k mod 8)"
proof
  assume "bit byte (k mod 8)"
  then have "bit (bit_mask (int k) AND byte) (k mod 8)" by (simp add: bit_and_iff bit_bit_mask)
  then show "bit_mask (int k) AND byte \<noteq> 0" by auto
next
  assume "bit_mask (int k) AND byte \<noteq> 0"
  then obtain j where "bit (bit_mask (int k) AND byte) j" by (metis bit_0_eq bit_eqI bot_apply bot_bool_def)
  then show "bit byte (k mod 8)" by (auto simp: bit_and_iff bit_bit_mask)
qed

lemma bm_byte_at: "k < bm_alloc b \<Longrightarrow> bm_byte b (int (k div 8)) = Some (bm_array b ! (k div 8))"
  by (auto simp: bm_byte_def bm_alloc_def)

lemma bit_at_store:
  assumes "k < bm_alloc b" "j < bm_alloc b"
  shows "bit_at (bm_store b (int (k div 8)) v) j =
    (if j div 8 = k div 8 then bit v (j mod 8) else bit_at b j)"
  using assms by (auto simp: bit_at_def bm_store_def bm_alloc_def nth_list_update)

lemma bm_store_frame [simp]:
  "bm_alloc (bm_store b a v) = bm_alloc b" "bm_bits (bm_store b a v) = bm_bits b"
  "bm_bytes (bm_store b a v) = bm_bytes b" "bm_next_bit (bm_store b a v) = bm_next_bit b"
  by (simp_all add: bm_store_def bm_alloc_def bm_bits_def)

lemma div_mod_8_eq: "(j::nat) div 8 = k div 8 \<Longrightarrow> j mod 8 = k mod 8 \<longleftrightarrow> j = k"
  by (metis mult_div_mod_eq)

lemma mix_bitmap_test_bit_eq:
  "k < bm_alloc b \<Longrightarrow> mix_bitmap_test_bit b (int k) = Some (if bit_at b k then 1 else 0)"
  using mask_and_byte [of k] by (simp add: mix_bitmap_test_bit_def bm_byte_at bit_at_def)

lemma mix_bitmap_set_bit_eq:
  assumes "k < bm_alloc b"
  obtains b' where "mix_bitmap_set_bit b (int k) = Some (b', if bit_at b k then 1 else 0)"
    "\<And>j. j < bm_alloc b \<Longrightarrow> bit_at b' j \<longleftrightarrow> j = k \<or> bit_at b j"
    "bm_alloc b' = bm_alloc b" "bm_bytes b' = bm_bytes b" "bm_next_bit b' = bm_next_bit b"
proof -
  let ?v = "bm_array b ! (k div 8) OR bit_mask (int k)"
  let ?b' = "bm_store b (int (k div 8)) ?v"
  have "mix_bitmap_set_bit b (int k) = Some (?b', if bit_at b k then 1 else 0)"
    using assms mask_and_byte [of k]
    by (simp add: mix_bitmap_set_bit_def bm_byte_at bit_at_def)
  moreover have "bit_at ?b' j \<longleftrightarrow> j = k \<or> bit_at b j" if "j < bm_alloc b" for j
    unfolding bit_at_store [OF assms that]
    by (auto simp: bit_at_def bit_or_iff bit_bit_mask div_mod_8_eq)
  ultimately show thesis using that by simp
qed

lemma mix_bitmap_clear_bit_eq:
  assumes "k < bm_alloc b"
  obtains b' where "mix_bitmap_clear_bit b (int k) = Some (b', if bit_at b k then 1 else 0)"
    "\<And>j. j < bm_alloc b \<Longrightarrow> bit_at b' j \<longleftrightarrow> j \<noteq> k \<and> bit_at b j"
    "bm_alloc b' = bm_alloc b" "bm_bytes b' = bm_bytes b" "bm_next_bit b' = bm_next_bit b"
proof -
  let ?v = "bm_array b ! (k div 8) AND NOT (bit_mask (int k))"
  let ?b' = "bm_store b (int (k div 8)) ?v"
  have "mix_bitmap_clear_bit b (int k) = Some (?b', if bit_at b k then 1 else 0)"
    using assms mask_and_byte [of k]
    by (simp add: mix_bitmap_clear_bit_def bm_byte_at bit_at_def)
  moreover have "bit_at ?b' j \<longleftrightarrow> j \<noteq> k \<and> bit_at b j" if "j < bm_alloc b" for j
    unfolding bit_at_store [OF assms that]
    by (auto simp: bit_at_def bit_and_iff bit_not_iff bit_bit_mask div_mod_8_eq
        possible_bit_word)
  ultimately show thesis using that by simp
qed

lemma mix_bitmap_clear_eq:
  assumes "bitmap_ok b"
  obtains b' where "mix_bitmap_clear b = Some b'" "bitmap_ok b'" "bm_alloc b' = bm_alloc b"
    "bm_bits b' = bm_bits b" "\<And>k. k < bm_alloc b \<Longrightarrow> bit_at b' k \<longleftrightarrow> bm_bits b \<le> k \<and> bit_at b k"
proof -
  let ?n = "nat (bm_bytes b)"
  have fit: "0 + length (replicate ?n (0 :: u8)) \<le> length (bm_array b)"
    using assms by (simp add: bitmap_ok_def bm_bits_def bm_alloc_def)
  then obtain a where a: "mem_write (bm_array b) 0 (replicate ?n 0) = Some a"
    using mem_write_ok by blast
  let ?b' = "b\<lparr>bm_array := a, bm_next_bit := 0\<rparr>"
  have len: "length a = length (bm_array b)" using a by (rule mem_write_length)
  have "bit_at ?b' k \<longleftrightarrow> bm_bits b \<le> k \<and> bit_at b k" if k: "k < bm_alloc b" for k
  proof -
    have i: "k div 8 < length (bm_array b)" using k by (auto simp: bm_alloc_def)
    have "k div 8 < ?n \<longleftrightarrow> \<not> bm_bits b \<le> k" by (auto simp: bm_bits_def)
    then show ?thesis
      using mem_write_nth [OF a i] by (auto simp: bit_at_def split: if_splits)
  qed
  moreover have "mix_bitmap_clear b = Some ?b'" using a by (simp add: mix_bitmap_clear_def)
  moreover have "bitmap_ok ?b'" "bm_alloc ?b' = bm_alloc b" "bm_bits ?b' = bm_bits b"
    using assms len by (auto simp: bitmap_ok_def bm_bits_def bm_alloc_def)
  ultimately show thesis using that by blast
qed

section \<open>The search for a free bit\<close>

lemma smod_nonneg: "0 \<le> a \<Longrightarrow> 0 < b \<Longrightarrow> (a::int) smod b = a mod b"
  by (cases "a = 0") (simp_all add: signed_modulo_int_def)

lemma sdiv_nonneg: "0 \<le> a \<Longrightarrow> 0 < b \<Longrightarrow> (a::int) sdiv b = a div b"
  by (cases "a = 0") (simp_all add: signed_divide_int_def)

lemma c_mod_wrap:
  "bitmap_ok b \<Longrightarrow> c_mod (int k + 1) (bm_bytes b * BITS_PER_BYTE) = Some (int (Suc k mod bm_bits b))"
  by (simp add: bitmap_ok_def bm_bits_def c_mod_def BITS_PER_BYTE_def smod_nonneg zmod_int
      algebra_simps)

lemma next_zero_loop_step:
  assumes "bitmap_ok b" "k < bm_bits b"
  shows "next_zero_loop b (int k) =
    (if bit_at b k then next_zero_loop b (int (Suc k mod bm_bits b)) else Some (int k))"
proof -
  have "k < bm_alloc b" using assms by (simp add: bitmap_ok_def)
  then show ?thesis
    by (subst next_zero_loop.simps)
       (simp add: mix_bitmap_test_bit_eq c_mod_wrap [OF assms(1)])
qed

text \<open>The loop stops at the first clear bit in cyclic order.\<close>

lemma next_zero_loop_finds:
  assumes ok: "bitmap_ok b" and s: "s < bm_bits b"
    and clear: "\<not> bit_at b ((s + d) mod bm_bits b)"
    and busy: "\<And>i. i < d \<Longrightarrow> bit_at b ((s + i) mod bm_bits b)"
  shows "next_zero_loop b (int s) = Some (int ((s + d) mod bm_bits b))"
  using s clear busy
proof (induction d arbitrary: s)
  case 0
  then show ?case by (simp add: next_zero_loop_step [OF ok])
next
  case (Suc d)
  let ?s' = "Suc s mod bm_bits b"
  have "bit_at b s" using Suc.prems(1) Suc.prems(3) [of 0] by simp
  then have step: "next_zero_loop b (int s) = next_zero_loop b (int ?s')"
    using next_zero_loop_step [OF ok Suc.prems(1)] by simp
  have shift: "(?s' + i) mod bm_bits b = (s + Suc i) mod bm_bits b" for i
    by (simp add: mod_add_left_eq)
  have "next_zero_loop b (int ?s') = Some (int ((?s' + d) mod bm_bits b))"
    using Suc.prems(1,2) Suc.prems(3) [of "Suc i" for i]
    by (intro Suc.IH) (simp_all only: shift, simp_all)
  with step show ?case by (simp add: shift)
qed

text \<open>It returns only at a clear bit; so it never returns when every bit is set.\<close>

lemma next_zero_loop_result:
  assumes "next_zero_loop b z = Some r" "bitmap_ok b" "0 \<le> z" "z < int (bm_bits b)"
  shows "0 \<le> r \<and> r < int (bm_bits b) \<and> \<not> bit_at b (nat r)"
proof -
  have "\<forall>k. z = int k \<longrightarrow> k < bm_bits b \<longrightarrow> 0 \<le> r \<and> r < int (bm_bits b) \<and> \<not> bit_at b (nat r)"
  proof (rule next_zero_loop.raw_induct [where P = "\<lambda>b z r. bitmap_ok b \<longrightarrow>
      (\<forall>k. z = int k \<longrightarrow> k < bm_bits b \<longrightarrow> 0 \<le> r \<and> r < int (bm_bits b) \<and> \<not> bit_at b (nat r))",
      OF _ assms(1), THEN mp, OF _ assms(2)])
    fix loop b z r
    assume IH: "\<And>b z r. loop b z = Some r \<Longrightarrow> bitmap_ok b \<longrightarrow>
        (\<forall>k. z = int k \<longrightarrow> k < bm_bits b \<longrightarrow> 0 \<le> r \<and> r < int (bm_bits b) \<and> \<not> bit_at b (nat r))"
      and run: "do { t \<leftarrow> mix_bitmap_test_bit b z;
         if t \<noteq> 0 then do { z \<leftarrow> c_mod (z + 1) (bm_bytes b * BITS_PER_BYTE); loop b z }
         else Some z } = Some r"
    show "bitmap_ok b \<longrightarrow>
        (\<forall>k. z = int k \<longrightarrow> k < bm_bits b \<longrightarrow> 0 \<le> r \<and> r < int (bm_bits b) \<and> \<not> bit_at b (nat r))"
    proof (intro impI allI)
      fix k assume ok: "bitmap_ok b" and z: "z = int k" and k: "k < bm_bits b"
      have "k < bm_alloc b" using ok k by (simp add: bitmap_ok_def)
      then have "if bit_at b k then loop b (int (Suc k mod bm_bits b)) = Some r else int k = r"
        using run z by (auto simp: mix_bitmap_test_bit_eq c_mod_wrap [OF ok] split: if_splits)
      then show "0 \<le> r \<and> r < int (bm_bits b) \<and> \<not> bit_at b (nat r)"
        using IH [of b "int (Suc k mod bm_bits b)" r] ok k by (auto split: if_splits)
    qed
  qed
  then show ?thesis using assms(3,4) by (metis nat_0_le nat_less_iff of_nat_less_iff)
qed

lemma bitmap_ok_hint:
  assumes "bitmap_ok b"
  obtains s where "bm_next_bit b = int s" "s < bm_bits b"
  using assms by (metis bitmap_ok_def nat_0_le nat_less_iff of_nat_less_iff)

lemma cyclic_first_clear:
  fixes n :: nat
  assumes "s < n" "k < n" "\<not> P k"
  obtains d where "d < n" "\<not> P ((s + d) mod n)" "\<And>i. i < d \<Longrightarrow> P ((s + i) mod n)"
proof -
  let ?Q = "\<lambda>d. \<not> P ((s + d) mod n)"
  let ?e = "(k + (n - s)) mod n"
  have "(s + ?e) mod n = (s + (k + (n - s))) mod n" by (simp add: mod_add_right_eq)
  also have "\<dots> = (k + n) mod n" using assms(1) by simp
  finally have e: "?Q ?e" using assms(2,3) by simp
  have "(LEAST d. ?Q d) \<le> ?e" using e by (rule Least_le)
  moreover have "?e < n" using assms(1) by simp
  ultimately have "(LEAST d. ?Q d) < n" by simp
  then show thesis
    using that [of "LEAST d. ?Q d"] LeastI [of ?Q, OF e] not_less_Least [of _ ?Q] by blast
qed

definition next_hint :: "mix_bitmap \<Rightarrow> nat \<Rightarrow> int" where
  "next_hint b z = (if \<not> bit_at b (nat (bm_next_bit b)) then int (Suc z mod bm_bits b)
                    else int (Suc z div bm_bits b))"

lemma next_hint_range:
  assumes "bitmap_ok b" "z < bm_bits b"
  shows "0 \<le> next_hint b z \<and> next_hint b z < int (bm_bits b)"
proof -
  have "1 \<le> nat (bm_bytes b)" using assms(1) unfolding bitmap_ok_def by linarith
  then have n: "8 \<le> bm_bits b" by (simp add: bm_bits_def)
  have "Suc z \<le> bm_bits b" using assms(2) by simp
  then have "Suc z div bm_bits b \<le> bm_bits b div bm_bits b" by (rule div_le_mono)
  then have "Suc z div bm_bits b < bm_bits b" using n by simp
  then show ?thesis using n by (simp add: next_hint_def)
qed

text \<open>\<open>mix_bitmap_next_zero_bit\<close> finds and marks the first clear bit at or after the hint, in
  cyclic order.\<close>

lemma mix_bitmap_next_zero_bit_finds:
  assumes ok: "bitmap_ok b" and k: "k < bm_bits b" "\<not> bit_at b k"
    and s: "bm_next_bit b = int s" "s < bm_bits b"
  obtains b' z d where "mix_bitmap_next_zero_bit b = Some (b', int z)" "z < bm_bits b"
    "\<not> bit_at b z" "z = (s + d) mod bm_bits b"
    "\<And>i. i < d \<Longrightarrow> bit_at b ((s + i) mod bm_bits b)"
    "bitmap_ok b'" "bm_bytes b' = bm_bytes b" "bm_alloc b' = bm_alloc b"
    "\<And>j. j < bm_alloc b \<Longrightarrow> bit_at b' j \<longleftrightarrow> j = z \<or> bit_at b j"
    "bm_next_bit b' = next_hint b z"
proof -
  let ?n = "bm_bits b"
  have na: "?n \<le> bm_alloc b" and pos: "0 < bm_bytes b" using ok by (auto simp: bitmap_ok_def)
  obtain d where d: "\<not> bit_at b ((s + d) mod ?n)" "\<And>i. i < d \<Longrightarrow> bit_at b ((s + i) mod ?n)"
    using cyclic_first_clear [OF s(2) k(1), of "bit_at b"] k(2) by blast
  define z where "z = (s + d) mod ?n"
  have z: "z < ?n" "\<not> bit_at b z" using d(1) s by (simp_all add: z_def)
  then have "z < bm_alloc b" using na by simp
  from mix_bitmap_set_bit_eq [OF this] obtain b1 where
    b1: "mix_bitmap_set_bit b (int z) = Some (b1, 0)"
      "\<And>j. j < bm_alloc b \<Longrightarrow> bit_at b1 j \<longleftrightarrow> j = z \<or> bit_at b j"
      "bm_alloc b1 = bm_alloc b" "bm_bytes b1 = bm_bytes b" "bm_next_bit b1 = bm_next_bit b"
    using z(2) by auto
  let ?b' = "b1\<lparr>bm_next_bit := next_hint b z\<rparr>"
  have loop: "next_zero_loop b (int s) = Some (int z)"
    unfolding z_def using ok s(2) d by (rule next_zero_loop_finds)
  have first: "\<not> bit_at b s \<Longrightarrow> z = s" using loop next_zero_loop_step [OF ok s(2)] by simp
  have div: "c_div (int z + 1) (bm_bytes b * BITS_PER_BYTE) = Some (int (Suc z div ?n))"
    using pos by (simp add: c_div_def BITS_PER_BYTE_def sdiv_nonneg bm_bits_def zdiv_int algebra_simps)
  have run: "mix_bitmap_next_zero_bit b = Some (?b', int z)"
  proof (cases "bit_at b s")
    case True
    then show ?thesis
      using s na loop b1 div
      by (simp add: mix_bitmap_next_zero_bit_def mix_bitmap_test_bit_eq next_hint_def)
  next
    case False
    then show ?thesis
      using s na b1 first c_mod_wrap [OF ok, of s]
      by (simp add: mix_bitmap_next_zero_bit_def mix_bitmap_test_bit_eq next_hint_def)
  qed
  have bits: "bm_bits ?b' = ?n" "bm_alloc ?b' = bm_alloc b"
    using b1 by (simp_all add: bm_bits_def bm_alloc_def)
  then have "bitmap_ok ?b'"
    using ok b1 next_hint_range [OF ok z(1)] by (simp add: bitmap_ok_def)
  moreover have "bit_at ?b' j \<longleftrightarrow> bit_at b1 j" for j by (simp add: bit_at_def)
  ultimately show thesis using that [OF run z z_def d(2)] bits b1 by simp
qed

text \<open>With every bit set the search does not end.\<close>

lemma mix_bitmap_next_zero_bit_full:
  assumes ok: "bitmap_ok b" and full: "\<And>k. k < bm_bits b \<Longrightarrow> bit_at b k"
  shows "mix_bitmap_next_zero_bit b = None"
proof -
  obtain s where s: "bm_next_bit b = int s" "s < bm_bits b" using bitmap_ok_hint [OF ok] .
  have na: "bm_bits b \<le> bm_alloc b" using ok by (simp add: bitmap_ok_def)
  have "next_zero_loop b (int s) = None"
  proof (rule ccontr)
    assume "next_zero_loop b (int s) \<noteq> None"
    then obtain r where "next_zero_loop b (int s) = Some r" by auto
    then have "0 \<le> r \<and> r < int (bm_bits b) \<and> \<not> bit_at b (nat r)"
      using ok s(2) by (intro next_zero_loop_result) auto
    then show False using full [of "nat r"] by (simp add: nat_less_iff)
  qed
  then show ?thesis
    using s na full [OF s(2)] by (simp add: mix_bitmap_next_zero_bit_def mix_bitmap_test_bit_eq)
qed

section \<open>The bitmap meets the contract of a block index\<close>

definition bitmap_mark :: "mix_bitmap \<Rightarrow> nat \<Rightarrow> (mix_bitmap \<times> int) option" where
  "bitmap_mark b k = mix_bitmap_set_bit b (int k)"

definition bitmap_release :: "mix_bitmap \<Rightarrow> nat \<Rightarrow> (mix_bitmap \<times> int) option" where
  "bitmap_release b k = mix_bitmap_clear_bit b (int k)"

lemma bitmap_ok_cong:
  "bm_alloc b' = bm_alloc b \<Longrightarrow> bm_bytes b' = bm_bytes b \<Longrightarrow> bm_next_bit b' = bm_next_bit b \<Longrightarrow>
     bitmap_ok b \<Longrightarrow> bitmap_ok b' \<and> bm_bits b' = bm_bits b"
  by (metis bitmap_ok_def bm_bits_def)

interpretation bits: bit_index bit_at bm_bits bitmap_mark bitmap_release
  mix_bitmap_next_zero_bit bitmap_ok
proof unfold_locales
  fix b k assume ok: "bitmap_ok b" and k: "k < bm_bits b"
  then have alloc: "j < bm_bits b \<Longrightarrow> j < bm_alloc b" for j by (simp add: bitmap_ok_def)
  show "\<exists>b'. bitmap_mark b k = Some (b', if bit_at b k then 1 else 0) \<and> bitmap_ok b' \<and>
      bm_bits b' = bm_bits b \<and> (\<forall>j < bm_bits b. bit_at b' j \<longleftrightarrow> j = k \<or> bit_at b j)"
    unfolding bitmap_mark_def using mix_bitmap_set_bit_eq [OF alloc [OF k]] bitmap_ok_cong ok alloc
    by metis
  show "\<exists>b'. bitmap_release b k = Some (b', if bit_at b k then 1 else 0) \<and> bitmap_ok b' \<and>
      bm_bits b' = bm_bits b \<and> (\<forall>j < bm_bits b. bit_at b' j \<longleftrightarrow> j \<noteq> k \<and> bit_at b j)"
    unfolding bitmap_release_def
    using mix_bitmap_clear_bit_eq [OF alloc [OF k]] bitmap_ok_cong ok alloc by metis
  assume clear: "\<not> bit_at b k"
  obtain s where s: "bm_next_bit b = int s" "s < bm_bits b" using bitmap_ok_hint [OF ok] .
  obtain b' z where "mix_bitmap_next_zero_bit b = Some (b', int z)" "z < bm_bits b"
    "\<not> bit_at b z" "bitmap_ok b'" "bm_bytes b' = bm_bytes b"
    "\<And>j. j < bm_alloc b \<Longrightarrow> bit_at b' j \<longleftrightarrow> j = z \<or> bit_at b j"
    using mix_bitmap_next_zero_bit_finds [OF ok k clear s] by metis
  then show "\<exists>b' z. mix_bitmap_next_zero_bit b = Some (b', int z) \<and> z < bm_bits b \<and>
      \<not> bit_at b z \<and> bitmap_ok b' \<and> bm_bits b' = bm_bits b \<and>
      (\<forall>j < bm_bits b. bit_at b' j \<longleftrightarrow> j = z \<or> bit_at b j)"
    using alloc by (auto simp: bm_bits_def)
next
  fix b assume "bitmap_ok b" "\<forall>k < bm_bits b. bit_at b k"
  then show "mix_bitmap_next_zero_bit b = None" by (auto intro: mix_bitmap_next_zero_bit_full)
qed

lemma mix_bitmap_init_ok:
  assumes "0 < n" "8 dvd n"
  shows "\<exists>b. mix_bitmap_init True True True (int n) = Some b \<and> bitmap_ok b \<and> bm_bits b = n \<and>
    (\<forall>k < bm_bits b. \<not> bit_at b k)"
proof -
  obtain m where m: "n = 8 * m" using assms(2) by blast
  let ?b = "\<lparr>bm_array = replicate n 0, bm_bytes = int m, bm_next_bit = 0\<rparr>"
  have "mix_bitmap_init True True True (int n) = Some ?b"
    using m by (simp add: mix_bitmap_init_def BITS_PER_BYTE_def sdiv_nonneg)
  moreover have "bm_bits ?b = n" using m by (simp add: bm_bits_def)
  moreover have "bitmap_ok ?b"
    using m assms by (simp add: bitmap_ok_def bm_bits_def bm_alloc_def)
  moreover have "\<not> bit_at ?b k" if "k < n" for k
    using that by (simp add: bit_at_def less_imp_diff_less nth_replicate [of "k div 8"] div_less_dividend)
  ultimately show ?thesis by auto
qed

section \<open>The counters\<close>

text \<open>Counter \<open>i\<close> of the array that starts at byte \<open>off\<close>.\<close>

definition counter :: "mix_bitmap \<Rightarrow> nat \<Rightarrow> nat \<Rightarrow> nat" where
  "counter b off i =
     (let n = unat (bm_array b ! (i div 2 + off)) in if odd i then n mod 16 else n div 16)"

lemma nibbles:
  shows low_nibble: "unat (n AND 0x0f :: u8) = unat n mod 16"
    and high_nibble: "unat (n AND 0xf0 :: u8) = 16 * (unat n div 16)"
    and shifted_nibble: "unat (drop_bit 4 (n AND 0xf0 :: u8)) = unat n div 16"
proof -
  show low: "unat (n AND 0x0f :: u8) = unat n mod 16" using unat_and_mask [of n 4] by simp
  have m: "(0xf0 :: u8) = push_bit 4 (mask 4)" by (simp add: mask_eq_exp_minus_1)
  have "drop_bit 4 (n AND 0xf0) = drop_bit 4 n"
    unfolding m by (rule bit_word_eqI) (auto simp: bit_simps dest: bit_imp_le_length)
  then show "unat (drop_bit 4 (n AND 0xf0 :: u8)) = unat n div 16"
    by (simp add: drop_bit_eq_div unat_div)
  have "(n AND 0x0f) + (n AND 0xf0) = (n AND 0x0f) OR (n AND 0xf0)"
    by (rule disjunctive_add_eq_or) (simp add: and.assoc and.left_commute [of 15])
  also have "\<dots> = n AND (0x0f OR 0xf0)" by (simp only: bit.conj_disj_distrib)
  also have "(0x0f OR 0xf0 :: u8) = - 1" by code_simp
  finally have "n AND 0xf0 = n - (n AND 0x0f)" by (simp add: algebra_simps)
  moreover have "unat (n AND 0x0f) \<le> unat n" using low by simp
  ultimately have "unat (n AND 0xf0) = unat n - unat n mod 16" by (simp add: unat_sub_if' low)
  then show "unat (n AND 0xf0 :: u8) = 16 * (unat n div 16)" by (simp only: minus_mod_eq_mult_div)
qed

lemma index_parity: "index mod 2 \<noteq> (0 :: u32) \<longleftrightarrow> odd (unat index)"
proof -
  have "unat (index mod 2) = unat index mod 2" by (simp add: unat_mod)
  then show ?thesis by (metis even_iff_mod_2_eq_zero unat_0_iff)
qed

lemma counting_access_eq:
  "counting_access index (int off) = int (unat index div 2 + off)"
  by (simp add: counting_access_def uint_div_distrib zdiv_int)

lemma counter_less: "counter b off i < 16"
proof -
  have "unat (bm_array b ! (i div 2 + off)) < 256"
    using unat_less_exp [of "bm_array b ! (i div 2 + off)"] by simp
  then have "unat (bm_array b ! (i div 2 + off)) div 16 < 16" by simp
  then show ?thesis by (simp add: counter_def Let_def)
qed

text \<open>The stored byte of each operation, by its two nibbles.\<close>

lemma parts_of_sum: "(m::nat) = 16 * h + l \<Longrightarrow> l < 16 \<Longrightarrow> m div 16 = h \<and> m mod 16 = l"
  by simp

lemma bump_low:
  assumes "unat n mod 16 < 15"
  defines "v \<equiv> (n AND 0xf0) + ((n AND 0x0f) + 0x01) :: u8"
  shows "unat v div 16 = unat n div 16 \<and> unat v mod 16 = unat n mod 16 + 1"
proof (rule parts_of_sum)
  have "unat n < 256" using unat_less_exp [of n] by simp
  then have "unat n + 1 < 256" using assms(1) by presburger
  then show "unat v = 16 * (unat n div 16) + (unat n mod 16 + 1)"
    by (simp add: v_def unat_word_ariths nibbles)
qed (use assms(1) in simp)

lemma bump_high:
  assumes "unat n div 16 < 15"
  defines "v \<equiv> (n AND 0x0f) + ((n AND 0xf0) + 0x10) :: u8"
  shows "unat v div 16 = unat n div 16 + 1 \<and> unat v mod 16 = unat n mod 16"
proof (rule parts_of_sum)
  show "unat v = 16 * (unat n div 16 + 1) + unat n mod 16"
    using assms(1) by (simp add: v_def unat_word_ariths nibbles)
qed simp

lemma drop_low:
  assumes "0 < unat n mod 16"
  defines "v \<equiv> (n AND 0xf0) + ((n AND 0x0f) - 0x01) :: u8"
  shows "unat v div 16 = unat n div 16 \<and> unat v mod 16 = unat n mod 16 - 1"
proof (rule parts_of_sum)
  have "unat ((n AND 0x0f) - 1 :: u8) = unat n mod 16 - 1"
    using assms(1) by (simp add: unat_sub word_le_nat_alt nibbles)
  moreover have "16 * (unat n div 16) + (unat n mod 16 - 1) < 256"
    using unat_less_exp [of n] mult_div_mod_eq [of 16 "unat n"] assms(1) by simp
  ultimately show "unat v = 16 * (unat n div 16) + (unat n mod 16 - 1)"
    by (simp add: v_def unat_word_ariths nibbles)
  show "unat n mod 16 - 1 < 16" by (simp add: less_imp_diff_less)
qed

lemma drop_high:
  assumes "0 < unat n div 16"
  defines "v \<equiv> (n AND 0x0f) + ((n AND 0xf0) - 0x10) :: u8"
  shows "unat v div 16 = unat n div 16 - 1 \<and> unat v mod 16 = unat n mod 16"
proof (rule parts_of_sum)
  have "unat ((n AND 0xf0) - 0x10 :: u8) = 16 * (unat n div 16) - 16"
    using assms(1) by (simp add: unat_sub word_le_nat_alt nibbles)
  then show "unat v = 16 * (unat n div 16 - 1) + unat n mod 16"
    using unat_less_exp [of n] by (simp add: v_def unat_word_ariths nibbles diff_mult_distrib2)
qed simp

lemma same_slot: "(j::nat) div 2 = i div 2 \<Longrightarrow> j \<noteq> i \<Longrightarrow> odd j \<longleftrightarrow> even i"
  by presburger

text \<open>Storing a byte that differs from the old one in one nibble changes one counter.\<close>

lemma counter_store:
  assumes i: "i div 2 + off < length (bm_array b)" and j: "j div 2 + off < length (bm_array b)"
    and v: "if odd i then unat v div 16 = unat n div 16 \<and> unat v mod 16 = c
            else unat v div 16 = c \<and> unat v mod 16 = unat n mod 16"
    and n: "n = bm_array b ! (i div 2 + off)"
  shows "counter (bm_store b (int (i div 2 + off)) v) off j = (if j = i then c else counter b off j)"
proof -
  have "nat (int (i div 2 + off)) = i div 2 + off" by (rule nat_int)
  then have st: "counter (bm_store b (int (i div 2 + off)) v) off j =
    (if j div 2 = i div 2 then if odd j then unat v mod 16 else unat v div 16 else counter b off j)"
    using i j by (simp add: counter_def bm_store_def nth_list_update Let_def)
  show ?thesis
  proof (cases "j div 2 = i div 2")
    case True
    then have "counter b off j = (if odd j then unat n mod 16 else unat n div 16)"
      by (simp add: counter_def n Let_def)
    then show ?thesis using True v same_slot [of j i] unfolding st by (cases "j = i") auto
  next
    case False
    then show ?thesis unfolding st by auto
  qed
qed

lemma bm_byte_counter:
  "i div 2 + off < length (bm_array b) \<Longrightarrow>
     bm_byte b (int (i div 2 + off)) = Some (bm_array b ! (i div 2 + off))"
  by (simp add: bm_byte_def nat_add_distrib)

lemma nibble_tests:
  "(n AND 0x0f :: u8) = 0x0f \<longleftrightarrow> unat n mod 16 = 15" "(n AND 0x0f :: u8) = 0 \<longleftrightarrow> unat n mod 16 = 0"
  "drop_bit 4 (n AND 0xf0 :: u8) = 0x0f \<longleftrightarrow> unat n div 16 = 15"
  "drop_bit 4 (n AND 0xf0 :: u8) = 0 \<longleftrightarrow> unat n div 16 = 0"
  unfolding word_unat_eq_iff nibbles by simp_all

theorem mix_counting_bitmap_increment_eq:
  assumes fit: "unat index div 2 + off < length (bm_array b)"
  obtains b' where "mix_counting_bitmap_increment b index (int off) =
      Some (if counter b off (unat index) = 15 then (b, -1) else (b', 0))"
    "length (bm_array b') = length (bm_array b)" "take off (bm_array b') = take off (bm_array b)"
    "\<And>j. counter b off (unat index) < 15 \<Longrightarrow> j div 2 + off < length (bm_array b) \<Longrightarrow>
       counter b' off j = (if j = unat index then counter b off j + 1 else counter b off j)"
proof -
  let ?i = "unat index"
  define n where "n = bm_array b ! (?i div 2 + off)"
  define v where "v = (if odd ?i then (n AND 0xf0) + ((n AND 0x0f) + 0x01)
            else (n AND 0x0f) + ((n AND 0xf0) + 0x10))"
  let ?b = "bm_store b (int (?i div 2 + off)) v"
  have c: "counter b off ?i = (if odd ?i then unat n mod 16 else unat n div 16)"
    by (simp add: counter_def n_def Let_def)
  have run: "mix_counting_bitmap_increment b index (int off) =
      Some (if counter b off ?i = 15 then (b, -1) else (?b, 0))"
    unfolding mix_counting_bitmap_increment_def counting_access_eq Let_def bm_byte_counter [OF fit]
      index_parity c v_def n_def [symmetric]
    by (cases "odd ?i") (simp_all only: bind.bind_lunit case_prod_conv if_True if_False nibble_tests
        simp_thms if_distrib [of Some, symmetric])
  show thesis
  proof (rule that [OF run])
    show "length (bm_array ?b) = length (bm_array b)" by (simp add: bm_store_def)
    show "take off (bm_array ?b) = take off (bm_array b)"
      by (simp add: bm_store_def nat_add_distrib)
    fix j assume small: "counter b off ?i < 15" and j: "j div 2 + off < length (bm_array b)"
    have "if odd ?i then unat v div 16 = unat n div 16 \<and> unat v mod 16 = counter b off ?i + 1
            else unat v div 16 = counter b off ?i + 1 \<and> unat v mod 16 = unat n mod 16"
      using small bump_low [of n] bump_high [of n] unfolding v_def c by (cases "odd ?i") auto
    from counter_store [OF fit j this n_def]
    show "counter ?b off j = (if j = ?i then counter b off j + 1 else counter b off j)" by auto
  qed
qed

theorem mix_counting_bitmap_decrement_eq:
  assumes fit: "unat index div 2 + off < length (bm_array b)"
  obtains b' where "mix_counting_bitmap_decrement b index (int off) =
      Some (if counter b off (unat index) = 0 then (b, -1) else (b', 0))"
    "length (bm_array b') = length (bm_array b)" "take off (bm_array b') = take off (bm_array b)"
    "\<And>j. 0 < counter b off (unat index) \<Longrightarrow> j div 2 + off < length (bm_array b) \<Longrightarrow>
       counter b' off j = (if j = unat index then counter b off j - 1 else counter b off j)"
proof -
  let ?i = "unat index"
  define n where "n = bm_array b ! (?i div 2 + off)"
  define v where "v = (if odd ?i then (n AND 0xf0) + ((n AND 0x0f) - 0x01)
            else (n AND 0x0f) + ((n AND 0xf0) - 0x10))"
  let ?b = "bm_store b (int (?i div 2 + off)) v"
  have c: "counter b off ?i = (if odd ?i then unat n mod 16 else unat n div 16)"
    by (simp add: counter_def n_def Let_def)
  have run: "mix_counting_bitmap_decrement b index (int off) =
      Some (if counter b off ?i = 0 then (b, -1) else (?b, 0))"
    unfolding mix_counting_bitmap_decrement_def counting_access_eq Let_def bm_byte_counter [OF fit]
      index_parity c v_def n_def [symmetric]
    by (cases "odd ?i") (simp_all only: bind.bind_lunit case_prod_conv if_True if_False nibble_tests
        simp_thms if_distrib [of Some, symmetric])
  show thesis
  proof (rule that [OF run])
    show "length (bm_array ?b) = length (bm_array b)" by (simp add: bm_store_def)
    show "take off (bm_array ?b) = take off (bm_array b)"
      by (simp add: bm_store_def nat_add_distrib)
    fix j assume pos: "0 < counter b off ?i" and j: "j div 2 + off < length (bm_array b)"
    have "if odd ?i then unat v div 16 = unat n div 16 \<and> unat v mod 16 = counter b off ?i - 1
            else unat v div 16 = counter b off ?i - 1 \<and> unat v mod 16 = unat n mod 16"
      using pos drop_low [of n] drop_high [of n] unfolding v_def c by (cases "odd ?i") auto
    from counter_store [OF fit j this n_def]
    show "counter ?b off j = (if j = ?i then counter b off j - 1 else counter b off j)" by auto
  qed
qed

text \<open>The check answers whether the counter is positive, although the byte is a signed \<open>char\<close>.\<close>

lemma signed_mask:
  assumes "take_bit 8 m = (m :: int)"
  shows "sint (n :: u8) AND m = uint n AND m"
proof -
  have seven: "7 \<le> k \<Longrightarrow> k < 8 \<Longrightarrow> k = (7::nat)" for k by simp
  have "sint n AND take_bit 8 m = uint n AND take_bit 8 m"
    by (rule bit_eqI) (auto simp: bit_simps sint_uint bit_signed_take_bit_iff min_def dest: seven)
  then show ?thesis by (simp only: assms)
qed

lemma signed_nibbles:
  "sint n AND 0x0f = 0 \<longleftrightarrow> unat (n :: u8) mod 16 = 0"
  "sint n AND 0xf0 = 0 \<longleftrightarrow> unat (n :: u8) div 16 = 0"
proof -
  have z: "uint x = 0 \<longleftrightarrow> unat x = 0" for x :: u8 by (simp add: unsigned_eq_0_iff)
  have "sint n AND 0x0f = uint (n AND 0x0f)" "sint n AND 0xf0 = uint (n AND 0xf0)"
    by (simp_all add: signed_mask unsigned_and_eq)
  then show "sint n AND 0x0f = 0 \<longleftrightarrow> unat n mod 16 = 0" "sint n AND 0xf0 = 0 \<longleftrightarrow> unat n div 16 = 0"
    by (simp_all only: z nibbles mult_eq_0_iff) simp_all
qed
theorem mix_counting_bitmap_check_eq:
  assumes fit: "unat index div 2 + off < length (bm_array b)"
  obtains r where "mix_counting_bitmap_check b index (int off) = Some r"
    "r = 0 \<longleftrightarrow> counter b off (unat index) = 0"
proof -
  let ?i = "unat index"
  define n where "n = bm_array b ! (?i div 2 + off)"
  let ?r = "if odd ?i then sint n AND 0x0f else sint n AND 0xf0"
  have run: "mix_counting_bitmap_check b index (int off) = Some ?r"
    unfolding mix_counting_bitmap_check_def counting_access_eq Let_def bm_byte_counter [OF fit]
      index_parity n_def [symmetric] by simp
  have "counter b off ?i = (if odd ?i then unat n mod 16 else unat n div 16)"
    by (simp add: counter_def n_def Let_def)
  then have "?r = 0 \<longleftrightarrow> counter b off ?i = 0"
    using signed_nibbles [of n] by metis
  with run show thesis by (rule that)
qed

section \<open>Properties\<close>

text \<open>A bitmap of sixteen blocks with the first ten in use and the hint on a block in use.\<close>

definition sample_bitmap :: mix_bitmap where
  "sample_bitmap = \<lparr>bm_array = [0xff, 0x03], bm_bytes = 2, bm_next_bit = 7\<rparr>"

lemma sample_bitmap_facts:
  "bitmap_ok sample_bitmap" "bm_bits sample_bitmap = 16" "bm_next_bit sample_bitmap = int 7"
  "bit_at sample_bitmap 7" "\<not> bit_at sample_bitmap 12"
  by (simp_all add: sample_bitmap_def bitmap_ok_def bm_bits_def bm_alloc_def bit_at_def)

text \<open>C28. A new bitmap of \<open>n\<close> blocks (a multiple of eight): \<open>n\<close> calls of
  \<open>mix_bitmap_next_zero_bit\<close> hand out every block exactly once, and the next call does not
  return.\<close>

theorem bitmap_hands_out_every_block:
  assumes "0 < n" "8 dvd n"
  shows "\<exists>b b' zs. mix_bitmap_init True True True (int n) = Some b \<and>
    take_many mix_bitmap_next_zero_bit n b = Some (b', map int zs) \<and> distinct zs \<and> set zs = {..<n} \<and>
    mix_bitmap_next_zero_bit b' = None"
proof -
  obtain b where b: "mix_bitmap_init True True True (int n) = Some b" "bitmap_ok b" "bm_bits b = n"
      "\<forall>k < bm_bits b. \<not> bit_at b k"
    using mix_bitmap_init_ok [OF assms] by blast
  have empty: "bits.used_set b = {}" using b(4) by (auto simp: bits.used_set_def)
  then obtain b' zs where zs: "take_many mix_bitmap_next_zero_bit n b = Some (b', map int zs)"
      "length zs = n" "distinct zs" "set zs \<subseteq> {..<n}" "bitmap_ok b'" "bm_bits b' = n"
      "bits.used_set b' = set zs"
    using bits.take_many_distinct [OF b(2), of n] b(3) by auto
  have "card (set zs) = n" using zs(2,3) distinct_card by blast
  then have all: "set zs = {..<n}" using zs(4) by (metis card_lessThan card_subset_eq finite_lessThan)
  then have "\<forall>k < bm_bits b'. bit_at b' k" using zs(6,7) by (auto simp: bits.used_set_def)
  then have "mix_bitmap_next_zero_bit b' = None" using bits.pick_full [OF zs(5)] by blast
  then show ?thesis using b(1) zs(1,3) all by blast
qed

theorem bitmap_hands_out_every_block_witness:
  "\<exists>b b' zs. mix_bitmap_init True True True 512 = Some b \<and>
    take_many mix_bitmap_next_zero_bit 512 b = Some (b', map int zs) \<and> distinct zs \<and> set zs = {..<512} \<and>
    mix_bitmap_next_zero_bit b' = None"
  using bitmap_hands_out_every_block [of 512] by simp

text \<open>C35. \<open>mix_bitmap_next_zero_bit\<close> marks and returns the first free block at or after the hint,
  in cyclic order, and changes no other bit.\<close>

theorem next_zero_bit_first_free:
  assumes "bitmap_ok b" "k < bm_bits b" "\<not> bit_at b k" "bm_next_bit b = int s" "s < bm_bits b"
  shows "\<exists>b' d. mix_bitmap_next_zero_bit b = Some (b', int ((s + d) mod bm_bits b)) \<and> bitmap_ok b' \<and>
    \<not> bit_at b ((s + d) mod bm_bits b) \<and> (\<forall>i < d. bit_at b ((s + i) mod bm_bits b)) \<and>
    (\<forall>j < bm_bits b. bit_at b' j \<longleftrightarrow> j = (s + d) mod bm_bits b \<or> bit_at b j)"
proof -
  have "bm_bits b \<le> bm_alloc b" using assms(1) by (simp add: bitmap_ok_def)
  moreover obtain b' z d where "mix_bitmap_next_zero_bit b = Some (b', int z)" "\<not> bit_at b z"
      "z = (s + d) mod bm_bits b" "\<And>i. i < d \<Longrightarrow> bit_at b ((s + i) mod bm_bits b)" "bitmap_ok b'"
      "\<And>j. j < bm_alloc b \<Longrightarrow> bit_at b' j \<longleftrightarrow> j = z \<or> bit_at b j"
    by (rule mix_bitmap_next_zero_bit_finds [OF assms]) blast
  ultimately show ?thesis by (intro exI [of _ b'] exI [of _ d]) auto
qed

theorem next_zero_bit_first_free_witness:
  "\<exists>b' d. mix_bitmap_next_zero_bit sample_bitmap = Some (b', int ((7 + d) mod 16)) \<and> bitmap_ok b' \<and>
    \<not> bit_at sample_bitmap ((7 + d) mod 16) \<and> (\<forall>i < d. bit_at sample_bitmap ((7 + i) mod 16)) \<and>
    (\<forall>j < 16. bit_at b' j \<longleftrightarrow> j = (7 + d) mod 16 \<or> bit_at sample_bitmap j)"
  using next_zero_bit_first_free [of sample_bitmap 12 7] sample_bitmap_facts by simp

text \<open>After a search the hint is not behind the block that was handed out: the code divides
  where it should take the remainder, so that the hint is zero, or one if the last block was
  handed out.\<close>

theorem hint_after_search:
  assumes "bitmap_ok b" "k < bm_bits b" "\<not> bit_at b k" "bm_next_bit b = int s" "s < bm_bits b" "bit_at b s"
  shows "\<exists>b' z. mix_bitmap_next_zero_bit b = Some (b', int z) \<and>
    bm_next_bit b' = (if Suc z = bm_bits b then 1 else 0)"
proof -
  obtain b' z where z: "mix_bitmap_next_zero_bit b = Some (b', int z)" "z < bm_bits b"
      "bm_next_bit b' = next_hint b z" "\<not> bit_at b z"
    using mix_bitmap_next_zero_bit_finds [OF assms(1-5)] by metis
  have "Suc z div bm_bits b = (if Suc z = bm_bits b then 1 else 0)" using z(2) by auto
  then show ?thesis using z assms(4,6) by (auto simp: next_hint_def)
qed

theorem hint_after_search_witness:
  "\<exists>b' z. mix_bitmap_next_zero_bit sample_bitmap = Some (b', int z) \<and>
    bm_next_bit b' = (if Suc z = 16 then 1 else 0)"
  using hint_after_search [of sample_bitmap 12 7] sample_bitmap_facts by simp

text \<open>Marking a free block, testing it and releasing it again: the results report the former
  state each time, and the set of used blocks is back to what it was.\<close>

theorem set_test_clear:
  assumes "bitmap_ok b" "k < bm_bits b" "\<not> bit_at b k"
  shows "\<exists>b1 b2. mix_bitmap_set_bit b (int k) = Some (b1, 0) \<and> mix_bitmap_test_bit b1 (int k) = Some 1 \<and>
    mix_bitmap_clear_bit b1 (int k) = Some (b2, 1) \<and> mix_bitmap_test_bit b2 (int k) = Some 0 \<and>
    (\<forall>j < bm_bits b. bit_at b2 j \<longleftrightarrow> bit_at b j)"
proof -
  have na: "bm_bits b \<le> bm_alloc b" and ka: "k < bm_alloc b" using assms by (auto simp: bitmap_ok_def)
  obtain b1 where b1: "mix_bitmap_set_bit b (int k) = Some (b1, 0)"
      "\<And>j. j < bm_alloc b \<Longrightarrow> bit_at b1 j \<longleftrightarrow> j = k \<or> bit_at b j" "bm_alloc b1 = bm_alloc b"
    using mix_bitmap_set_bit_eq [OF ka] assms(3) by metis
  have k1: "k < bm_alloc b1" "bit_at b1 k" using b1 ka by simp_all
  obtain b2 where b2: "mix_bitmap_clear_bit b1 (int k) = Some (b2, 1)"
      "\<And>j. j < bm_alloc b1 \<Longrightarrow> bit_at b2 j \<longleftrightarrow> j \<noteq> k \<and> bit_at b1 j" "bm_alloc b2 = bm_alloc b1"
    using mix_bitmap_clear_bit_eq [OF k1(1)] k1(2) by metis
  have "mix_bitmap_test_bit b1 (int k) = Some 1" "mix_bitmap_test_bit b2 (int k) = Some 0"
    using mix_bitmap_test_bit_eq [OF k1(1)] mix_bitmap_test_bit_eq [of k b2] k1 b2 by simp_all
  moreover have "bit_at b2 j \<longleftrightarrow> bit_at b j" if "j < bm_bits b" for j
    using b1 b2 na that assms(3) by (metis order_less_le_trans)
  ultimately show ?thesis using b1(1) b2(1) by blast
qed

theorem set_test_clear_witness:
  "\<exists>b1 b2. mix_bitmap_set_bit sample_bitmap (int 12) = Some (b1, 0) \<and> mix_bitmap_test_bit b1 (int 12) = Some 1 \<and>
    mix_bitmap_clear_bit b1 (int 12) = Some (b2, 1) \<and> mix_bitmap_test_bit b2 (int 12) = Some 0 \<and>
    (\<forall>j < 16. bit_at b2 j \<longleftrightarrow> bit_at sample_bitmap j)"
  using set_test_clear [of sample_bitmap 12] sample_bitmap_facts by simp

text \<open>A 4-bit counter counts up to 15 and refuses to overflow; an increment changes no other
  counter and nothing before the counters.\<close>

theorem counter_increment:
  assumes "unat index div 2 + off < length (bm_array b)"
  shows "\<exists>b'. mix_counting_bitmap_increment b index (int off) =
      Some (b', if counter b off (unat index) = 15 then -1 else 0) \<and>
    take off (bm_array b') = take off (bm_array b) \<and>
    (\<forall>j. j div 2 + off < length (bm_array b) \<longrightarrow>
       counter b' off j = (if j = unat index then min 15 (counter b off j + 1) else counter b off j))"
proof -
  obtain b' where b': "mix_counting_bitmap_increment b index (int off) =
        Some (if counter b off (unat index) = 15 then (b, -1) else (b', 0))"
      "take off (bm_array b') = take off (bm_array b)"
      "\<And>j. counter b off (unat index) < 15 \<Longrightarrow> j div 2 + off < length (bm_array b) \<Longrightarrow>
         counter b' off j = (if j = unat index then counter b off j + 1 else counter b off j)"
    using mix_counting_bitmap_increment_eq [OF assms] by metis
  show ?thesis
  proof (cases "counter b off (unat index) = 15")
    case True
    then show ?thesis using b'(1) by simp
  next
    case False
    then have "counter b off (unat index) < 15" using counter_less [of b off "unat index"] by simp
    then show ?thesis using b' by simp
  qed
qed

theorem counter_increment_witness:
  "\<exists>b'. mix_counting_bitmap_increment sample_bitmap 2 (int 0) =
      Some (b', if counter sample_bitmap 0 2 = 15 then -1 else 0) \<and>
    take 0 (bm_array b') = take 0 (bm_array sample_bitmap) \<and>
    (\<forall>j. j div 2 + 0 < length (bm_array sample_bitmap) \<longrightarrow>
       counter b' 0 j = (if j = 2 then min 15 (counter sample_bitmap 0 j + 1) else counter sample_bitmap 0 j))"
proof -
  have fits: "unat (2 :: u32) div 2 + 0 < length (bm_array sample_bitmap)" by (simp add: sample_bitmap_def)
  have two: "unat (2 :: u32) = 2" by simp
  show ?thesis using counter_increment [OF fits] unfolding two .
qed

end
