(* ===== verification/Index_Spec.thy ===== *)
theory Index_Spec
  imports Prelude
begin

text \<open>
  The contract of the hash index that the metadata layer relies on. An index keeps, for every key,
  the stack of the values that were put for it: a put pushes, a get reads the top, a delete pops.
  Every put takes one node of a pool of fixed size; a put with an empty pool has no result.
\<close>

datatype ('k, 'v) index_op = Put 'k 'v | Delete 'k

text \<open>The abstract effect of an operation on the stacks.\<close>

fun stack_step :: "('k, 'v) index_op \<Rightarrow> ('k \<Rightarrow> 'v list) \<Rightarrow> 'k \<Rightarrow> 'v list" where
  "stack_step (Put k v) m = m(k := v # m k)"
| "stack_step (Delete k) m = m(k := tl (m k))"

fun puts :: "('k, 'v) index_op list \<Rightarrow> nat" where
  "puts [] = 0"
| "puts (Put k v # ops) = Suc (puts ops)"
| "puts (Delete k # ops) = puts ops"

text \<open>Running a sequence of operations of an implementation.\<close>

fun index_step ::
    "('h \<Rightarrow> 'k \<Rightarrow> 'v \<Rightarrow> 'h option) \<Rightarrow> ('h \<Rightarrow> 'k \<Rightarrow> 'h option) \<Rightarrow> ('k, 'v) index_op \<Rightarrow> 'h \<Rightarrow> 'h option"
where
  "index_step put del (Put k v) h = put h k v"
| "index_step put del (Delete k) h = del h k"

fun index_run ::
    "('h \<Rightarrow> 'k \<Rightarrow> 'v \<Rightarrow> 'h option) \<Rightarrow> ('h \<Rightarrow> 'k \<Rightarrow> 'h option) \<Rightarrow> ('k, 'v) index_op list \<Rightarrow> 'h \<Rightarrow> 'h option"
where
  "index_run put del [] h = Some h"
| "index_run put del (op # ops) h = index_step put del op h \<bind> index_run put del ops"

locale stack_index =
  fixes put :: "'h \<Rightarrow> 'k \<Rightarrow> 'v \<Rightarrow> 'h option"
    and del :: "'h \<Rightarrow> 'k \<Rightarrow> 'h option"
    and get :: "'h \<Rightarrow> 'k \<Rightarrow> int option"
    and stack :: "'h \<Rightarrow> 'k \<Rightarrow> 'v list"
    and room :: "'h \<Rightarrow> nat"
    and encode :: "'v \<Rightarrow> int"
    and invar :: "'h \<Rightarrow> bool"
  assumes put_spec: "invar h \<Longrightarrow> 0 < room h \<Longrightarrow>
      \<exists>h'. put h k v = Some h' \<and> invar h' \<and> stack h' = (stack h)(k := v # stack h k) \<and>
        Suc (room h') = room h"
    and put_full: "invar h \<Longrightarrow> room h = 0 \<Longrightarrow> put h k v = None"
    and del_spec: "invar h \<Longrightarrow>
      \<exists>h'. del h k = Some h' \<and> invar h' \<and> stack h' = (stack h)(k := tl (stack h k)) \<and>
        room h \<le> room h'"
    and get_spec: "invar h \<Longrightarrow>
      get h k = Some (case stack h k of [] \<Rightarrow> -1 | v # _ \<Rightarrow> encode v)"
begin

lemma step_refines:
  assumes "invar h" "puts [op] \<le> room h"
  shows "\<exists>h'. index_step put del op h = Some h' \<and> invar h' \<and>
    stack h' = stack_step op (stack h) \<and> room h \<le> room h' + puts [op]"
proof (cases op)
  case (Put k v)
  then show ?thesis using put_spec [OF assms(1), of k v] assms(2) by fastforce
next
  case (Delete k)
  then show ?thesis using del_spec [OF assms(1), of k] by simp
qed

lemma run_refines:
  assumes "invar h" "puts ops \<le> room h"
  shows "\<exists>h'. index_run put del ops h = Some h' \<and> invar h' \<and> stack h' = fold stack_step ops (stack h)"
  using assms
proof (induction ops arbitrary: h)
  case Nil
  then show ?case by simp
next
  case (Cons op ops)
  have split: "puts (op # ops) = puts [op] + puts ops" by (cases op) simp_all
  with Cons.prems have "puts [op] \<le> room h" by simp
  from step_refines [OF Cons.prems(1) this] obtain h1 where h1:
    "index_step put del op h = Some h1" "invar h1" "stack h1 = stack_step op (stack h)"
    "room h \<le> room h1 + puts [op]" by blast
  with split Cons.prems have "puts ops \<le> room h1" by simp
  from Cons.IH [OF h1(2) this] h1 show ?case by auto
qed

lemma get_after_put:
  assumes "invar h" "0 < room h"
  shows "\<exists>h'. put h k v = Some h' \<and> get h' k = Some (encode v) \<and>
    (\<forall>k'. k' \<noteq> k \<longrightarrow> get h' k' = get h k')"
proof -
  obtain h' where h': "put h k v = Some h'" "invar h'" "stack h' = (stack h)(k := v # stack h k)"
    using put_spec [OF assms] by blast
  then show ?thesis using get_spec [OF h'(2)] get_spec [OF assms(1)] by auto
qed

lemma del_undoes_put:
  assumes "invar h" "0 < room h"
  shows "\<exists>h1 h2. put h k v = Some h1 \<and> del h1 k = Some h2 \<and> (\<forall>k'. get h2 k' = get h k')"
proof -
  obtain h1 where h1: "put h k v = Some h1" "invar h1" "stack h1 = (stack h)(k := v # stack h k)"
    using put_spec [OF assms] by blast
  then obtain h2 where h2: "del h1 k = Some h2" "invar h2" "stack h2 = (stack h1)(k := tl (stack h1 k))"
    using del_spec [OF h1(2)] by blast
  then have "stack h2 = stack h" using h1 by (auto simp: fun_eq_iff)
  then show ?thesis using h1 h2 get_spec [OF h2(2)] get_spec [OF assms(1)] by auto
qed

end

end
