(* ===== verification/Mix_Hash.thy ===== *)
theory Mix_Hash
  imports Index_Spec
begin

text \<open>
  The hash index of \<open>src/src/mix_hash.c\<close>, which maps a logical block address to the buffer block
  that holds its newest data. This theory starts with the hash function (a table driven CRC-32
  of the decimal key followed by a 64-bit mix) and then models the table itself.
\<close>

section \<open>The hash function\<close>

definition crc32_tab :: "u64 list" where
  "crc32_tab =
   [0x00000000, 0x77073096, 0xee0e612c, 0x990951ba, 0x076dc419, 0x706af48f,
    0xe963a535, 0x9e6495a3, 0x0edb8832, 0x79dcb8a4, 0xe0d5e91e, 0x97d2d988,
    0x09b64c2b, 0x7eb17cbd, 0xe7b82d07, 0x90bf1d91, 0x1db71064, 0x6ab020f2,
    0xf3b97148, 0x84be41de, 0x1adad47d, 0x6ddde4eb, 0xf4d4b551, 0x83d385c7,
    0x136c9856, 0x646ba8c0, 0xfd62f97a, 0x8a65c9ec, 0x14015c4f, 0x63066cd9,
    0xfa0f3d63, 0x8d080df5, 0x3b6e20c8, 0x4c69105e, 0xd56041e4, 0xa2677172,
    0x3c03e4d1, 0x4b04d447, 0xd20d85fd, 0xa50ab56b, 0x35b5a8fa, 0x42b2986c,
    0xdbbbc9d6, 0xacbcf940, 0x32d86ce3, 0x45df5c75, 0xdcd60dcf, 0xabd13d59,
    0x26d930ac, 0x51de003a, 0xc8d75180, 0xbfd06116, 0x21b4f4b5, 0x56b3c423,
    0xcfba9599, 0xb8bda50f, 0x2802b89e, 0x5f058808, 0xc60cd9b2, 0xb10be924,
    0x2f6f7c87, 0x58684c11, 0xc1611dab, 0xb6662d3d, 0x76dc4190, 0x01db7106,
    0x98d220bc, 0xefd5102a, 0x71b18589, 0x06b6b51f, 0x9fbfe4a5, 0xe8b8d433,
    0x7807c9a2, 0x0f00f934, 0x9609a88e, 0xe10e9818, 0x7f6a0dbb, 0x086d3d2d,
    0x91646c97, 0xe6635c01, 0x6b6b51f4, 0x1c6c6162, 0x856530d8, 0xf262004e,
    0x6c0695ed, 0x1b01a57b, 0x8208f4c1, 0xf50fc457, 0x65b0d9c6, 0x12b7e950,
    0x8bbeb8ea, 0xfcb9887c, 0x62dd1ddf, 0x15da2d49, 0x8cd37cf3, 0xfbd44c65,
    0x4db26158, 0x3ab551ce, 0xa3bc0074, 0xd4bb30e2, 0x4adfa541, 0x3dd895d7,
    0xa4d1c46d, 0xd3d6f4fb, 0x4369e96a, 0x346ed9fc, 0xad678846, 0xda60b8d0,
    0x44042d73, 0x33031de5, 0xaa0a4c5f, 0xdd0d7cc9, 0x5005713c, 0x270241aa,
    0xbe0b1010, 0xc90c2086, 0x5768b525, 0x206f85b3, 0xb966d409, 0xce61e49f,
    0x5edef90e, 0x29d9c998, 0xb0d09822, 0xc7d7a8b4, 0x59b33d17, 0x2eb40d81,
    0xb7bd5c3b, 0xc0ba6cad, 0xedb88320, 0x9abfb3b6, 0x03b6e20c, 0x74b1d29a,
    0xead54739, 0x9dd277af, 0x04db2615, 0x73dc1683, 0xe3630b12, 0x94643b84,
    0x0d6d6a3e, 0x7a6a5aa8, 0xe40ecf0b, 0x9309ff9d, 0x0a00ae27, 0x7d079eb1,
    0xf00f9344, 0x8708a3d2, 0x1e01f268, 0x6906c2fe, 0xf762575d, 0x806567cb,
    0x196c3671, 0x6e6b06e7, 0xfed41b76, 0x89d32be0, 0x10da7a5a, 0x67dd4acc,
    0xf9b9df6f, 0x8ebeeff9, 0x17b7be43, 0x60b08ed5, 0xd6d6a3e8, 0xa1d1937e,
    0x38d8c2c4, 0x4fdff252, 0xd1bb67f1, 0xa6bc5767, 0x3fb506dd, 0x48b2364b,
    0xd80d2bda, 0xaf0a1b4c, 0x36034af6, 0x41047a60, 0xdf60efc3, 0xa867df55,
    0x316e8eef, 0x4669be79, 0xcb61b38c, 0xbc66831a, 0x256fd2a0, 0x5268e236,
    0xcc0c7795, 0xbb0b4703, 0x220216b9, 0x5505262f, 0xc5ba3bbe, 0xb2bd0b28,
    0x2bb45a92, 0x5cb36a04, 0xc2d7ffa7, 0xb5d0cf31, 0x2cd99e8b, 0x5bdeae1d,
    0x9b64c2b0, 0xec63f226, 0x756aa39c, 0x026d930a, 0x9c0906a9, 0xeb0e363f,
    0x72076785, 0x05005713, 0x95bf4a82, 0xe2b87a14, 0x7bb12bae, 0x0cb61b38,
    0x92d28e9b, 0xe5d5be0d, 0x7cdcefb7, 0x0bdbdf21, 0x86d3d2d4, 0xf1d4e242,
    0x68ddb3f8, 0x1fda836e, 0x81be16cd, 0xf6b9265b, 0x6fb077e1, 0x18b74777,
    0x88085ae6, 0xff0f6a70, 0x66063bca, 0x11010b5c, 0x8f659eff, 0xf862ae69,
    0x616bffd3, 0x166ccf45, 0xa00ae278, 0xd70dd2ee, 0x4e048354, 0x3903b3c2,
    0xa7672661, 0xd06016f7, 0x4969474d, 0x3e6e77db, 0xaed16a4a, 0xd9d65adc,
    0x40df0b66, 0x37d83bf0, 0xa9bcae53, 0xdebb9ec5, 0x47b2cf7f, 0x30b5ffe9,
    0xbdbdf21c, 0xcabac28a, 0x53b39330, 0x24b4a3a6, 0xbad03605, 0xcdd70693,
    0x54de5729, 0x23d967bf, 0xb3667a2e, 0xc4614ab8, 0x5d681b02, 0x2a6f2b94,
    0xb40bbe37, 0xc30c8ea1, 0x5a05df1b, 0x2d02ef8d]"

text \<open>One round of the loop of \<open>crc32\<close>; the index is masked to eight bits. The table has 256
  entries, so that the access is always inside it.\<close>

definition crc32_round :: "u64 \<Rightarrow> u8 \<Rightarrow> u64" where
  "crc32_round crc32val c =
     (crc32_tab ! unat ((crc32val XOR ucast c) AND 0xff)) XOR drop_bit 8 crc32val"

definition crc32 :: "u8 list \<Rightarrow> u64" where
  "crc32 s = foldl crc32_round 0 s"

text \<open>\<open>sprintf(keystring, "%d", int_key)\<close>: the characters before the terminating zero. The
  argument is read as a (signed) \<open>int\<close>.\<close>

fun dec_digits :: "nat \<Rightarrow> u8 list" where
  "dec_digits n = (if n < 10 then [48 + of_nat n] else dec_digits (n div 10) @ [48 + of_nat (n mod 10)])"

declare dec_digits.simps [simp del]

definition print_int :: "int \<Rightarrow> u8 list" where
  "print_int i = (if i < 0 then 45 # dec_digits (nat (- i)) else dec_digits (nat i))"

definition key_mix :: "u64 \<Rightarrow> u64" where
  "key_mix key =
     (let key = key + push_bit 12 key;
          key = key XOR drop_bit 22 key;
          key = key + push_bit 4 key;
          key = key XOR drop_bit 9 key;
          key = key + push_bit 10 key;
          key = key XOR drop_bit 2 key;
          key = key + push_bit 7 key;
          key = key XOR drop_bit 12 key
      in drop_bit 3 key * 2654435761)"

text \<open>\<open>mix_hash_hash\<close>: the remainder is computed in \<open>unsigned long\<close> and returned as \<open>int\<close>; it
  traps when \<open>hash_size\<close> is zero.\<close>

definition mix_hash_hash :: "u32 \<Rightarrow> int \<Rightarrow> int option" where
  "mix_hash_hash int_key hash_size =
     (let key = key_mix (crc32 (print_int (sint int_key)));
          m = word_of_int hash_size :: u64
      in if m = 0 then None else Some (sint (ucast (key mod m) :: u32)))"

section \<open>The table driven checksum is the CRC-32 polynomial division\<close>

text \<open>The reference: divide bit by bit by the reflected polynomial \<open>0xEDB88320\<close>.\<close>

definition crc_bit :: "u64 \<Rightarrow> u64" where
  "crc_bit w = (if bit w 0 then drop_bit 1 w XOR 0xEDB88320 else drop_bit 1 w)"

definition crc32_bitwise :: "u8 list \<Rightarrow> u64" where
  "crc32_bitwise s = foldl (\<lambda>w c. (crc_bit ^^ 8) (w XOR ucast c)) 0 s"

lemma crc_bit_xor: "crc_bit (a XOR b) = crc_bit a XOR crc_bit b"
  by (rule bit_word_eqI) (auto simp: crc_bit_def bit_xor_iff bit_drop_bit_eq)

lemma crc_bits_xor: "(crc_bit ^^ n) (a XOR b) = (crc_bit ^^ n) a XOR (crc_bit ^^ n) b"
  by (induction n) (simp_all add: crc_bit_xor)

lemma crc_bits_shift:
  "(\<And>i. i < n \<Longrightarrow> \<not> bit w i) \<Longrightarrow> (crc_bit ^^ n) w = drop_bit n w"
proof (induction n)
  case (Suc n)
  then have "(crc_bit ^^ n) w = drop_bit n w" "\<not> bit w n" by simp_all
  then have "(crc_bit ^^ Suc n) w = drop_bit 1 (drop_bit n w)"
    by (simp only: funpow.simps o_apply) (simp add: crc_bit_def bit_drop_bit_eq)
  then show ?case by simp
qed simp

text \<open>The table is generated by its entries at the powers of two, and these are the powers of
  \<open>x\<close> modulo the polynomial.\<close>

fun xor_span :: "u64 list \<Rightarrow> u64 list" where
  "xor_span [] = [0]"
| "xor_span (b # bs) = (let xs = xor_span bs in xs @ map (\<lambda>x. x XOR b) xs)"

lemma crc32_tab_span:
  "crc32_tab = xor_span (map (\<lambda>k. crc32_tab ! (2 ^ k)) (rev [0..<8]))"
  by (simp add: crc32_tab_def upt_rec Let_def)

lemma length_xor_span: "length (xor_span bs) = 2 ^ length bs"
  by (induction bs) (simp_all add: Let_def)

lemma length_crc32_tab: "length crc32_tab = 256"
  by (simp add: crc32_tab_def)

lemma crc32_tab_chain: "j < 7 \<Longrightarrow> crc_bit (crc32_tab ! (2 ^ Suc j)) = crc32_tab ! (2 ^ j)"
proof -
  have "list_all (\<lambda>j. crc_bit (crc32_tab ! (2 ^ Suc j)) = crc32_tab ! (2 ^ j)) [0..<7]"
    by (simp add: upt_rec crc_bit_def crc32_tab_def)
  then show "j < 7 \<Longrightarrow> ?thesis" by (simp add: list_all_iff)
qed

lemma crc32_tab_power: "n \<le> 7 \<Longrightarrow> (crc_bit ^^ Suc n) 1 = crc32_tab ! (2 ^ (7 - n))"
proof (induction n)
  case 0
  show ?case by (simp add: crc_bit_def crc32_tab_def)
next
  case (Suc n)
  have "7 - n = Suc (6 - n)" using Suc.prems by simp
  with Suc have "(crc_bit ^^ Suc (Suc n)) 1 = crc_bit (crc32_tab ! (2 ^ Suc (6 - n)))"
    by (simp only: funpow.simps(2) [of "Suc n"] o_apply)
  also have "\<dots> = crc32_tab ! (2 ^ (7 - Suc n))"
    using crc32_tab_chain [of "6 - n"] by simp
  finally show ?case .
qed

lemma crc32_tab_basis: "k < 8 \<Longrightarrow> (crc_bit ^^ 8) (2 ^ k) = crc32_tab ! (2 ^ k)"
proof -
  assume k: "k < 8"
  have "(crc_bit ^^ k) (2 ^ k) = drop_bit k (2 ^ k)"
    by (rule crc_bits_shift) (simp add: bit_simps)
  also have "\<dots> = 1" using k by (simp add: drop_bit_eq_div word_unat_eq_iff unat_div unat_pow2)
  finally have "(crc_bit ^^ (8 - k + k)) (2 ^ k) = (crc_bit ^^ (8 - k)) 1"
    by (simp only: funpow_add o_apply)
  moreover have "8 - k = Suc (7 - k)" using k by simp
  ultimately show ?thesis using k crc32_tab_power [of "7 - k"] by simp
qed

lemma xor_span_nth:
  fixes F :: "u64 \<Rightarrow> u64"
  assumes add: "\<And>a b. F (a XOR b) = F a XOR F b"
  shows "n \<le> 64 \<Longrightarrow> i < 2 ^ n \<Longrightarrow>
    xor_span (map (\<lambda>k. F (2 ^ k)) (rev [0..<n])) ! i = F (of_nat i)"
proof (induction n arbitrary: i)
  case 0
  have "F 0 = 0" using add [of 0 0] by simp
  with 0 show ?case by simp
next
  case (Suc n)
  let ?xs = "xor_span (map (\<lambda>k. F (2 ^ k)) (rev [0..<n]))"
  have len: "length ?xs = 2 ^ n" by (simp add: length_xor_span)
  show ?case
  proof (cases "i < 2 ^ n")
    case True
    then show ?thesis using Suc len by (simp add: Let_def nth_append)
  next
    case False
    define j where "j = i - 2 ^ n"
    have j: "i = j + 2 ^ n" "j < 2 ^ n" using False Suc.prems by (auto simp: j_def)
    have "\<not> bit j n" using j(2) by (simp add: bit_iff_odd)
    then have "(of_nat j :: u64) AND 2 ^ n = 0"
      by (intro bit_word_eqI) (auto simp: bit_simps)
    then have "(of_nat i :: u64) = of_nat j XOR 2 ^ n"
      using j(1) by (simp add: disjunctive_add_eq_xor)
    then show ?thesis using j Suc len by (simp add: Let_def nth_append add)
  qed
qed

lemma crc32_tab_nth:
  assumes "i < 256"
  shows "crc32_tab ! i = (crc_bit ^^ 8) (of_nat i)"
proof -
  have "crc32_tab = xor_span (map (\<lambda>k. (crc_bit ^^ 8) (2 ^ k)) (rev [0..<8]))"
    by (subst crc32_tab_span) (auto intro!: arg_cong [of _ _ xor_span] simp: crc32_tab_basis)
  then show ?thesis using xor_span_nth [of "crc_bit ^^ 8" 8 i, OF crc_bits_xor] assms by simp
qed

lemma crc32_round_bitwise: "crc32_round w c = (crc_bit ^^ 8) (w XOR ucast c)"
proof -
  let ?x = "w XOR ucast c :: u64"
  have split: "?x = (?x AND 0xff) XOR (?x AND NOT 0xff)"
    by (rule bit_word_eqI) (auto simp: bit_simps)
  have mask: "0xff = (mask 8 :: u64)" by (simp add: mask_eq_exp_minus_1)
  have "unat (?x AND 0xff) < 256"
    using unat_and_mask [of ?x 8] by simp
  then have low: "crc32_tab ! unat (?x AND 0xff) = (crc_bit ^^ 8) (?x AND 0xff)"
    by (simp add: crc32_tab_nth)
  have "(crc_bit ^^ 8) (?x AND NOT 0xff) = drop_bit 8 (?x AND NOT 0xff)"
    by (rule crc_bits_shift) (simp add: mask bit_simps)
  also have "\<dots> = drop_bit 8 w"
    unfolding mask
    by (rule bit_word_eqI) (auto simp: bit_simps dest: bit_imp_le_length)
  finally have high: "(crc_bit ^^ 8) (?x AND NOT 0xff) = drop_bit 8 w" .
  have "(crc_bit ^^ 8) ?x = (crc_bit ^^ 8) (?x AND 0xff) XOR (crc_bit ^^ 8) (?x AND NOT 0xff)"
    by (subst split) (rule crc_bits_xor)
  then show ?thesis by (simp only: crc32_round_def low high)
qed

lemma crc32_eq_bitwise: "crc32 s = crc32_bitwise s"
proof -
  have "crc32_round = (\<lambda>w c. (crc_bit ^^ 8) (w XOR ucast c))"
    by (intro ext crc32_round_bitwise)
  then show ?thesis by (simp only: crc32_def crc32_bitwise_def)
qed

section \<open>The range of the hash function\<close>

text \<open>The printed key is never longer than the sign and ten digits, so that with the terminating
  zero it fits the 20 characters of \<open>keystring\<close>.\<close>

lemma length_dec_digits: "n < 10 ^ Suc k \<Longrightarrow> length (dec_digits n) \<le> Suc k"
proof (induction k arbitrary: n)
  case 0
  then show ?case by (subst dec_digits.simps) simp
next
  case (Suc k)
  show ?case
  proof (cases "n < 10")
    case True
    then show ?thesis by (subst dec_digits.simps) simp
  next
    case False
    have "n div 10 < 10 ^ Suc k" using Suc.prems by (simp add: less_mult_imp_div_less)
    from Suc.IH [OF this] False show ?thesis by (subst dec_digits.simps) simp
  qed
qed

lemma length_print_int:
  assumes "- (2 ^ 31) \<le> i" "i < 2 ^ 31"
  shows "length (print_int i) \<le> 11"
proof -
  have "nat i < 10 ^ Suc 9" "nat (- i) < 10 ^ Suc 9" using assms by simp_all
  then show ?thesis using length_dec_digits [of "nat i" 9] length_dec_digits [of "nat (- i)" 9]
    by (simp add: print_int_def)
qed

lemma mix_hash_hash_range:
  assumes "0 < hash_size" "hash_size < 2 ^ 31"
  shows "\<exists>r. mix_hash_hash k hash_size = Some r \<and> 0 \<le> r \<and> r < hash_size"
proof -
  define key where "key = key_mix (crc32 (print_int (sint k)))"
  let ?m = "word_of_int hash_size :: u64"
  have m: "uint ?m = hash_size" using assms by (simp add: uint_word_of_int_eq take_bit_int_eq_self)
  have key: "uint (key mod ?m) = uint key mod hash_size" by (simp add: uint_mod_distrib m)
  have r: "0 \<le> uint key mod hash_size" "uint key mod hash_size < hash_size" using assms by simp_all
  have "take_bit 32 (uint key mod hash_size) = uint key mod hash_size"
    using r(1) order_less_trans [OF r(2) assms(2)] by (simp add: take_bit_int_eq_self)
  moreover have "signed_take_bit 31 (uint key mod hash_size) = uint key mod hash_size"
    using r(1) order_less_trans [OF r(2) assms(2)] by (simp add: signed_take_bit_int_eq_self)
  ultimately have "sint (ucast (key mod ?m) :: u32) = uint key mod hash_size"
    by (simp add: sint_uint unsigned_ucast_eq key)
  moreover have "?m \<noteq> 0" using m assms by auto
  ultimately show ?thesis using r by (simp add: mix_hash_hash_def Let_def flip: key_def)
qed

section \<open>The hash table\<close>

text \<open>The nodes live in a store that maps the address of every allocated node to its content; a
  pointer is \<open>None\<close> for \<open>NULL\<close>. Dereferencing \<open>NULL\<close> or an address that is not allocated has no
  result. \<open>mh_free\<close> is \<open>free_node_head->next\<close>: the dummy head node of the free list never
  moves.\<close>

type_synonym addr = nat

record hash_list_node =
  ln_key :: u32
  ln_value :: u32
  ln_next :: "addr option"

type_synonym store = "addr \<rightharpoonup> hash_list_node"

record hash_node =
  hn_len :: int
  hn_list :: "addr option"
  hn_threshold :: int

record mix_hash =
  mh_store :: store
  mh_nodes :: "hash_node list"
  mh_size :: int
  mh_free_num :: int
  mh_free :: "addr option"
  mh_entry_idx :: int

record mix_kv =
  kv_key :: u32
  kv_value :: u32

definition empty_hash_node :: hash_node where
  "empty_hash_node = \<lparr>hn_len = 0, hn_list = None, hn_threshold = 0\<rparr>"

text \<open>The allocation loop of \<open>mix_hash_init\<close>: the \<open>i\<close>-th node is pushed on the free list.\<close>

primrec hash_pool :: "nat \<Rightarrow> mix_hash \<Rightarrow> mix_hash" where
  "hash_pool 0 hash = hash"
| "hash_pool (Suc i) hash =
     (let hash = hash_pool i hash
      in hash\<lparr>mh_store := (mh_store hash)(i \<mapsto> \<lparr>ln_key = -1, ln_value = -1, ln_next = mh_free hash\<rparr>),
              mh_free := Some i\<rparr>)"

text \<open>\<open>mix_hash_init\<close>; the two flags say whether the \<open>malloc\<close> of the table and of its buckets
  succeeded, \<open>None\<close> is the returned \<open>NULL\<close>.\<close>

definition mix_hash_init :: "bool \<Rightarrow> bool \<Rightarrow> int \<Rightarrow> int \<Rightarrow> mix_hash option" where
  "mix_hash_init hash_alloc nodes_alloc per_block size0 =
     (if \<not> hash_alloc then None
      else if \<not> nodes_alloc then None
      else Some (hash_pool (nat per_block)
        \<lparr>mh_store = Map.empty, mh_nodes = replicate (nat size0) empty_hash_node,
         mh_size = size0, mh_free_num = per_block, mh_free = None, mh_entry_idx = -1\<rparr>))"

text \<open>\<open>mix_hash_node_get\<close>: the first free node, filled; \<open>abort()\<close> when there is none.\<close>

definition mix_hash_node_get :: "mix_hash \<Rightarrow> u32 \<Rightarrow> u32 \<Rightarrow> (mix_hash \<times> addr) option" where
  "mix_hash_node_get hash key v = do {
     a \<leftarrow> mh_free hash;
     n \<leftarrow> mh_store hash a;
     Some (hash\<lparr>mh_free := ln_next n,
                mh_store := (mh_store hash)(a \<mapsto> \<lparr>ln_key = key, ln_value = v, ln_next = None\<rparr>),
                mh_free_num := mh_free_num hash - 1\<rparr>, a)
   }"

definition mix_hash_node_free :: "mix_hash \<Rightarrow> addr \<Rightarrow> mix_hash option" where
  "mix_hash_node_free hash a = do {
     n \<leftarrow> mh_store hash a;
     Some (hash\<lparr>mh_store := (mh_store hash)(a \<mapsto> \<lparr>ln_key = -1, ln_value = -1, ln_next = mh_free hash\<rparr>),
                mh_free := Some a,
                mh_free_num := mh_free_num hash + 1\<rparr>)
   }"

text \<open>\<open>node->list = l\<close> and \<open>node->len = n\<close> for the bucket \<open>node = hash->hash_nodes + i\<close>.\<close>

definition set_bucket :: "mix_hash \<Rightarrow> int \<Rightarrow> addr option \<Rightarrow> int \<Rightarrow> mix_hash option" where
  "set_bucket hash i l n = do {
     node \<leftarrow> arr_get (mh_nodes hash) i;
     nodes \<leftarrow> arr_set (mh_nodes hash) i (node\<lparr>hn_list := l, hn_len := n\<rparr>);
     Some (hash\<lparr>mh_nodes := nodes\<rparr>)
   }"

definition mix_hash_put :: "mix_hash \<Rightarrow> u32 \<Rightarrow> u32 \<Rightarrow> mix_hash option" where
  "mix_hash_put hash key v = do {
     hash_key \<leftarrow> mix_hash_hash key (mh_size hash);
     node \<leftarrow> arr_get (mh_nodes hash) hash_key;
     (hash, new_node) \<leftarrow> mix_hash_node_get hash key v;
     n \<leftarrow> mh_store hash new_node;
     let hash = hash\<lparr>mh_store := (mh_store hash)(new_node \<mapsto> n\<lparr>ln_next := hn_list node\<rparr>)\<rparr>;
     set_bucket hash hash_key (Some new_node) (hn_len node + 1)
   }"

partial_function (option) hash_get_loop :: "store \<Rightarrow> u32 \<Rightarrow> addr option \<Rightarrow> int option" where
  "hash_get_loop s key cur =
     (case cur of
        None \<Rightarrow> Some (-1)
      | Some a \<Rightarrow> do {
          n \<leftarrow> s a;
          if ln_key n = key then Some (sint (ln_value n))
          else hash_get_loop s key (ln_next n)
        })"

definition mix_hash_get :: "mix_hash \<Rightarrow> u32 \<Rightarrow> int option" where
  "mix_hash_get hash key = do {
     hash_key \<leftarrow> mix_hash_hash key (mh_size hash);
     node \<leftarrow> arr_get (mh_nodes hash) hash_key;
     hash_get_loop (mh_store hash) key (hn_list node)
   }"

text \<open>The loop of \<open>mix_hash_delete\<close>. A node at the head of the bucket is unlinked but not
  returned to the free list.\<close>

partial_function (option) hash_delete_loop ::
    "mix_hash \<Rightarrow> int \<Rightarrow> u32 \<Rightarrow> addr option \<Rightarrow> addr option \<Rightarrow> addr option \<Rightarrow> mix_hash option" where
  "hash_delete_loop hash hash_key key head prev cur =
     (case cur of
        None \<Rightarrow> Some hash
      | Some c \<Rightarrow> do {
          n \<leftarrow> mh_store hash c;
          if ln_key n = key
          then if cur = head
               then do {
                 node \<leftarrow> arr_get (mh_nodes hash) hash_key;
                 set_bucket hash hash_key (ln_next n) (hn_len node)
               }
               else do {
                 p \<leftarrow> prev;
                 m \<leftarrow> mh_store hash p;
                 let hash = hash\<lparr>mh_store := (mh_store hash)(p \<mapsto> m\<lparr>ln_next := ln_next n\<rparr>)\<rparr>;
                 mix_hash_node_free hash c
               }
          else hash_delete_loop hash hash_key key head cur (ln_next n)
        })"

definition mix_hash_delete :: "mix_hash \<Rightarrow> u32 \<Rightarrow> mix_hash option" where
  "mix_hash_delete hash key = do {
     hash_key \<leftarrow> mix_hash_hash key (mh_size hash);
     node \<leftarrow> arr_get (mh_nodes hash) hash_key;
     hash \<leftarrow> hash_delete_loop hash hash_key key (hn_list node) None (hn_list node);
     node \<leftarrow> arr_get (mh_nodes hash) hash_key;
     set_bucket hash hash_key (hn_list node) (hn_len node - 1)
   }"

text \<open>\<open>mix_hash_has_key\<close>: the expression \<open>(key, hash->hash_size)\<close> is a comma expression, its value
  is \<open>hash_size\<close>.\<close>

partial_function (option) has_key_loop :: "store \<Rightarrow> u32 \<Rightarrow> addr option \<Rightarrow> int option" where
  "has_key_loop s key node =
     (case node of
        None \<Rightarrow> Some 0
      | Some a \<Rightarrow> do {
          n \<leftarrow> s a;
          if ln_key n \<noteq> key then has_key_loop s key (ln_next n) else Some 1
        })"

definition mix_hash_has_key :: "mix_hash \<Rightarrow> u32 \<Rightarrow> int option" where
  "mix_hash_has_key hash key =
     (let hash_key = mh_size hash
      in do {
        node \<leftarrow> arr_get (mh_nodes hash) hash_key;
        has_key_loop (mh_store hash) key (hn_list node)
      })"

text \<open>\<open>mix_hash_free\<close>: what is left allocated; reading a node that was freed has no result.\<close>

partial_function (option) free_chain :: "store \<Rightarrow> addr option \<Rightarrow> store option" where
  "free_chain s cur =
     (case cur of
        None \<Rightarrow> Some s
      | Some a \<Rightarrow> do {
          n \<leftarrow> s a;
          free_chain (s(a := None)) (ln_next n)
        })"

fun free_buckets :: "store \<Rightarrow> hash_node list \<Rightarrow> store option" where
  "free_buckets s [] = Some s"
| "free_buckets s (node # nodes) = free_chain s (hn_list node) \<bind> (\<lambda>s. free_buckets s nodes)"

definition mix_hash_free :: "mix_hash \<Rightarrow> store option" where
  "mix_hash_free hash = free_buckets (mh_store hash) (take (nat (mh_size hash)) (mh_nodes hash))"

definition mix_hash_get_entry_by_idx :: "mix_hash \<Rightarrow> int \<Rightarrow> (mix_hash \<times> mix_kv) option" where
  "mix_hash_get_entry_by_idx hash idx = do {
     hash_node \<leftarrow> arr_get (mh_nodes hash) idx;
     if hn_len hash_node > 0
     then do {
       a \<leftarrow> hn_list hash_node;
       n \<leftarrow> mh_store hash a;
       let kv = \<lparr>kv_key = ln_key n, kv_value = ln_value n\<rparr>;
       let list_node = ln_next n;
       hash \<leftarrow> mix_hash_node_free hash a;
       hash \<leftarrow> set_bucket hash idx list_node (hn_len hash_node - 1);
       Some (hash, kv)
     }
     else Some (hash, \<lparr>kv_key = -1, kv_value = -1\<rparr>)
   }"

section \<open>Chains of nodes\<close>

primrec path :: "store \<Rightarrow> addr option \<Rightarrow> addr list \<Rightarrow> bool" where
  "path s p [] \<longleftrightarrow> p = None"
| "path s p (a # as) \<longleftrightarrow> p = Some a \<and> (case s a of None \<Rightarrow> False | Some n \<Rightarrow> path s (ln_next n) as)"

text \<open>The nodes that a pointer leads to.\<close>

partial_function (option) chain :: "store \<Rightarrow> addr option \<Rightarrow> addr list option" where
  "chain s p =
     (case p of
        None \<Rightarrow> Some []
      | Some a \<Rightarrow> do { n \<leftarrow> s a; as \<leftarrow> chain s (ln_next n); Some (a # as) })"

definition entry :: "store \<Rightarrow> addr \<Rightarrow> u32 \<times> u32" where
  "entry s a = (case s a of None \<Rightarrow> (0, 0) | Some n \<Rightarrow> (ln_key n, ln_value n))"

definition chain_head :: "addr list \<Rightarrow> addr option" where
  "chain_head as = (case as of [] \<Rightarrow> None | a # _ \<Rightarrow> Some a)"

lemma chain_head_simps [simp]: "chain_head [] = None" "chain_head (a # as) = Some a"
  by (simp_all add: chain_head_def)

lemma path_chain: "path s p as \<Longrightarrow> chain s p = Some as"
  by (induction as arbitrary: p) (subst chain.simps, auto split: option.splits)+

lemma path_head: "path s p as \<Longrightarrow> p = chain_head as"
  by (cases as) auto

lemma path_update: "a \<notin> set as \<Longrightarrow> path (s(a := x)) p as \<longleftrightarrow> path s p as"
  by (induction as arbitrary: p) (auto split: option.splits)

lemma path_allocated: "path s p as \<Longrightarrow> a \<in> set as \<Longrightarrow> \<exists>n. s a = Some n"
  by (induction as arbitrary: p) (auto split: option.splits)

lemma path_drop: "path s p (pre @ rest) \<Longrightarrow> path s (chain_head rest) rest"
  by (induction pre arbitrary: p) (auto dest: path_head split: option.splits)

lemma path_next: "path s p (pre @ c # rest) \<Longrightarrow> s c = Some n \<Longrightarrow> path s (ln_next n) rest"
  by (drule path_drop) simp

lemma entry_alloc: "s a = Some n \<Longrightarrow> entry s a = (ln_key n, ln_value n)"
  by (simp add: entry_def)

lemma entry_update: "a \<noteq> b \<Longrightarrow> entry (s(a := x)) b = entry s b"
  by (simp add: entry_def)

lemma map_entry_update: "a \<notin> set as \<Longrightarrow> map (entry (s(a := x))) as = map (entry s) as"
  by (induction as) (auto simp: entry_update)

lemma entry_link: "s q = Some m \<Longrightarrow> entry (s(q \<mapsto> m\<lparr>ln_next := x\<rparr>)) b = entry s b"
  by (simp add: entry_def)

text \<open>Unlinking a node behind the head: its predecessor is redirected to its successor.\<close>

lemma path_unlink:
  assumes "path s p (pre @ c # post)" "pre \<noteq> []" "distinct (pre @ c # post)"
    and "s (last pre) = Some m" "s c = Some n"
  shows "path (s(last pre \<mapsto> m\<lparr>ln_next := ln_next n\<rparr>)) p (pre @ post)"
  using assms
proof (induction pre arbitrary: p)
  case (Cons q pre)
  then obtain k where k: "p = Some q" "s q = Some k" "path s (ln_next k) (pre @ c # post)"
    by (auto split: option.splits)
  show ?case
  proof (cases "pre = []")
    case True
    then have "path s (ln_next n) post" "q \<notin> set post" using k Cons.prems by simp_all
    then have "path (s(q \<mapsto> m\<lparr>ln_next := ln_next n\<rparr>)) (ln_next n) post" by (simp add: path_update)
    then show ?thesis using True k Cons.prems by (simp add: fun_upd_def)
  next
    case False
    then have "last pre \<in> set pre" by simp
    then have "last pre \<noteq> q" using Cons.prems(3) by auto
    then show ?thesis using Cons.IH [OF k(3) False] Cons.prems False k by simp
  qed
qed simp

section \<open>The structural invariant\<close>

text \<open>\<open>hash_shape h fs bs\<close>: the free list is \<open>fs\<close>, bucket \<open>i\<close> is the chain \<open>bs ! i\<close>, and no node
  is on two lists.\<close>

definition hash_shape :: "mix_hash \<Rightarrow> addr list \<Rightarrow> addr list list \<Rightarrow> bool" where
  "hash_shape h fs bs \<longleftrightarrow>
     path (mh_store h) (mh_free h) fs \<and> distinct fs \<and> length bs = length (mh_nodes h) \<and>
     (\<forall>i < length bs. path (mh_store h) (hn_list (mh_nodes h ! i)) (bs ! i) \<and> distinct (bs ! i) \<and>
        set (bs ! i) \<inter> set fs = {}) \<and>
     (\<forall>i < length bs. \<forall>j < length bs. i \<noteq> j \<longrightarrow> set (bs ! i) \<inter> set (bs ! j) = {})"

definition hash_placed :: "mix_hash \<Rightarrow> addr list list \<Rightarrow> bool" where
  "hash_placed h bs \<longleftrightarrow>
     (\<forall>i < length bs. \<forall>a \<in> set (bs ! i). mix_hash_hash (fst (entry (mh_store h) a)) (mh_size h) = Some (int i))"

definition hash_rep :: "mix_hash \<Rightarrow> addr list \<Rightarrow> addr list list \<Rightarrow> bool" where
  "hash_rep h fs bs \<longleftrightarrow>
     0 < mh_size h \<and> mh_size h < 2 ^ 31 \<and> length (mh_nodes h) = nat (mh_size h) \<and>
     hash_shape h fs bs \<and> hash_placed h bs \<and> mh_free_num h = int (length fs)"

definition hash_ok :: "mix_hash \<Rightarrow> bool" where
  "hash_ok h \<longleftrightarrow> (\<exists>fs bs. hash_rep h fs bs)"

text \<open>The abstraction: the free nodes, the content of a bucket, the stack of values of a key.\<close>

definition hash_room :: "mix_hash \<Rightarrow> nat" where
  "hash_room h = length (the (chain (mh_store h) (mh_free h)))"

definition bucket :: "mix_hash \<Rightarrow> nat \<Rightarrow> (u32 \<times> u32) list" where
  "bucket h i = map (entry (mh_store h)) (the (chain (mh_store h) (hn_list (mh_nodes h ! i))))"

definition key_bucket :: "mix_hash \<Rightarrow> u32 \<Rightarrow> nat" where
  "key_bucket h k = nat (the (mix_hash_hash k (mh_size h)))"

definition versions :: "u32 \<Rightarrow> (u32 \<times> u32) list \<Rightarrow> u32 list" where
  "versions k es = map snd (filter (\<lambda>e. fst e = k) es)"

definition hash_stack :: "mix_hash \<Rightarrow> u32 \<Rightarrow> u32 list" where
  "hash_stack h k = versions k (bucket h (key_bucket h k))"

lemma versions_simps [simp]:
  "versions k [] = []"
  "versions k (e # es) = (if fst e = k then snd e # versions k es else versions k es)"
  "versions k (es @ es') = versions k es @ versions k es'"
  by (simp_all add: versions_def)

lemma versions_none: "(\<And>e. e \<in> set es \<Longrightarrow> fst e \<noteq> k) \<Longrightarrow> versions k es = []"
  by (induction es) auto

lemma hash_rep_room: "hash_rep h fs bs \<Longrightarrow> hash_room h = length fs"
  by (auto simp: hash_rep_def hash_shape_def hash_room_def dest: path_chain)

lemma hash_rep_bucket:
  "hash_rep h fs bs \<Longrightarrow> i < length bs \<Longrightarrow> bucket h i = map (entry (mh_store h)) (bs ! i)"
  by (auto simp: hash_rep_def hash_shape_def bucket_def dest!: path_chain)

lemma hash_rep_length: "hash_rep h fs bs \<Longrightarrow> length bs = nat (mh_size h) \<and> length (mh_nodes h) = length bs"
  by (simp add: hash_rep_def hash_shape_def)

lemma key_bucket_spec:
  assumes "hash_rep h fs bs"
  shows "mix_hash_hash k (mh_size h) = Some (int (key_bucket h k))" "key_bucket h k < length bs"
proof -
  obtain r where "mix_hash_hash k (mh_size h) = Some r" "0 \<le> r" "r < mh_size h"
    using assms mix_hash_hash_range [of "mh_size h" k] by (auto simp: hash_rep_def)
  then show "mix_hash_hash k (mh_size h) = Some (int (key_bucket h k))" "key_bucket h k < length bs"
    using hash_rep_length [OF assms] by (auto simp: key_bucket_def)
qed

lemma hash_rep_stack:
  "hash_rep h fs bs \<Longrightarrow>
     hash_stack h k = versions k (map (entry (mh_store h)) (bs ! key_bucket h k))"
  by (simp add: hash_stack_def hash_rep_bucket key_bucket_spec)

section \<open>Lookup\<close>

lemma hash_get_loop_path:
  "path s p as \<Longrightarrow> hash_get_loop s k p =
     Some (case versions k (map (entry s) as) of [] \<Rightarrow> -1 | v # _ \<Rightarrow> sint v)"
proof (induction as arbitrary: p)
  case Nil
  then show ?case by (subst hash_get_loop.simps) simp
next
  case (Cons a as)
  then obtain n where n: "p = Some a" "s a = Some n" "path s (ln_next n) as"
    by (auto split: option.splits)
  from Cons.IH [OF n(3)] show ?case
    by (subst hash_get_loop.simps) (simp add: n entry_alloc)
qed

lemma mix_hash_get_stack:
  assumes "hash_rep h fs bs"
  shows "mix_hash_get h k = Some (case hash_stack h k of [] \<Rightarrow> -1 | v # _ \<Rightarrow> sint v)"
proof -
  have "path (mh_store h) (hn_list (mh_nodes h ! key_bucket h k)) (bs ! key_bucket h k)"
    using assms key_bucket_spec(2) [OF assms] by (simp add: hash_rep_def hash_shape_def)
  then show ?thesis
    using key_bucket_spec [OF assms, of k] hash_rep_length [OF assms]
    by (simp add: mix_hash_get_def hash_get_loop_path hash_rep_stack [OF assms])
qed

section \<open>Moving nodes between the lists\<close>

text \<open>Every operation moves nodes between the free list and one bucket \<open>i\<close>, and leaves the
  content of all nodes of the other lists as it was.\<close>

lemma hash_rep_move:
  assumes rep: "hash_rep h fs bs" and i: "i < length bs"
    and frame: "mh_size h' = mh_size h" "mh_nodes h' = (mh_nodes h)[i := node]"
    and free: "path (mh_store h') (mh_free h') fs'" "distinct fs'" "mh_free_num h' = int (length fs')"
    and new: "path (mh_store h') (hn_list node) b" "distinct b" "set b \<inter> set fs' = {}"
    and fresh: "set b \<union> set fs' \<subseteq> set (bs ! i) \<union> set fs"
    and old: "\<And>j p. j < length bs \<Longrightarrow> j \<noteq> i \<Longrightarrow> path (mh_store h) p (bs ! j) \<Longrightarrow> path (mh_store h') p (bs ! j)"
    and same: "\<And>j a. j < length bs \<Longrightarrow> j \<noteq> i \<Longrightarrow> a \<in> set (bs ! j) \<Longrightarrow> entry (mh_store h') a = entry (mh_store h) a"
    and keys: "\<And>a. a \<in> set b \<Longrightarrow> mix_hash_hash (fst (entry (mh_store h') a)) (mh_size h) = Some (int i)"
  shows "hash_rep h' fs' (bs[i := b]) \<and>
    (\<forall>j < length bs. bucket h' j = (if j = i then map (entry (mh_store h')) b else bucket h j))"
proof -
  have sh: "hash_shape h fs bs" and pl: "hash_placed h bs" using rep by (simp_all add: hash_rep_def)
  have disj: "set (bs ! j) \<inter> (set b \<union> set fs') = {}" if "j < length bs" "j \<noteq> i" for j
    using sh fresh i that unfolding hash_shape_def by blast
  have "hash_shape h' fs' (bs[i := b])"
    unfolding hash_shape_def
  proof (intro conjI allI impI)
    fix j assume j: "j < length (bs[i := b])"
    show "path (mh_store h') (hn_list (mh_nodes h' ! j)) (bs[i := b] ! j)"
      using sh j i new(1) old [of j] unfolding hash_shape_def by (cases "j = i") (auto simp: frame)
    show "distinct (bs[i := b] ! j)"
      using sh j i new(2) unfolding hash_shape_def by (cases "j = i") auto
    show "set (bs[i := b] ! j) \<inter> set fs' = {}"
      using disj [of j] j i new(3) by (cases "j = i") auto
    fix l assume l: "l < length (bs[i := b])" "j \<noteq> l"
    show "set (bs[i := b] ! j) \<inter> set (bs[i := b] ! l) = {}"
      using disj [of j] disj [of l] j l i sh unfolding hash_shape_def
      by (cases "j = i"; cases "l = i") auto
  qed (use free sh frame in \<open>simp_all add: hash_shape_def\<close>)
  moreover have "hash_placed h' (bs[i := b])"
    using pl i same keys unfolding hash_placed_def frame by (auto simp: nth_list_update)
  ultimately have rep': "hash_rep h' fs' (bs[i := b])"
    using rep frame free(3) by (simp add: hash_rep_def)
  moreover have "bucket h' j = (if j = i then map (entry (mh_store h')) b else bucket h j)"
    if "j < length bs" for j
    using that same [of j] by (simp add: hash_rep_bucket [OF rep'] hash_rep_bucket [OF rep])
  ultimately show ?thesis by blast
qed

lemma hash_rep_list:
  assumes "hash_rep h fs bs" "i < length bs" "bs ! i = b"
  shows "path (mh_store h) (hn_list (mh_nodes h ! i)) b" "distinct b" "set b \<inter> set fs = {}"
  using assms unfolding hash_rep_def hash_shape_def by blast+

lemma hash_rep_free:
  assumes "hash_rep h fs bs"
  shows "path (mh_store h) (mh_free h) fs" "distinct fs" "mh_free_num h = int (length fs)"
  using assms unfolding hash_rep_def hash_shape_def by blast+

lemma hash_rep_placed:
  "hash_rep h fs bs \<Longrightarrow> i < length bs \<Longrightarrow> a \<in> set (bs ! i) \<Longrightarrow>
     mix_hash_hash (fst (entry (mh_store h) a)) (mh_size h) = Some (int i)"
  unfolding hash_rep_def hash_placed_def by blast

lemma hash_rep_other:
  "hash_rep h fs bs \<Longrightarrow> i < length bs \<Longrightarrow> j < length bs \<Longrightarrow> j \<noteq> i \<Longrightarrow> a \<in> set fs \<union> set (bs ! i) \<Longrightarrow>
     a \<notin> set (bs ! j)"
  unfolding hash_rep_def hash_shape_def by blast

section \<open>Insertion\<close>

lemma mix_hash_put_rep:
  assumes rep: "hash_rep h (a # fs) bs" and i_def: "i = key_bucket h k"
  obtains h' where "mix_hash_put h k v = Some h'" "hash_rep h' fs (bs[i := a # bs ! i])"
    "mh_size h' = mh_size h"
    "mh_nodes h' = (mh_nodes h)[i := (mh_nodes h ! i)
       \<lparr>hn_list := Some a, hn_len := hn_len (mh_nodes h ! i) + 1\<rparr>]"
    "\<And>j. j < length bs \<Longrightarrow> bucket h' j = (if j = i then (k, v) # bucket h i else bucket h j)"
proof -
  have i: "i < length bs" "mix_hash_hash k (mh_size h) = Some (int i)"
    using key_bucket_spec [OF rep] by (simp_all add: i_def)
  have len: "length (mh_nodes h) = length bs" using hash_rep_length [OF rep] by simp
  have sh: "hash_shape h (a # fs) bs" using rep by (simp add: hash_rep_def)
  obtain n where n: "mh_free h = Some a" "mh_store h a = Some n" "path (mh_store h) (ln_next n) fs"
    using sh by (auto simp: hash_shape_def split: option.splits)
  let ?node = "(mh_nodes h ! i)\<lparr>hn_list := Some a, hn_len := hn_len (mh_nodes h ! i) + 1\<rparr>"
  let ?s = "(mh_store h)(a \<mapsto> \<lparr>ln_key = k, ln_value = v, ln_next = hn_list (mh_nodes h ! i)\<rparr>)"
  define h' where "h' = h\<lparr>mh_free := ln_next n, mh_store := ?s, mh_free_num := mh_free_num h - 1,
    mh_nodes := (mh_nodes h)[i := ?node]\<rparr>"
  have run: "mix_hash_put h k v = Some h'"
    using i len by (simp add: mix_hash_put_def mix_hash_node_get_def set_bucket_def n h'_def)
  have a: "a \<notin> set fs" "a \<notin> set (bs ! i)" "\<And>j. j < length bs \<Longrightarrow> a \<notin> set (bs ! j)"
    using sh i by (auto simp: hash_shape_def)
  have fresh: "entry ?s b = entry (mh_store h) b" if "b \<noteq> a" for b
    using that by (simp add: entry_update)
  have bp: "path (mh_store h) (hn_list (mh_nodes h ! i)) (bs ! i)" "distinct (bs ! i)"
      "set (bs ! i) \<inter> set fs = {}"
    using sh i by (auto simp: hash_shape_def)
  have placed: "mix_hash_hash (fst (entry ?s b)) (mh_size h) = Some (int i)" if "b \<in> set (a # bs ! i)" for b
  proof (cases "b = a")
    case True
    then show ?thesis by (simp add: entry_alloc i(2))
  next
    case False
    then show ?thesis using that rep i(1) by (simp add: fresh hash_rep_def hash_placed_def)
  qed
  have "hash_rep h' fs (bs[i := a # bs ! i]) \<and>
      (\<forall>j < length bs. bucket h' j = (if j = i then map (entry (mh_store h')) (a # bs ! i) else bucket h j))"
  proof (rule hash_rep_move [OF rep i(1)])
    show "path (mh_store h') (hn_list ?node) (a # bs ! i)"
      using bp(1) a(2) by (simp add: h'_def path_update)
    show "entry (mh_store h') b = entry (mh_store h) b" if "j < length bs" "b \<in> set (bs ! j)" for j b
      using that a(3) [of j] by (cases "b = a") (simp_all add: h'_def fresh)
  qed (use rep n a bp placed sh fresh in
       \<open>auto simp: h'_def path_update hash_rep_def hash_shape_def\<close>)
  moreover have "map (entry (mh_store h')) (a # bs ! i) = (k, v) # bucket h i"
    using a(2) by (simp add: h'_def hash_rep_bucket [OF rep i(1)] entry_alloc map_entry_update)
  ultimately show thesis using that [OF run] by (simp add: h'_def)
qed

lemma mix_hash_put_full:
  assumes "hash_rep h [] bs"
  shows "mix_hash_put h k v = None"
proof -
  have "mh_free h = None" using assms by (simp add: hash_rep_def hash_shape_def)
  then show ?thesis
    using key_bucket_spec [OF assms, of k] hash_rep_length [OF assms]
    by (simp add: mix_hash_put_def mix_hash_node_get_def)
qed

section \<open>Deletion\<close>

lemma hash_delete_loop_skip:
  "path (mh_store h) cur (pre @ rest) \<Longrightarrow> \<forall>a \<in> set pre. fst (entry (mh_store h) a) \<noteq> key \<Longrightarrow>
     hash_delete_loop h i key head prev cur =
     hash_delete_loop h i key head (if pre = [] then prev else Some (last pre)) (chain_head rest)"
proof (induction pre arbitrary: cur prev)
  case Nil
  then show ?case using path_head by fastforce
next
  case (Cons a pre)
  then obtain n where n: "cur = Some a" "mh_store h a = Some n" "path (mh_store h) (ln_next n) (pre @ rest)"
    by (auto split: option.splits)
  have "ln_key n \<noteq> key" using Cons.prems(2) n(2) by (simp add: entry_alloc)
  then have "hash_delete_loop h i key head prev cur = hash_delete_loop h i key head cur (ln_next n)"
    by (subst hash_delete_loop.simps) (simp add: n)
  then show ?case using Cons.IH [OF n(3), of cur] Cons.prems(2) n(1) by simp
qed

lemma set_bucket_int:
  "i < length (mh_nodes h) \<Longrightarrow> set_bucket h (int i) l n =
     Some (h\<lparr>mh_nodes := (mh_nodes h)[i := (mh_nodes h ! i)\<lparr>hn_list := l, hn_len := n\<rparr>]\<rparr>)"
  by (simp add: set_bucket_def)

text \<open>A key that is not stored: only the length of the bucket changes.\<close>

lemma mix_hash_delete_absent:
  assumes rep: "hash_rep h fs bs" and i_def: "i = key_bucket h k"
    and absent: "\<forall>a \<in> set (bs ! i). fst (entry (mh_store h) a) \<noteq> k"
  shows "mix_hash_delete h k = Some (h\<lparr>mh_nodes := (mh_nodes h)[i := (mh_nodes h ! i)
      \<lparr>hn_len := hn_len (mh_nodes h ! i) - 1\<rparr>]\<rparr>)"
proof -
  have i: "i < length bs" "mix_hash_hash k (mh_size h) = Some (int i)"
    using key_bucket_spec [OF rep] by (simp_all add: i_def)
  have len: "length (mh_nodes h) = length bs" using hash_rep_length [OF rep] by simp
  have "path (mh_store h) (hn_list (mh_nodes h ! i)) (bs ! i @ [])"
    using rep i(1) by (simp add: hash_rep_def hash_shape_def)
  from hash_delete_loop_skip [OF this absent]
  have "hash_delete_loop h (int i) k (hn_list (mh_nodes h ! i)) None (hn_list (mh_nodes h ! i)) = Some h"
    by (simp add: hash_delete_loop.simps)
  then show ?thesis using i len by (simp add: mix_hash_delete_def set_bucket_int)
qed

lemma hash_rep_len_update:
  assumes rep: "hash_rep h fs bs" and i: "i < length bs"
    and h'_def: "h' = h\<lparr>mh_nodes := (mh_nodes h)[i := (mh_nodes h ! i)\<lparr>hn_len := n\<rparr>]\<rparr>"
  shows "hash_rep h' fs bs" "\<And>j. j < length bs \<Longrightarrow> bucket h' j = bucket h j" "hash_room h' = hash_room h"
proof -
  have len: "length (mh_nodes h) = length bs" using hash_rep_length [OF rep] by simp
  have l: "hn_list (mh_nodes h' ! j) = hn_list (mh_nodes h ! j)" for j
    using i len by (cases "j = i") (simp_all add: h'_def)
  have other: "mh_store h' = mh_store h" "mh_free h' = mh_free h" "mh_size h' = mh_size h"
    "mh_free_num h' = mh_free_num h" "length (mh_nodes h') = length (mh_nodes h)"
    by (simp_all add: h'_def)
  show "hash_rep h' fs bs"
    using rep unfolding hash_rep_def hash_shape_def hash_placed_def l other by blast
  show "bucket h' j = bucket h j" for j by (simp add: bucket_def l other)
  show "hash_room h' = hash_room h" by (simp add: hash_room_def other)
qed

text \<open>The node at the head of its bucket is unlinked and belongs to no list afterwards.\<close>

lemma mix_hash_delete_head:
  assumes rep: "hash_rep h fs bs" and i_def: "i = key_bucket h k"
    and b: "bs ! i = c # post" "fst (entry (mh_store h) c) = k"
  obtains h' where "mix_hash_delete h k = Some h'" "hash_rep h' fs (bs[i := post])"
    "mh_size h' = mh_size h"
    "mh_nodes h' = (mh_nodes h)[i := (mh_nodes h ! i)
       \<lparr>hn_list := chain_head post, hn_len := hn_len (mh_nodes h ! i) - 1\<rparr>]"
    "\<And>j. j < length bs \<Longrightarrow> bucket h' j = (if j = i then tl (bucket h i) else bucket h j)"
proof -
  have i: "i < length bs" "mix_hash_hash k (mh_size h) = Some (int i)"
    using key_bucket_spec [OF rep] by (simp_all add: i_def)
  have len: "length (mh_nodes h) = length bs" using hash_rep_length [OF rep] by simp
  note lst = hash_rep_list [OF rep i(1) b(1)]
  obtain n where n: "hn_list (mh_nodes h ! i) = Some c" "mh_store h c = Some n"
      "path (mh_store h) (ln_next n) post"
    using lst(1) by (auto split: option.splits)
  then have nx: "ln_next n = chain_head post" "ln_key n = k"
    using b(2) by (auto dest: path_head simp: entry_alloc)
  let ?node = "(mh_nodes h ! i)\<lparr>hn_list := chain_head post, hn_len := hn_len (mh_nodes h ! i) - 1\<rparr>"
  let ?h = "h\<lparr>mh_nodes := (mh_nodes h)[i := ?node]\<rparr>"
  have "hash_delete_loop h (int i) k (Some c) None (Some c) =
      Some (h\<lparr>mh_nodes := (mh_nodes h)[i := (mh_nodes h ! i)\<lparr>hn_list := chain_head post\<rparr>]\<rparr>)"
    using i len by (subst hash_delete_loop.simps) (simp add: n nx set_bucket_int)
  then have run: "mix_hash_delete h k = Some ?h"
    using i len by (simp add: mix_hash_delete_def n(1) set_bucket_int)
  have "hash_rep ?h fs (bs[i := post]) \<and>
      (\<forall>j < length bs. bucket ?h j = (if j = i then map (entry (mh_store ?h)) post else bucket h j))"
    by (rule hash_rep_move [OF rep i(1)])
       (use hash_rep_free [OF rep] hash_rep_placed [OF rep i(1)] n nx b lst in auto)
  then show thesis using that [OF run] by (simp add: hash_rep_bucket [OF rep i(1)] b)
qed

text \<open>A node behind the head goes back to the free list.\<close>

lemma mix_hash_delete_inner:
  assumes rep: "hash_rep h fs bs" and i_def: "i = key_bucket h k"
    and b: "bs ! i = pre @ c # post" "fst (entry (mh_store h) c) = k" "pre \<noteq> []"
    and pre: "\<forall>a \<in> set pre. fst (entry (mh_store h) a) \<noteq> k"
  obtains h' where "mix_hash_delete h k = Some h'" "hash_rep h' (c # fs) (bs[i := pre @ post])"
    "mh_size h' = mh_size h"
    "mh_nodes h' = (mh_nodes h)[i := (mh_nodes h ! i)\<lparr>hn_len := hn_len (mh_nodes h ! i) - 1\<rparr>]"
    "\<And>j. j < length bs \<Longrightarrow>
       bucket h' j = (if j = i then map (entry (mh_store h)) (pre @ post) else bucket h j)"
proof -
  have i: "i < length bs" "mix_hash_hash k (mh_size h) = Some (int i)"
    using key_bucket_spec [OF rep] by (simp_all add: i_def)
  have len: "length (mh_nodes h) = length bs" using hash_rep_length [OF rep] by simp
  note lst = hash_rep_list [OF rep i(1) b(1)]
  let ?node = "(mh_nodes h ! i)\<lparr>hn_len := hn_len (mh_nodes h ! i) - 1\<rparr>"
  obtain n m where n: "mh_store h c = Some n" "mh_store h (last pre) = Some m"
    using path_allocated [OF lst(1), of c] path_allocated [OF lst(1), of "last pre"] b(3) by auto
  let ?s1 = "(mh_store h)(last pre \<mapsto> m\<lparr>ln_next := ln_next n\<rparr>)"
  let ?s = "?s1(c \<mapsto> \<lparr>ln_key = -1, ln_value = -1, ln_next = mh_free h\<rparr>)"
  define h' where "h' = h\<lparr>mh_store := ?s, mh_free := Some c, mh_free_num := mh_free_num h + 1,
    mh_nodes := (mh_nodes h)[i := ?node]\<rparr>"
  have "last pre \<in> set pre" using b(3) by simp
  then have c: "c \<noteq> last pre" "c \<notin> set (pre @ post)" "c \<notin> set fs" "last pre \<in> set pre"
      "last pre \<notin> set fs"
    using lst(2,3) by auto
  have head: "hn_list (mh_nodes h ! i) \<noteq> Some c"
    using path_head [OF lst(1)] b(3) lst(2) by (cases pre) auto
  have "hash_delete_loop h (int i) k (hn_list (mh_nodes h ! i)) (Some (last pre)) (Some c) =
      Some (h\<lparr>mh_store := ?s, mh_free := Some c, mh_free_num := mh_free_num h + 1\<rparr>)"
    using b(2) head n c(1) by (subst hash_delete_loop.simps) (auto simp: entry_alloc mix_hash_node_free_def)
  then have run: "mix_hash_delete h k = Some h'"
    using i len hash_delete_loop_skip [OF lst(1) pre, of "int i" "hn_list (mh_nodes h ! i)" None] b(3)
    by (simp add: mix_hash_delete_def set_bucket_int h'_def)
  have content: "entry (mh_store h') a = entry (mh_store h) a" if "a \<noteq> c" for a
    using that n by (simp add: h'_def entry_update entry_link)
  have "hash_rep h' (c # fs) (bs[i := pre @ post]) \<and>
      (\<forall>j < length bs. bucket h' j = (if j = i then map (entry (mh_store h')) (pre @ post) else bucket h j))"
  proof (rule hash_rep_move [OF rep i(1)])
    show "path (mh_store h') (mh_free h') (c # fs)"
      using c hash_rep_free(1) [OF rep] by (simp add: h'_def path_update)
    have "path ?s1 (hn_list (mh_nodes h ! i)) (pre @ post)"
      using path_unlink [OF lst(1) b(3) lst(2) n(2,1)] .
    then show "path (mh_store h') (hn_list ?node) (pre @ post)"
      using c(2) by (simp add: h'_def path_update)
    show "path (mh_store h') p (bs ! j)" if "j < length bs" "j \<noteq> i" "path (mh_store h) p (bs ! j)" for j p
      using that hash_rep_other [OF rep i(1) that(1,2), of c] hash_rep_other [OF rep i(1) that(1,2), of "last pre"]
        b(1) c(4) by (simp add: h'_def path_update)
    show "entry (mh_store h') a = entry (mh_store h) a" if "j < length bs" "j \<noteq> i" "a \<in> set (bs ! j)" for j a
      using that hash_rep_other [OF rep i(1) that(1,2), of c] b(1) by (intro content) auto
    show "mix_hash_hash (fst (entry (mh_store h') a)) (mh_size h) = Some (int i)" if "a \<in> set (pre @ post)" for a
    proof -
      have "a \<noteq> c" "a \<in> set (bs ! i)" using that c(2) b(1) by auto
      then show ?thesis by (simp add: content hash_rep_placed [OF rep i(1)])
    qed
  qed (use hash_rep_free [OF rep] lst c b in \<open>auto simp: h'_def\<close>)
  moreover have "map (entry (mh_store h')) (pre @ post) = map (entry (mh_store h)) (pre @ post)"
    by (rule map_cong [OF refl]) (metis c(2) content)
  ultimately show thesis using that [OF run] by (simp add: h'_def)
qed

section \<open>The table as an index\<close>

lemma hash_stack_change:
  assumes "hash_rep h fs bs" "mh_size h' = mh_size h"
    and "\<And>j. j < length bs \<Longrightarrow> bucket h' j = (if j = i then es else bucket h j)"
  shows "hash_stack h' k = (if key_bucket h k = i then versions k es else hash_stack h k)"
  using assms key_bucket_spec(2) [OF assms(1), of k] by (simp add: hash_stack_def key_bucket_def)

lemma mix_hash_put_spec:
  assumes "hash_ok h" "0 < hash_room h"
  shows "\<exists>h'. mix_hash_put h k v = Some h' \<and> hash_ok h' \<and>
    hash_stack h' = (hash_stack h)(k := v # hash_stack h k) \<and> Suc (hash_room h') = hash_room h"
proof -
  obtain fs bs where rep: "hash_rep h fs bs" using assms(1) by (auto simp: hash_ok_def)
  then obtain a fs' where fs: "fs = a # fs'" using assms(2) hash_rep_room [OF rep] by (cases fs) auto
  let ?i = "key_bucket h k"
  obtain h' where h': "mix_hash_put h k v = Some h'" "hash_rep h' fs' (bs[?i := a # bs ! ?i])"
      "mh_size h' = mh_size h"
      "\<And>j. j < length bs \<Longrightarrow> bucket h' j = (if j = ?i then (k, v) # bucket h ?i else bucket h j)"
    using mix_hash_put_rep [OF rep [unfolded fs] refl, of k v] by metis
  have "hash_stack h' = (hash_stack h)(k := v # hash_stack h k)"
    using hash_stack_change [OF rep h'(3,4)] by (auto simp: fun_eq_iff hash_stack_def)
  then show ?thesis
    using h' hash_rep_room [OF h'(2)] hash_rep_room [OF rep] fs by (auto simp: hash_ok_def)
qed

lemma mix_hash_delete_spec:
  assumes "hash_ok h"
  shows "\<exists>h'. mix_hash_delete h k = Some h' \<and> hash_ok h' \<and>
    hash_stack h' = (hash_stack h)(k := tl (hash_stack h k)) \<and> hash_room h \<le> hash_room h'"
proof -
  obtain fs bs where rep: "hash_rep h fs bs" using assms by (auto simp: hash_ok_def)
  let ?i = "key_bucket h k" and ?e = "entry (mh_store h)"
  have i: "?i < length bs" by (rule key_bucket_spec(2) [OF rep])
  show ?thesis
  proof (cases "\<exists>a \<in> set (bs ! ?i). fst (?e a) = k")
    case False
    let ?h = "h\<lparr>mh_nodes := (mh_nodes h)[?i := (mh_nodes h ! ?i)\<lparr>hn_len := hn_len (mh_nodes h ! ?i) - 1\<rparr>]\<rparr>"
    have run: "mix_hash_delete h k = Some ?h"
      by (rule mix_hash_delete_absent [OF rep refl]) (use False in blast)
    note upd = hash_rep_len_update [OF rep i refl, where n = "hn_len (mh_nodes h ! ?i) - 1"]
    have "versions k (map ?e (bs ! ?i)) = []" using False by (intro versions_none) auto
    then have "hash_stack h k = []" by (simp add: hash_rep_stack [OF rep])
    moreover have "hash_stack ?h = hash_stack h"
      using upd(2) key_bucket_spec(2) [OF rep] by (simp add: fun_eq_iff hash_stack_def key_bucket_def)
    ultimately show ?thesis using run upd by (intro exI [of _ ?h]) (auto simp: hash_ok_def fun_upd_idem)
  next
    case True
    then obtain pre c post where b: "bs ! ?i = pre @ c # post" "fst (?e c) = k"
        and pre: "\<forall>a \<in> set pre. fst (?e a) \<noteq> k"
      using split_list_first_prop [of "bs ! ?i" "\<lambda>a. fst (?e a) = k"] by blast
    have "\<exists>h' fs'. mix_hash_delete h k = Some h' \<and> hash_rep h' fs' (bs[?i := pre @ post]) \<and>
        length fs \<le> length fs' \<and> mh_size h' = mh_size h \<and>
        (\<forall>j < length bs. bucket h' j = (if j = ?i then map ?e (pre @ post) else bucket h j))"
    proof (cases "pre = []")
      case head: True
      show ?thesis
        using mix_hash_delete_head [OF rep refl, of k c post] b head
        by (metis append_Nil hash_rep_bucket [OF rep i] list.map_sel(2) list.sel(3) list.simps(3) order_refl)
    next
      case False
      show ?thesis
        using mix_hash_delete_inner [OF rep refl b False pre] by (metis impossible_Cons nat_le_linear)
    qed
    then obtain h' fs' where h': "mix_hash_delete h k = Some h'" "hash_rep h' fs' (bs[?i := pre @ post])"
        "length fs \<le> length fs'" "mh_size h' = mh_size h"
        "\<And>j. j < length bs \<Longrightarrow> bucket h' j = (if j = ?i then map ?e (pre @ post) else bucket h j)"
      by blast
    have "versions k (map ?e pre) = []" using pre by (intro versions_none) auto
    then have "hash_stack h' = (hash_stack h)(k := tl (hash_stack h k))"
      using hash_stack_change [OF rep h'(4,5)] b(2)
      by (auto simp: fun_eq_iff hash_stack_def hash_rep_bucket [OF rep i] b(1))
    then show ?thesis
      using h' hash_rep_room [OF h'(2)] hash_rep_room [OF rep] by (auto simp: hash_ok_def)
  qed
qed

interpretation index: stack_index mix_hash_put mix_hash_delete mix_hash_get hash_stack hash_room sint hash_ok
proof
  fix h k v assume "hash_ok h"
  then obtain fs bs where rep: "hash_rep h fs bs" by (auto simp: hash_ok_def)
  show "mix_hash_get h k = Some (case hash_stack h k of [] \<Rightarrow> - 1 | v # _ \<Rightarrow> sint v)"
    by (rule mix_hash_get_stack [OF rep])
  show "hash_room h = 0 \<Longrightarrow> mix_hash_put h k v = None"
    using rep hash_rep_room [OF rep] mix_hash_put_full [of h bs k v] by simp
qed (fact mix_hash_put_spec mix_hash_delete_spec)+

section \<open>A new table\<close>

lemma hash_pool_path:
  "mh_free h = None \<Longrightarrow> path (mh_store (hash_pool n h)) (mh_free (hash_pool n h)) (rev [0..<n])"
proof (induction n)
  case (Suc n)
  let ?h = "hash_pool n h"
  let ?s = "(mh_store ?h)(n \<mapsto> \<lparr>ln_key = -1, ln_value = -1, ln_next = mh_free ?h\<rparr>)"
  have "path ?s (mh_free ?h) (rev [0..<n])" using Suc by (simp add: path_update)
  then show ?case by (simp add: Let_def fun_upd_def)
qed simp

lemma hash_pool_frame [simp]:
  "mh_nodes (hash_pool n h) = mh_nodes h" "mh_size (hash_pool n h) = mh_size h"
  "mh_free_num (hash_pool n h) = mh_free_num h"
  by (induction n) (simp_all add: Let_def)

lemma mix_hash_init_rep:
  assumes "0 < sz" "sz < 2 ^ 31"
  obtains h where "mix_hash_init True True (int n) sz = Some h" "mh_size h = sz"
    "hash_rep h (rev [0..<n]) (replicate (nat sz) [])" "\<And>i. i < nat sz \<Longrightarrow> bucket h i = []"
    "\<And>i. i < nat sz \<Longrightarrow> hn_len (mh_nodes h ! i) = 0"
proof -
  define h0 where "h0 = \<lparr>mh_store = Map.empty, mh_nodes = replicate (nat sz) empty_hash_node,
    mh_size = sz, mh_free_num = int n, mh_free = None, mh_entry_idx = -1\<rparr>"
  let ?h = "hash_pool n h0"
  have run: "mix_hash_init True True (int n) sz = Some ?h" by (simp add: mix_hash_init_def h0_def)
  have rep: "hash_rep ?h (rev [0..<n]) (replicate (nat sz) [])"
    using assms hash_pool_path [of h0 n]
    by (simp add: hash_rep_def hash_shape_def hash_placed_def h0_def empty_hash_node_def)
  show thesis
  proof (rule that [OF run _ rep])
    show "bucket ?h i = []" if "i < nat sz" for i using that by (simp add: hash_rep_bucket [OF rep])
  qed (simp_all add: h0_def empty_hash_node_def)
qed

lemma mix_hash_init_ex:
  assumes "0 < sz" "sz < 2 ^ 31"
  shows "\<exists>h. mix_hash_init True True (int n) sz = Some h \<and> mh_size h = sz \<and>
    hash_rep h (rev [0..<n]) (replicate (nat sz) []) \<and>
    (\<forall>i < nat sz. bucket h i = [] \<and> hn_len (mh_nodes h ! i) = 0)"
  by (rule mix_hash_init_rep [OF assms, of n]) blast

lemma mix_hash_init_ok:
  assumes "0 < sz" "sz < 2 ^ 31"
  obtains h where "mix_hash_init True True (int n) sz = Some h" "hash_ok h" "hash_room h = n"
    "hash_stack h = (\<lambda>k. [])"
proof -
  obtain h where h: "mix_hash_init True True (int n) sz = Some h" "mh_size h = sz"
    "hash_rep h (rev [0..<n]) (replicate (nat sz) [])" "\<And>i. i < nat sz \<Longrightarrow> bucket h i = []"
    using mix_hash_init_rep [OF assms] by metis
  then have "hash_stack h = (\<lambda>k. [])" using key_bucket_spec(2) [OF h(3)] by (simp add: hash_stack_def fun_eq_iff)
  then show thesis using that h hash_rep_room [OF h(3)] by (auto simp: hash_ok_def)
qed

section \<open>Draining a bucket\<close>

text \<open>The length field counts the nodes of the bucket as long as only stored keys are deleted.\<close>

definition hash_len_ok :: "mix_hash \<Rightarrow> bool" where
  "hash_len_ok h \<longleftrightarrow> (\<forall>i < length (mh_nodes h). hn_len (mh_nodes h ! i) = int (length (bucket h i)))"

lemma mix_hash_put_len:
  assumes "hash_ok h" "hash_len_ok h" "mix_hash_put h k v = Some h'"
  shows "hash_len_ok h'"
proof -
  obtain fs bs where rep: "hash_rep h fs bs" using assms(1) by (auto simp: hash_ok_def)
  then obtain a fs' where fs: "fs = a # fs'" using mix_hash_put_full assms(3) by (cases fs) auto
  let ?i = "key_bucket h k"
  have "mh_nodes h' = (mh_nodes h)[?i := (mh_nodes h ! ?i)\<lparr>hn_list := Some a, hn_len := hn_len (mh_nodes h ! ?i) + 1\<rparr>]"
    "\<And>j. j < length bs \<Longrightarrow> bucket h' j = (if j = ?i then (k, v) # bucket h ?i else bucket h j)"
    using mix_hash_put_rep [OF rep [unfolded fs] refl, of k v] assms(3) by (metis option.inject)+
  then show ?thesis using assms(2) hash_rep_length [OF rep] by (auto simp: hash_len_ok_def nth_list_update)
qed

lemma mix_hash_delete_len:
  assumes "hash_ok h" "hash_len_ok h" "hash_stack h k \<noteq> []" "mix_hash_delete h k = Some h'"
  shows "hash_len_ok h'"
proof -
  obtain fs bs where rep: "hash_rep h fs bs" using assms(1) by (auto simp: hash_ok_def)
  let ?i = "key_bucket h k" and ?e = "entry (mh_store h)"
  have i: "?i < length bs" by (rule key_bucket_spec(2) [OF rep])
  have "\<exists>a \<in> set (bs ! ?i). fst (?e a) = k"
  proof (rule ccontr)
    assume "\<not> ?thesis"
    then have "versions k (map ?e (bs ! ?i)) = []" by (intro versions_none) auto
    then show False using assms(3) hash_rep_stack [OF rep] by simp
  qed
  then obtain pre c post where b: "bs ! ?i = pre @ c # post" "fst (?e c) = k"
      and pre: "\<forall>a \<in> set pre. fst (?e a) \<noteq> k"
    using split_list_first_prop [of "bs ! ?i" "\<lambda>a. fst (?e a) = k"] by blast
  have "\<exists>n. mh_nodes h' = (mh_nodes h)[?i := n] \<and> hn_len n = hn_len (mh_nodes h ! ?i) - 1 \<and>
      length (bucket h' ?i) = length (bs ! ?i) - 1 \<and> (\<forall>j < length bs. j \<noteq> ?i \<longrightarrow> bucket h' j = bucket h j)"
  proof (cases "pre = []")
    case True
    with b have b': "bs ! ?i = c # post" by simp
    from mix_hash_delete_head [OF rep refl b' b(2)] obtain h1 where "mix_hash_delete h k = Some h1"
      "mh_nodes h1 = (mh_nodes h)[?i := (mh_nodes h ! ?i)
         \<lparr>hn_list := chain_head post, hn_len := hn_len (mh_nodes h ! ?i) - 1\<rparr>]"
      "\<And>j. j < length bs \<Longrightarrow> bucket h1 j = (if j = ?i then tl (bucket h ?i) else bucket h j)" by metis
    with assms(4) i show ?thesis by (auto simp: hash_rep_bucket [OF rep i])
  next
    case False
    from mix_hash_delete_inner [OF rep refl b False pre] obtain h1 where "mix_hash_delete h k = Some h1"
      "mh_nodes h1 = (mh_nodes h)[?i := (mh_nodes h ! ?i)\<lparr>hn_len := hn_len (mh_nodes h ! ?i) - 1\<rparr>]"
      "\<And>j. j < length bs \<Longrightarrow> bucket h1 j = (if j = ?i then map ?e (pre @ post) else bucket h j)" by metis
    with assms(4) i show ?thesis by (auto simp: hash_rep_bucket [OF rep i] b)
  qed
  then show ?thesis
    using assms(2) hash_rep_length [OF rep] i b(1)
    by (auto simp: hash_len_ok_def nth_list_update hash_rep_bucket [OF rep i])
qed

definition kv_of :: "u32 \<times> u32 \<Rightarrow> mix_kv" where
  "kv_of e = \<lparr>kv_key = fst e, kv_value = snd e\<rparr>"

lemma get_entry_rep:
  assumes rep: "hash_rep h fs bs" and i: "i < length bs" and b: "bs ! i = a # as"
    and pos: "0 < hn_len (mh_nodes h ! i)"
  obtains h' where "mix_hash_get_entry_by_idx h (int i) = Some (h', kv_of (hd (bucket h i)))"
    "hash_rep h' (a # fs) (bs[i := as])" "mh_size h' = mh_size h"
    "mh_nodes h' = (mh_nodes h)[i := (mh_nodes h ! i)
       \<lparr>hn_list := chain_head as, hn_len := hn_len (mh_nodes h ! i) - 1\<rparr>]"
    "\<And>j. j < length bs \<Longrightarrow> bucket h' j = (if j = i then tl (bucket h i) else bucket h j)"
proof -
  have len: "length (mh_nodes h) = length bs" using hash_rep_length [OF rep] by simp
  note lst = hash_rep_list [OF rep i b]
  obtain n where n: "hn_list (mh_nodes h ! i) = Some a" "mh_store h a = Some n"
      "path (mh_store h) (ln_next n) as"
    using lst(1) by (auto split: option.splits)
  then have nx: "ln_next n = chain_head as" by (auto dest: path_head)
  let ?node = "(mh_nodes h ! i)\<lparr>hn_list := chain_head as, hn_len := hn_len (mh_nodes h ! i) - 1\<rparr>"
  let ?s = "(mh_store h)(a \<mapsto> \<lparr>ln_key = -1, ln_value = -1, ln_next = mh_free h\<rparr>)"
  define h' where "h' = h\<lparr>mh_store := ?s, mh_free := Some a, mh_free_num := mh_free_num h + 1,
    mh_nodes := (mh_nodes h)[i := ?node]\<rparr>"
  have run: "mix_hash_get_entry_by_idx h (int i) = Some (h', kv_of (hd (bucket h i)))"
    using i len pos by (simp add: mix_hash_get_entry_by_idx_def mix_hash_node_free_def set_bucket_int
        n nx h'_def kv_of_def hash_rep_bucket [OF rep i] b entry_alloc)
  have a: "a \<notin> set as" "a \<notin> set fs" using lst by auto
  have "hash_rep h' (a # fs) (bs[i := as]) \<and>
      (\<forall>j < length bs. bucket h' j = (if j = i then map (entry (mh_store h')) as else bucket h j))"
  proof (rule hash_rep_move [OF rep i])
    show "path (mh_store h') (mh_free h') (a # fs)"
      using a hash_rep_free(1) [OF rep] by (simp add: h'_def path_update)
    show "path (mh_store h') (hn_list ?node) as" using a n nx by (simp add: h'_def path_update)
    show "path (mh_store h') p (bs ! j)" if "j < length bs" "j \<noteq> i" "path (mh_store h) p (bs ! j)" for j p
      using that hash_rep_other [OF rep i that(1,2), of a] b by (simp add: h'_def path_update)
    show "entry (mh_store h') c = entry (mh_store h) c" if "j < length bs" "j \<noteq> i" "c \<in> set (bs ! j)" for j c
      using that hash_rep_other [OF rep i that(1,2), of a] b
      by (simp add: h'_def) (metis entry_update list.set_intros(1))
    show "mix_hash_hash (fst (entry (mh_store h') c)) (mh_size h) = Some (int i)" if "c \<in> set as" for c
      using that a hash_rep_placed [OF rep i, of c] b
      by (simp add: h'_def) (metis entry_update)
  qed (use hash_rep_free [OF rep] lst a b in \<open>auto simp: h'_def\<close>)
  moreover have "map (entry (mh_store h')) as = tl (bucket h i)"
    using a by (simp add: h'_def hash_rep_bucket [OF rep i] b map_entry_update)
  ultimately show thesis using that [OF run] by (simp add: h'_def)
qed

lemma get_entry_empty:
  assumes "i < length (mh_nodes h)" "hn_len (mh_nodes h ! i) \<le> 0"
  shows "mix_hash_get_entry_by_idx h (int i) = Some (h, kv_of (-1, -1))"
  using assms by (simp add: mix_hash_get_entry_by_idx_def kv_of_def)

text \<open>On a table with correct lengths: the head of the bucket is handed out and its node is free
  again, other buckets are not touched.\<close>

lemma get_entry_spec:
  assumes "hash_ok h" "hash_len_ok h" "i < length (mh_nodes h)" "bucket h i = e # es"
  shows "\<exists>h'. mix_hash_get_entry_by_idx h (int i) = Some (h', kv_of e) \<and> hash_ok h' \<and> hash_len_ok h' \<and>
    mh_size h' = mh_size h \<and> length (mh_nodes h') = length (mh_nodes h) \<and>
    hash_room h' = Suc (hash_room h) \<and>
    (\<forall>j < length (mh_nodes h). bucket h' j = (if j = i then es else bucket h j))"
proof -
  obtain fs bs where rep: "hash_rep h fs bs" using assms(1) by (auto simp: hash_ok_def)
  have i: "i < length bs" and len: "length (mh_nodes h) = length bs"
    using hash_rep_length [OF rep] assms(3) by simp_all
  obtain a as where b: "bs ! i = a # as"
    using assms(4) hash_rep_bucket [OF rep i] by (cases "bs ! i") auto
  have pos: "0 < hn_len (mh_nodes h ! i)" using assms by (simp add: hash_len_ok_def)
  obtain h' where h': "mix_hash_get_entry_by_idx h (int i) = Some (h', kv_of (hd (bucket h i)))"
    "hash_rep h' (a # fs) (bs[i := as])" "mh_size h' = mh_size h"
    "mh_nodes h' = (mh_nodes h)[i := (mh_nodes h ! i)
       \<lparr>hn_list := chain_head as, hn_len := hn_len (mh_nodes h ! i) - 1\<rparr>]"
    "\<And>j. j < length bs \<Longrightarrow> bucket h' j = (if j = i then tl (bucket h i) else bucket h j)"
    using get_entry_rep [OF rep i b pos] by metis
  then have "hash_len_ok h'" using assms(2,4) len by (auto simp: hash_len_ok_def nth_list_update)
  then show ?thesis
    using h' assms(4) len hash_rep_room [OF h'(2)] hash_rep_room [OF rep] by (auto simp: hash_ok_def)
qed

section \<open>Releasing the table\<close>

definition release_nodes :: "addr set \<Rightarrow> store \<Rightarrow> store" where
  "release_nodes A s = (\<lambda>a. if a \<in> A then None else s a)"

lemma release_nodes_path: "A \<inter> set as = {} \<Longrightarrow> path (release_nodes A s) p as \<longleftrightarrow> path s p as"
  by (induction as arbitrary: p) (auto simp: release_nodes_def split: option.splits)

lemma free_chain_path:
  "path s p as \<Longrightarrow> distinct as \<Longrightarrow> free_chain s p = Some (release_nodes (set as) s)"
proof (induction as arbitrary: s p)
  case Nil
  then show ?case by (subst free_chain.simps) (simp add: release_nodes_def)
next
  case (Cons a as)
  then obtain n where n: "p = Some a" "s a = Some n" "path s (ln_next n) as"
    by (auto split: option.splits)
  have "path (s(a := None)) (ln_next n) as" using n(3) Cons.prems(2) by (simp add: path_update)
  then have "free_chain (s(a := None)) (ln_next n) = Some (release_nodes (set as) (s(a := None)))"
    by (rule Cons.IH) (use Cons.prems(2) in simp)
  moreover have "release_nodes (set as) (s(a := None)) = release_nodes (set (a # as)) s"
    by (auto simp: release_nodes_def fun_eq_iff)
  ultimately show ?case by (subst free_chain.simps) (simp add: n)
qed

lemma free_buckets_lists:
  assumes "length bs = length nodes"
    and "\<And>i. i < length bs \<Longrightarrow> path s (hn_list (nodes ! i)) (bs ! i) \<and> distinct (bs ! i)"
    and "\<And>i j. i < length bs \<Longrightarrow> j < length bs \<Longrightarrow> i \<noteq> j \<Longrightarrow> set (bs ! i) \<inter> set (bs ! j) = {}"
  shows "free_buckets s nodes = Some (release_nodes (\<Union> (set ` set bs)) s)"
  using assms
proof (induction nodes arbitrary: bs s)
  case Nil
  then show ?case by (simp add: release_nodes_def)
next
  case (Cons node nodes)
  then obtain b bs' where bs: "bs = b # bs'" by (cases bs) auto
  have first: "path s (hn_list node) b" "distinct b" using Cons.prems(2) [of 0] by (simp_all add: bs)
  have disj: "set b \<inter> set (bs' ! i) = {}" if "i < length bs'" for i
    using Cons.prems(3) [of 0 "Suc i"] that by (simp add: bs)
  have "free_buckets (release_nodes (set b) s) nodes =
      Some (release_nodes (\<Union> (set ` set bs')) (release_nodes (set b) s))"
  proof (rule Cons.IH)
    show "length bs' = length nodes" using Cons.prems(1) by (simp add: bs)
    show "path (release_nodes (set b) s) (hn_list (nodes ! i)) (bs' ! i) \<and> distinct (bs' ! i)"
      if "i < length bs'" for i
      using Cons.prems(2) [of "Suc i"] that disj [OF that] by (simp add: bs release_nodes_path)
    show "set (bs' ! i) \<inter> set (bs' ! j) = {}" if "i < length bs'" "j < length bs'" "i \<noteq> j" for i j
      using Cons.prems(3) [of "Suc i" "Suc j"] that by (simp add: bs)
  qed
  moreover have "release_nodes (\<Union> (set ` set bs')) (release_nodes (set b) s) =
      release_nodes (\<Union> (set ` set bs)) s"
    by (auto simp: release_nodes_def fun_eq_iff bs)
  ultimately show ?case by (simp add: free_chain_path [OF first])
qed

lemma mix_hash_free_rep:
  assumes rep: "hash_rep h fs bs"
  shows "mix_hash_free h = Some (release_nodes (\<Union> (set ` set bs)) (mh_store h))"
proof -
  have "length bs = length (mh_nodes h)" using hash_rep_length [OF rep] by simp
  then have "free_buckets (mh_store h) (mh_nodes h) = Some (release_nodes (\<Union> (set ` set bs)) (mh_store h))"
    by (rule free_buckets_lists) (use rep in \<open>auto simp: hash_rep_def hash_shape_def\<close>)
  then show ?thesis using hash_rep_length [OF rep] by (simp add: mix_hash_free_def)
qed

section \<open>Consequences for the callers\<close>

text \<open>Deleting the newest value of a key right after it was put: the entry is gone, but its node is
  lost for the pool.\<close>

lemma put_delete_leaks:
  assumes "hash_ok h" "0 < hash_room h"
  shows "\<exists>h1 h2. mix_hash_put h k v = Some h1 \<and> mix_hash_delete h1 k = Some h2 \<and> hash_ok h2 \<and>
    hash_stack h2 = hash_stack h \<and> Suc (hash_room h2) = hash_room h"
proof -
  obtain fs bs where rep: "hash_rep h fs bs" using assms(1) by (auto simp: hash_ok_def)
  then obtain a fs' where fs: "fs = a # fs'" using assms(2) hash_rep_room [OF rep] by (cases fs) auto
  let ?i = "key_bucket h k"
  have i: "?i < length bs" by (rule key_bucket_spec(2) [OF rep])
  obtain h1 where h1: "mix_hash_put h k v = Some h1" "hash_rep h1 fs' (bs[?i := a # bs ! ?i])"
      "mh_size h1 = mh_size h"
      "\<And>j. j < length bs \<Longrightarrow> bucket h1 j = (if j = ?i then (k, v) # bucket h ?i else bucket h j)"
    using mix_hash_put_rep [OF rep [unfolded fs] refl, of k v] by metis
  have kb: "?i = key_bucket h1 k" by (simp add: key_bucket_def h1)
  have b1: "bs[?i := a # bs ! ?i] ! ?i = a # bs ! ?i" using i by simp
  have "bucket h1 ?i = map (entry (mh_store h1)) (a # bs ! ?i)"
    using hash_rep_bucket [OF h1(2)] i by simp
  then have ke: "fst (entry (mh_store h1) a) = k" using h1(4) [OF i] by (cases "entry (mh_store h1) a") auto
  obtain h2 where h2: "mix_hash_delete h1 k = Some h2" "hash_rep h2 fs' (bs[?i := a # bs ! ?i, ?i := bs ! ?i])"
      "mh_size h2 = mh_size h1"
      "\<And>j. j < length bs \<Longrightarrow> bucket h2 j = (if j = ?i then tl (bucket h1 ?i) else bucket h1 j)"
    using mix_hash_delete_head [OF h1(2) kb b1 ke] by (metis length_list_update)
  have "hash_stack h2 = hash_stack h"
    using h1(3,4) h2(3,4) i key_bucket_spec(2) [OF rep]
    by (auto simp: fun_eq_iff hash_stack_def key_bucket_def)
  then show ?thesis
    using h1 h2 hash_rep_room [OF h2(2)] hash_rep_room [OF rep] fs by (auto simp: hash_ok_def)
qed

lemma put_delete_exhausts:
  "hash_ok h \<Longrightarrow> n = hash_room h \<Longrightarrow>
     \<exists>h'. index_run mix_hash_put mix_hash_delete (concat (replicate n [Put k v, Delete k])) h = Some h' \<and>
       hash_ok h' \<and> hash_stack h' = hash_stack h \<and> (\<forall>k' v'. mix_hash_put h' k' v' = None)"
proof (induction n arbitrary: h)
  case 0
  then show ?case using index.put_full [of h] by simp
next
  case (Suc n)
  then obtain h1 h2 where h: "mix_hash_put h k v = Some h1" "mix_hash_delete h1 k = Some h2"
      "hash_ok h2" "hash_stack h2 = hash_stack h" "n = hash_room h2"
    using put_delete_leaks [of h k v] by auto
  from Suc.IH [OF h(3,5)] h show ?case by simp
qed

text \<open>The bucket that \<open>mix_hash_has_key\<close> reads lies behind the end of the table.\<close>

lemma has_key_outside: "hash_ok h \<Longrightarrow> mix_hash_has_key h k = None"
  by (auto simp: hash_ok_def hash_rep_def mix_hash_has_key_def arr_get_def Let_def)

text \<open>Deleting a key that is not stored makes the length of its bucket one too small: the last
  entry of the bucket is then never handed out by \<open>mix_hash_get_entry_by_idx\<close>.\<close>

lemma delete_absent_hides:
  assumes "hash_ok h" "hash_len_ok h" "hash_stack h k = []"
    and "bucket h (key_bucket h k) = [e]"
  shows "\<exists>h'. mix_hash_delete h k = Some h' \<and> bucket h' (key_bucket h k) = [e] \<and>
    mix_hash_get_entry_by_idx h' (int (key_bucket h k)) = Some (h', kv_of (-1, -1))"
proof -
  obtain fs bs where rep: "hash_rep h fs bs" using assms(1) by (auto simp: hash_ok_def)
  let ?i = "key_bucket h k"
  have i: "?i < length bs" by (rule key_bucket_spec(2) [OF rep])
  have absent: "\<forall>a \<in> set (bs ! ?i). fst (entry (mh_store h) a) \<noteq> k"
    using assms(3) by (auto simp: hash_rep_stack [OF rep] versions_def filter_empty_conv)
  define h' where "h' = h\<lparr>mh_nodes := (mh_nodes h)[?i := (mh_nodes h ! ?i)\<lparr>hn_len := hn_len (mh_nodes h ! ?i) - 1\<rparr>]\<rparr>"
  have len: "?i < length (mh_nodes h)" using i hash_rep_length [OF rep] by simp
  have "mix_hash_delete h k = Some h'"
    unfolding h'_def by (rule mix_hash_delete_absent [OF rep refl absent])
  moreover have "bucket h' ?i = [e]" using hash_rep_len_update(2) [OF rep i h'_def i] assms(4) by simp
  moreover have "hn_len (mh_nodes h' ! ?i) \<le> 0" using assms(2,4) len by (simp add: h'_def hash_len_ok_def)
  ultimately show ?thesis using get_entry_empty [of ?i h'] len by (simp add: h'_def)
qed

section \<open>Properties\<close>

text \<open>C31. The table driven checksum is the bitwise division by the reflected CRC-32 polynomial
  \<open>0xEDB88320\<close>, for every string: all 256 constants of the table are right.\<close>

theorem crc32_is_polynomial_division: "crc32 s = crc32_bitwise s"
  by (rule crc32_eq_bitwise)

text \<open>For every key and every positive table size the hash function returns a bucket inside the
  table, and the printed key with its terminating zero fits the 20 bytes of \<open>keystring\<close>.\<close>

theorem hash_function_in_range:
  assumes "0 < hash_size" "hash_size < 2 ^ 31"
  shows "\<exists>r. mix_hash_hash key hash_size = Some r \<and> 0 \<le> r \<and> r < hash_size \<and>
    length (print_int (sint key)) + 1 \<le> 20"
proof -
  have "- (2 ^ 31) \<le> sint key" "sint key < 2 ^ 31"
    using sint_greater_eq [of key] sint_less [of key] by simp_all
  then have "length (print_int (sint key)) \<le> 11" by (rule length_print_int)
  then show ?thesis using mix_hash_hash_range [OF assms, of key] by auto
qed

theorem hash_function_in_range_witness:
  "\<exists>r. mix_hash_hash 4294967295 100 = Some r \<and> 0 \<le> r \<and> r < 100 \<and>
    length (print_int (sint (4294967295 :: u32))) + 1 \<le> 20"
  using hash_function_in_range [of 100 4294967295] by simp

text \<open>C27. The table refines a family of stacks: from a new table with a pool of \<open>n\<close> nodes, every
  sequence of puts and deletes with at most \<open>n\<close> puts runs to its end, and afterwards a lookup
  returns for every key the value on top of the stack that the abstract operations build, or
  \<open>-1\<close> when that stack is empty.\<close>

theorem hash_table_refines_stacks:
  assumes "0 < sz" "sz < 2 ^ 31" "puts ops \<le> n"
  shows "\<exists>h h'. mix_hash_init True True (int n) sz = Some h \<and>
    index_run mix_hash_put mix_hash_delete ops h = Some h' \<and>
    (\<forall>k. mix_hash_get h' k =
       Some (case fold stack_step ops (\<lambda>_. []) k of [] \<Rightarrow> -1 | v # _ \<Rightarrow> sint v))"
proof -
  obtain h where h: "mix_hash_init True True (int n) sz = Some h" "hash_ok h" "hash_room h = n"
      "hash_stack h = (\<lambda>k. [])"
    using mix_hash_init_ok [OF assms(1,2)] by metis
  then obtain h' where "index_run mix_hash_put mix_hash_delete ops h = Some h'" "hash_ok h'"
      "hash_stack h' = fold stack_step ops (\<lambda>k. [])"
    using index.run_refines [OF h(2), of ops] assms(3) by auto
  then show ?thesis using h(1) index.get_spec by metis
qed

theorem hash_table_refines_stacks_witness:
  "\<exists>h h'. mix_hash_init True True (int 2) 100 = Some h \<and>
    index_run mix_hash_put mix_hash_delete [Put 5 7, Put 5 8, Delete 5, Delete 9] h = Some h' \<and>
    mix_hash_get h' 5 = Some 7 \<and> mix_hash_get h' 9 = Some (-1)"
proof -
  let ?ops = "[Put 5 7, Put 5 8, Delete 5, Delete 9] :: (u32, u32) index_op list"
  obtain h h' where h: "mix_hash_init True True (int 2) 100 = Some h"
      "index_run mix_hash_put mix_hash_delete ?ops h = Some h'"
      "\<forall>k. mix_hash_get h' k =
         Some (case fold stack_step ?ops (\<lambda>_. []) k of [] \<Rightarrow> -1 | v # _ \<Rightarrow> sint v)"
    using hash_table_refines_stacks [of 100 ?ops 2] by auto
  have "mix_hash_get h' 5 = Some 7" "mix_hash_get h' 9 = Some (-1)"
    using h(3) [rule_format, of 5] h(3) [rule_format, of 9] by simp_all
  then show ?thesis using h(1,2) by blast
qed

text \<open>C36. The node of an entry at the head of its bucket is lost when the entry is deleted: after
  \<open>n\<close> pairs of put and delete of one key on a new table with \<open>n\<close> nodes the table is empty again, yet
  every further put aborts.\<close>

theorem put_delete_exhausts_pool:
  assumes "0 < sz" "sz < 2 ^ 31"
  shows "\<exists>h h'. mix_hash_init True True (int n) sz = Some h \<and>
    index_run mix_hash_put mix_hash_delete (concat (replicate n [Put k v, Delete k])) h = Some h' \<and>
    (\<forall>k'. mix_hash_get h' k' = Some (-1)) \<and> (\<forall>k' v'. mix_hash_put h' k' v' = None)"
proof -
  obtain h where h: "mix_hash_init True True (int n) sz = Some h" "hash_ok h" "hash_room h = n"
      "hash_stack h = (\<lambda>k. [])"
    using mix_hash_init_ok [OF assms] by metis
  then obtain h' where "index_run mix_hash_put mix_hash_delete (concat (replicate n [Put k v, Delete k])) h = Some h'"
      "hash_ok h'" "hash_stack h' = hash_stack h" "\<forall>k' v'. mix_hash_put h' k' v' = None"
    using put_delete_exhausts [OF h(2), of n k v] by auto
  then show ?thesis using h(1,4) index.get_spec by auto
qed

theorem put_delete_exhausts_pool_witness:
  "\<exists>h h'. mix_hash_init True True (int 512) 100 = Some h \<and>
    index_run mix_hash_put mix_hash_delete (concat (replicate 512 [Put 3 4, Delete 3])) h = Some h' \<and>
    (\<forall>k'. mix_hash_get h' k' = Some (-1)) \<and> (\<forall>k' v'. mix_hash_put h' k' v' = None)"
  using put_delete_exhausts_pool [of 100 512 3 4] by simp

text \<open>On a table whose length fields are right, \<open>mix_hash_get_entry_by_idx\<close> hands out the newest
  entry of the bucket, removes it from the table, returns its node to the pool and touches no
  other bucket.\<close>

theorem entry_by_idx_pops_bucket:
  assumes "hash_ok h" "hash_len_ok h" "i < length (mh_nodes h)" "bucket h i = e # es"
  shows "\<exists>h'. mix_hash_get_entry_by_idx h (int i) = Some (h', \<lparr>kv_key = fst e, kv_value = snd e\<rparr>) \<and>
    hash_ok h' \<and> hash_len_ok h' \<and> hash_room h' = Suc (hash_room h) \<and>
    (\<forall>j < length (mh_nodes h). bucket h' j = (if j = i then es else bucket h j))"
  using get_entry_spec [OF assms] by (auto simp: kv_of_def)

text \<open>A table with one entry, for the examples.\<close>

lemma one_entry_table:
  assumes "0 < sz" "sz < 2 ^ 31"
  shows "\<exists>h. hash_ok h \<and> hash_len_ok h \<and> mh_size h = sz \<and> key_bucket h 5 < length (mh_nodes h) \<and>
    bucket h (key_bucket h 5) = [(5, 7)] \<and> length (mh_nodes h) = nat sz"
proof -
  obtain h0 bs where h0: "mh_size h0 = sz" "hash_rep h0 [0] bs" "\<forall>i < nat sz. bucket h0 i = [] \<and> hn_len (mh_nodes h0 ! i) = 0"
    using mix_hash_init_ex [OF assms, of 1] by (auto simp: upt_rec)
  have len: "length bs = nat sz" "length (mh_nodes h0) = nat sz" using hash_rep_length [OF h0(2)] h0(1) by simp_all
  have len0: "hash_len_ok h0" using h0(3) len by (simp add: hash_len_ok_def)
  let ?i = "key_bucket h0 5"
  have i: "?i < nat sz" using key_bucket_spec(2) [OF h0(2), of 5] len by simp
  obtain h where h: "mix_hash_put h0 5 7 = Some h" "hash_rep h [] (bs[?i := 0 # bs ! ?i])" "mh_size h = mh_size h0"
    "\<And>j. j < length bs \<Longrightarrow> bucket h j = (if j = ?i then (5, 7) # bucket h0 ?i else bucket h0 j)"
    by (rule mix_hash_put_rep [OF h0(2) refl, of 5 7]) blast
  have "key_bucket h 5 = ?i" using h(3) by (simp add: key_bucket_def)
  moreover have "hash_len_ok h" using mix_hash_put_len [OF _ len0 h(1)] h0(2) by (auto simp: hash_ok_def)
  moreover have "length (mh_nodes h) = nat sz" using hash_rep_length [OF h(2)] len by simp
  moreover have "bucket h ?i = [(5, 7)]" using h(4) [of ?i] h0(3) i len by simp
  ultimately show ?thesis using h(2,3) h0(1) i by (intro exI [of _ h]) (auto simp: hash_ok_def)
qed

theorem entry_by_idx_pops_bucket_witness:
  "\<exists>h i h'. mix_hash_get_entry_by_idx h (int i) = Some (h', \<lparr>kv_key = 5, kv_value = 7\<rparr>) \<and>
    hash_ok h' \<and> hash_len_ok h' \<and> hash_room h' = Suc (hash_room h) \<and> bucket h' i = []"
proof -
  obtain h where h: "hash_ok h" "hash_len_ok h" "key_bucket h 5 < length (mh_nodes h)"
      "bucket h (key_bucket h 5) = [(5, 7)]"
    using one_entry_table [of 100] by auto
  obtain h' where "mix_hash_get_entry_by_idx h (int (key_bucket h 5)) = Some (h', \<lparr>kv_key = 5, kv_value = 7\<rparr>)"
      "hash_ok h'" "hash_len_ok h'" "hash_room h' = Suc (hash_room h)" "bucket h' (key_bucket h 5) = []"
    using entry_by_idx_pops_bucket [OF h] h(3) by auto
  then show ?thesis by blast
qed

text \<open>\<open>mix_hash_has_key\<close> never returns for a well-formed table: the comma expression selects the
  bucket with number \<open>hash_size\<close>, which lies behind the end of the array.\<close>

lemma has_key_reads_outside:
  assumes "hash_ok h"
  shows "mix_hash_has_key h k = None"
  using has_key_outside [OF assms] .

text \<open>Deleting a key that is not stored decrements the length of its bucket all the same: the only
  entry of that bucket stays in the table, but \<open>mix_hash_get_entry_by_idx\<close> no longer hands it
  out.\<close>

lemma delete_absent_hides_entry:
  assumes "hash_ok h" "hash_len_ok h" "hash_stack h k = []" "bucket h (key_bucket h k) = [e]"
  shows "\<exists>h'. mix_hash_delete h k = Some h' \<and> bucket h' (key_bucket h k) = [e] \<and>
    mix_hash_get_entry_by_idx h' (int (key_bucket h k)) = Some (h', \<lparr>kv_key = -1, kv_value = -1\<rparr>)"
  using delete_absent_hides [OF assms] by (simp add: kv_of_def)

text \<open>\<open>mix_hash_free\<close> releases exactly the nodes of the buckets, each of them once; the nodes of
  the pool are still allocated afterwards.\<close>

lemma hash_free_releases_buckets:
  assumes "hash_rep h fs bs"
  shows "\<exists>s. mix_hash_free h = Some s \<and> (\<forall>b \<in> set bs. \<forall>a \<in> set b. s a = None) \<and>
    (\<forall>a \<in> set fs. \<exists>n. s a = Some n)"
proof -
  have "set fs \<inter> \<Union> (set ` set bs) = {}"
    using assms unfolding hash_rep_def hash_shape_def by (fastforce simp: in_set_conv_nth)
  moreover have "\<exists>n. mh_store h a = Some n" if "a \<in> set fs" for a
    using path_allocated [OF hash_rep_free(1) [OF assms] that] .
  ultimately show ?thesis using mix_hash_free_rep [OF assms] by (auto simp: release_nodes_def)
qed

end
