(* ===== verification/Membership_Spec.thy ===== *)
theory Membership_Spec
  imports Prelude "HOL-Library.Multiset"
begin

text \<open>
  The contract of an approximate membership filter with removal: the filter represents a multiset
  of keys; an add and the removal of a key that was added succeed and follow the multiset as long
  as no counter overflows; a test never denies a key that is represented.
\<close>

datatype 'k filter_op = Add 'k | Remove 'k

text \<open>The multiset after a sequence of operations; \<open>None\<close> when a key is removed that is not in it,
  or added where a counter would overflow.\<close>

fun filter_keys ::
    "('k multiset \<Rightarrow> 'k \<Rightarrow> bool) \<Rightarrow> 'k filter_op list \<Rightarrow> 'k multiset \<Rightarrow> 'k multiset option" where
  "filter_keys room [] M = Some M"
| "filter_keys room (Add k # ops) M = (if room M k then filter_keys room ops (add_mset k M) else None)"
| "filter_keys room (Remove k # ops) M = (if k \<in># M then filter_keys room ops (M - {#k#}) else None)"

fun filter_run ::
    "('f \<Rightarrow> 'k \<Rightarrow> 'f option) \<Rightarrow> ('f \<Rightarrow> 'k \<Rightarrow> 'f option) \<Rightarrow> 'k filter_op list \<Rightarrow> 'f \<Rightarrow> 'f option" where
  "filter_run add remove [] f = Some f"
| "filter_run add remove (Add k # ops) f = add f k \<bind> filter_run add remove ops"
| "filter_run add remove (Remove k # ops) f = remove f k \<bind> filter_run add remove ops"

locale membership_filter =
  fixes add :: "'f \<Rightarrow> 'k \<Rightarrow> 'f option"
    and remove :: "'f \<Rightarrow> 'k \<Rightarrow> 'f option"
    and test :: "'f \<Rightarrow> 'k \<Rightarrow> ('f \<times> int) option"
    and keeps :: "'f \<Rightarrow> 'k multiset \<Rightarrow> bool"
    and room :: "'k multiset \<Rightarrow> 'k \<Rightarrow> bool"
  assumes add_spec: "keeps f M \<Longrightarrow> room M k \<Longrightarrow>
      \<exists>f'. add f k = Some f' \<and> keeps f' (add_mset k M)"
    and remove_spec: "keeps f M \<Longrightarrow> k \<in># M \<Longrightarrow>
      \<exists>f'. remove f k = Some f' \<and> keeps f' (M - {#k#})"
    and test_spec: "keeps f M \<Longrightarrow>
      \<exists>f' r. test f k = Some (f', r) \<and> keeps f' M \<and> (r = 0 \<or> r = 1) \<and> (k \<in># M \<longrightarrow> r = 1)"
begin

lemma run_keeps:
  assumes "keeps f M" "filter_keys room ops M = Some M'"
  shows "\<exists>f'. filter_run add remove ops f = Some f' \<and> keeps f' M'"
  using assms
proof (induction ops arbitrary: f M)
  case Nil
  then show ?case by simp
next
  case (Cons op ops)
  show ?case
  proof (cases op)
    case (Add k)
    then have r: "room M k" "filter_keys room ops (add_mset k M) = Some M'"
      using Cons.prems(2) by (simp_all split: if_splits)
    obtain f1 where "add f k = Some f1" "keeps f1 (add_mset k M)"
      using add_spec [OF Cons.prems(1) r(1)] by blast
    then show ?thesis using Cons.IH r(2) Add by simp
  next
    case (Remove k)
    then have r: "k \<in># M" "filter_keys room ops (M - {#k#}) = Some M'"
      using Cons.prems(2) by (simp_all split: if_splits)
    obtain f1 where "remove f k = Some f1" "keeps f1 (M - {#k#})"
      using remove_spec [OF Cons.prems(1) r(1)] by blast
    then show ?thesis using Cons.IH r(2) Remove by simp
  qed
qed

text \<open>Whatever was added and not removed is reported as present.\<close>

lemma run_no_false_negative:
  assumes "keeps f M" "filter_keys room ops M = Some M'" "k \<in># M'"
  shows "\<exists>f' f''. filter_run add remove ops f = Some f' \<and> test f' k = Some (f'', 1)"
  using run_keeps [OF assms(1,2)] test_spec assms(3) by metis

end

end
