(* ===== verification/Mix_Bloom.thy ===== *)
theory Mix_Bloom
  imports Mix_Bitmap Mix_Hash Membership_Spec
begin

text \<open>
  The counting bloom filter of \<open>src/src/mix_bloom_filter.c\<close>: the 128-bit Murmur hash of the
  printed key, the derived hash functions, and add, remove and test over the 4-bit counters of a
  bitmap. The first 16 bytes of the bitmap's array are the filter's header.
\<close>

section \<open>MurmurHash3\<close>

definition rotl64 :: "u64 \<Rightarrow> nat \<Rightarrow> u64" where
  "rotl64 x r = push_bit r x OR drop_bit (64 - r) x"

definition fmix64 :: "u64 \<Rightarrow> u64" where
  "fmix64 k =
     (let k = k XOR drop_bit 33 k;
          k = k * 0xff51afd7ed558ccd;
          k = k XOR drop_bit 33 k;
          k = k * 0xc4ceb9fe1a85ec53
      in k XOR drop_bit 33 k)"

definition c1 :: u64 where "c1 = 0x87c37b91114253d5"
definition c2 :: u64 where "c2 = 0x4cf5ad432745937f"

text \<open>\<open>getblock\<close>: the \<open>i\<close>-th little-endian 64-bit word.\<close>

definition getblock :: "u8 list \<Rightarrow> nat \<Rightarrow> u64" where
  "getblock data i = le_word (chunk 8 data i)"

definition murmur_body :: "u8 list \<Rightarrow> nat \<Rightarrow> u64 \<times> u64 \<Rightarrow> u64 \<times> u64" where
  "murmur_body data i = (\<lambda>(h1, h2).
     let k1 = getblock data (i * 2 + 0);
         k2 = getblock data (i * 2 + 1);
         k1 = rotl64 (k1 * c1) 31 * c2;
         h1 = rotl64 (h1 XOR k1) 27 + h2;
         h1 = h1 * 5 + 0x52dce729;
         k2 = rotl64 (k2 * c2) 33 * c1;
         h2 = rotl64 (h2 XOR k2) 31 + h1;
         h2 = h2 * 5 + 0x38495ab5
     in (h1, h2))"

text \<open>One label of the \<open>switch\<close> on \<open>len & 15\<close>, which falls through to the next one: label
  \<open>j + 1\<close> is executed when \<open>rem > j\<close>.\<close>

definition tail_byte :: "u8 list \<Rightarrow> nat \<Rightarrow> nat \<Rightarrow> nat \<Rightarrow> u64 \<Rightarrow> u64" where
  "tail_byte tail rem j sh k = (if j < rem then k XOR push_bit sh (ucast (tail ! j)) else k)"

definition murmur_tail :: "u8 list \<Rightarrow> u64 \<times> u64 \<Rightarrow> u64 \<times> u64" where
  "murmur_tail tail = (\<lambda>(h1, h2).
     let rem = length tail;
         k2 = tail_byte tail rem 14 48 0;
         k2 = tail_byte tail rem 13 40 k2;
         k2 = tail_byte tail rem 12 32 k2;
         k2 = tail_byte tail rem 11 24 k2;
         k2 = tail_byte tail rem 10 16 k2;
         k2 = tail_byte tail rem 9 8 k2;
         k2 = tail_byte tail rem 8 0 k2;
         h2 = (if 8 < rem then h2 XOR (rotl64 (k2 * c2) 33 * c1) else h2);
         k1 = tail_byte tail rem 7 56 0;
         k1 = tail_byte tail rem 6 48 k1;
         k1 = tail_byte tail rem 5 40 k1;
         k1 = tail_byte tail rem 4 32 k1;
         k1 = tail_byte tail rem 3 24 k1;
         k1 = tail_byte tail rem 2 16 k1;
         k1 = tail_byte tail rem 1 8 k1;
         k1 = tail_byte tail rem 0 0 k1;
         h1 = (if 0 < rem then h1 XOR (rotl64 (k1 * c1) 31 * c2) else h1)
     in (h1, h2))"

text \<open>The key is the list of its \<open>len\<close> bytes; the result is the pair stored to \<open>out\<close>.\<close>

definition MurmurHash3_x64_128 :: "u8 list \<Rightarrow> u32 \<Rightarrow> u64 \<times> u64" where
  "MurmurHash3_x64_128 data seed =
     (let nblocks = length data div 16;
          (h1, h2) = fold (murmur_body data) [0..<nblocks] (ucast seed, ucast seed);
          (h1, h2) = murmur_tail (drop (nblocks * 16) data) (h1, h2);
          h1 = h1 XOR of_nat (length data);
          h2 = h2 XOR of_nat (length data);
          h1 = h1 + h2;
          h2 = h2 + h1;
          h1 = fmix64 h1;
          h2 = fmix64 h2;
          h1 = h1 + h2;
          h2 = h2 + h1
      in (h1, h2))"

section \<open>The filter\<close>

definition SALT_CONSTANT :: u32 where
  "SALT_CONSTANT = 0x97c29b3a"

text \<open>\<open>sizeof(mix_couting_bloom_header_t)\<close>.\<close>

definition HEADER_SIZE :: nat where
  "HEADER_SIZE = 16"

record bloom_filter =
  bf_capacity :: u32
  bf_offset :: int
  bf_counts_per_func :: u32
  bf_hashes :: "u32 list"
  bf_nfuncs :: u64
  bf_size :: u64
  bf_num_bytes :: u64
  bf_bitmap :: mix_bitmap

text \<open>\<open>hash_func\<close>: \<open>checksum[0]\<close> and \<open>checksum[1]\<close> are the two halves of the first 64 bits of the
  Murmur hash.\<close>

definition hash_func :: "bloom_filter \<Rightarrow> u32 \<Rightarrow> bloom_filter option" where
  "hash_func bloom_filter key =
     (let (out0, out1) = MurmurHash3_x64_128 (print_int (sint key)) SALT_CONSTANT;
          h1 = ucast out0 :: u32;
          h2 = ucast (drop_bit 32 out0) :: u32;
          n = unat (bf_nfuncs bloom_filter);
          m = bf_counts_per_func bloom_filter
      in if n > 0 \<and> m = 0 then None
         else do {
           hashes \<leftarrow> mem_write (bf_hashes bloom_filter) 0 (map (\<lambda>i. (h1 + of_nat i * h2) mod m) [0..<n]);
           Some (bloom_filter\<lparr>bf_hashes := hashes\<rparr>)
         })"

text \<open>\<open>mix_counting_bloom_filter_init\<close>: \<open>nfuncs\<close> and \<open>counts n\<close> are the two results of the
  floating point expressions, \<open>(int)ceil(log(1 / error_rate) / log(2))\<close> and the number of counters
  per function for \<open>n\<close> functions. The flags tell which \<open>malloc\<close> succeeds.\<close>

definition mix_counting_bloom_filter_init ::
    "bool \<Rightarrow> bool \<times> bool \<times> bool \<Rightarrow> int \<Rightarrow> (u64 \<Rightarrow> int) \<Rightarrow> u32 \<Rightarrow> bloom_filter option option" where
  "mix_counting_bloom_filter_init filter_alloc bitmap_alloc ceil_nfuncs ceil_counts capacity =
     (if \<not> filter_alloc then Some None
      else let nfuncs = word_of_int ceil_nfuncs :: u64;
               counts_per_func = word_of_int (ceil_counts nfuncs) :: u32;
               size = nfuncs * ucast counts_per_func;
               num_bytes = (size + 1) div 2 + of_nat HEADER_SIZE;
               (a, b, c) = bitmap_alloc
           in do {
             bitmap \<leftarrow> mix_bitmap_init a b c (sint (ucast num_bytes :: u32));
             Some (Some \<lparr>bf_capacity = capacity, bf_offset = int HEADER_SIZE,
               bf_counts_per_func = counts_per_func, bf_hashes = replicate (unat nfuncs) 0,
               bf_nfuncs = nfuncs, bf_size = size, bf_num_bytes = num_bytes, bf_bitmap = bitmap\<rparr>)
           })"

text \<open>The index of the counter of hash function \<open>i\<close>.\<close>

definition bloom_index :: "bloom_filter \<Rightarrow> nat \<Rightarrow> u32" where
  "bloom_index bloom_filter i =
     (let offset = of_nat i * bf_counts_per_func bloom_filter
      in bf_hashes bloom_filter ! i + offset)"

text \<open>The loop over the hash functions of add and remove; \<open>op\<close> is the counter operation, whose
  return value is not looked at.\<close>

fun bloom_loop ::
    "(mix_bitmap \<Rightarrow> u32 \<Rightarrow> int \<Rightarrow> (mix_bitmap \<times> int) option) \<Rightarrow> int \<Rightarrow> u32 list \<Rightarrow> mix_bitmap \<Rightarrow> mix_bitmap option"
where
  "bloom_loop op offset [] bitmap = Some bitmap"
| "bloom_loop op offset (index # is) bitmap = do {
     (bitmap, _) \<leftarrow> op bitmap index offset;
     bloom_loop op offset is bitmap
   }"

definition bloom_indices :: "bloom_filter \<Rightarrow> u32 list" where
  "bloom_indices bloom_filter = map (bloom_index bloom_filter) [0..<unat (bf_nfuncs bloom_filter)]"

text \<open>\<open>header->count\<close>, the 32-bit field at byte 8 of the header.\<close>

definition header_count :: "mix_bitmap \<Rightarrow> u32 option" where
  "header_count bitmap = map_option le_word (mem_read (bm_array bitmap) 8 4)"

definition set_header_count :: "mix_bitmap \<Rightarrow> u32 \<Rightarrow> mix_bitmap option" where
  "set_header_count bitmap n = do {
     array \<leftarrow> mem_write (bm_array bitmap) 8 (le_bytes 4 n);
     Some (bitmap\<lparr>bm_array := array\<rparr>)
   }"

definition mix_counting_bloom_filter_add :: "bloom_filter \<Rightarrow> u32 \<Rightarrow> bloom_filter option" where
  "mix_counting_bloom_filter_add bf key = do {
     bf \<leftarrow> hash_func bf key;
     bitmap \<leftarrow> bloom_loop mix_counting_bitmap_increment (bf_offset bf) (bloom_indices bf) (bf_bitmap bf);
     n \<leftarrow> header_count bitmap;
     bitmap \<leftarrow> set_header_count bitmap (n + 1);
     Some (bf\<lparr>bf_bitmap := bitmap\<rparr>)
   }"

definition mix_counting_bloom_filter_remove :: "bloom_filter \<Rightarrow> u32 \<Rightarrow> bloom_filter option" where
  "mix_counting_bloom_filter_remove bf key = do {
     bf \<leftarrow> hash_func bf key;
     bitmap \<leftarrow> bloom_loop mix_counting_bitmap_decrement (bf_offset bf) (bloom_indices bf) (bf_bitmap bf);
     n \<leftarrow> header_count bitmap;
     bitmap \<leftarrow> set_header_count bitmap (n - 1);
     Some (bf\<lparr>bf_bitmap := bitmap\<rparr>)
   }"

fun bloom_test_loop :: "mix_bitmap \<Rightarrow> int \<Rightarrow> u32 list \<Rightarrow> int option" where
  "bloom_test_loop bitmap offset [] = Some 1"
| "bloom_test_loop bitmap offset (index # is) = do {
     c \<leftarrow> mix_counting_bitmap_check bitmap index offset;
     if c = 0 then Some 0 else bloom_test_loop bitmap offset is
   }"

definition mix_counting_bloom_filter_test :: "bloom_filter \<Rightarrow> u32 \<Rightarrow> (bloom_filter \<times> int) option" where
  "mix_counting_bloom_filter_test bf key = do {
     bf \<leftarrow> hash_func bf key;
     r \<leftarrow> bloom_test_loop (bf_bitmap bf) (bf_offset bf) (bloom_indices bf);
     Some (bf, r)
   }"

section \<open>The counters of a key\<close>

text \<open>The slot of hash function \<open>i\<close> for a key, in a filter of functions with \<open>m\<close> counters each.\<close>

definition key_hash :: "u32 \<Rightarrow> u32 \<Rightarrow> nat \<Rightarrow> u32" where
  "key_hash m key i =
     (let out0 = fst (MurmurHash3_x64_128 (print_int (sint key)) SALT_CONSTANT)
      in (ucast out0 + of_nat i * ucast (drop_bit 32 out0)) mod m)"

definition key_slots :: "nat \<Rightarrow> u32 \<Rightarrow> u32 \<Rightarrow> nat list" where
  "key_slots n m key = map (\<lambda>i. unat (key_hash m key i) + i * unat m) [0..<n]"

definition bloom_ok :: "nat \<Rightarrow> u32 \<Rightarrow> bloom_filter \<Rightarrow> bool" where
  "bloom_ok n m bf \<longleftrightarrow>
     unat (bf_nfuncs bf) = n \<and> bf_counts_per_func bf = m \<and> bf_offset bf = int HEADER_SIZE \<and>
     0 < unat m \<and> n * unat m < 2 ^ 32 \<and> length (bf_hashes bf) = n \<and>
     HEADER_SIZE + (n * unat m + 1) div 2 \<le> length (bm_array (bf_bitmap bf))"

lemma key_hash_less: "0 < unat m \<Longrightarrow> unat (key_hash m key i) < unat m"
  by (simp add: key_hash_def Let_def unat_mod_distrib)

lemma key_slots_less: "0 < unat m \<Longrightarrow> j \<in> set (key_slots n m key) \<Longrightarrow> j < n * unat m"
proof -
  assume m: "0 < unat m" and "j \<in> set (key_slots n m key)"
  then obtain i where i: "i < n" "j = unat (key_hash m key i) + i * unat m"
    by (auto simp: key_slots_def)
  have "i * unat m + unat m \<le> n * unat m" using i(1) by (rule slot_end_le) simp
  then show "j < n * unat m" using key_hash_less [OF m, of key i] i(2) by linarith
qed

lemma distinct_key_slots:
  assumes "0 < unat m"
  shows "distinct (key_slots n m key)"
proof -
  have "(unat (key_hash m key i) + i * unat m) div unat m = i" for i
    using assms key_hash_less [OF assms, of key i] by simp
  then have "inj_on (\<lambda>i. unat (key_hash m key i) + i * unat m) A" for A
    by (metis (no_types, lifting) inj_onI)
  then show ?thesis by (simp add: key_slots_def distinct_map)
qed

lemma hash_func_slots:
  assumes ok: "bloom_ok n m bf"
  obtains bf' where "hash_func bf key = Some bf'" "bloom_ok n m bf'" "bf_bitmap bf' = bf_bitmap bf"
    "map unat (bloom_indices bf') = key_slots n m key"
proof -
  define hs where "hs = map (key_hash m key) [0..<n]"
  define bf' where "bf' = bf\<lparr>bf_hashes := hs\<rparr>"
  have m: "unat m \<noteq> 0" "m \<noteq> 0" using ok by (auto simp: bloom_ok_def)
  have run: "hash_func bf key = Some bf'"
    using ok m by (simp add: hash_func_def key_hash_def hs_def bf'_def bloom_ok_def mem_write_def
        Let_def case_prod_beta)
  have ok': "bloom_ok n m bf'" using ok by (simp add: bloom_ok_def bf'_def hs_def)
  have "unat (bloom_index bf' i) = unat (key_hash m key i) + i * unat m" if "i < n" for i
  proof -
    have "unat (key_hash m key i) + i * unat m < n * unat m"
      using that m key_slots_less [of m _ n key] by (auto simp: key_slots_def)
    then have b: "unat (key_hash m key i) + i * unat m < 2 ^ 32" using ok by (simp add: bloom_ok_def)
    have "1 \<le> unat m" using m by simp
    then have "i \<le> i * unat m" by simp
    then have "i < 2 ^ 32" using b by linarith
    then have i: "unat (of_nat i :: u32) = i" by (simp add: unat_of_nat)
    then have "unat (of_nat i * m :: u32) = i * unat m" using b by (subst unat_mult_bounded) auto
    then show ?thesis
      using b that ok by (simp add: bloom_index_def bf'_def hs_def bloom_ok_def unat_add_bounded)
  qed
  then have "map unat (bloom_indices bf') = key_slots n m key"
    using ok' by (simp add: bloom_indices_def key_slots_def bloom_ok_def)
  then show thesis using that run ok' by (simp add: bf'_def)
qed

section \<open>The loops\<close>

definition counter_effect ::
    "(mix_bitmap \<Rightarrow> u32 \<Rightarrow> int \<Rightarrow> (mix_bitmap \<times> int) option) \<Rightarrow> nat \<Rightarrow> (nat \<Rightarrow> nat) \<Rightarrow> bool" where
  "counter_effect op off g \<longleftrightarrow> (\<forall>b i. unat i div 2 + off < length (bm_array b) \<longrightarrow>
     (\<exists>b' r. op b i (int off) = Some (b', r) \<and> length (bm_array b') = length (bm_array b) \<and>
       (\<forall>j. j div 2 + off < length (bm_array b) \<longrightarrow>
          counter b' off j = (if j = unat i then g (counter b off j) else counter b off j))))"

lemma increment_effect: "counter_effect mix_counting_bitmap_increment off (\<lambda>c. min 15 (c + 1))"
  unfolding counter_effect_def
proof (intro allI impI)
  fix b :: mix_bitmap and i :: u32 assume fit: "unat i div 2 + off < length (bm_array b)"
  from mix_counting_bitmap_increment_eq [OF fit] obtain b' where b':
    "mix_counting_bitmap_increment b i (int off) =
      Some (if counter b off (unat i) = 15 then (b, -1) else (b', 0))"
    "length (bm_array b') = length (bm_array b)"
    "\<And>j. counter b off (unat i) < 15 \<Longrightarrow> j div 2 + off < length (bm_array b) \<Longrightarrow>
       counter b' off j = (if j = unat i then counter b off j + 1 else counter b off j)" by metis
  show "\<exists>b' r. mix_counting_bitmap_increment b i (int off) = Some (b', r) \<and>
      length (bm_array b') = length (bm_array b) \<and>
      (\<forall>j. j div 2 + off < length (bm_array b) \<longrightarrow>
         counter b' off j = (if j = unat i then min 15 (counter b off j + 1) else counter b off j))"
  proof (cases "counter b off (unat i) = 15")
    case True
    then show ?thesis using b'(1) by simp
  next
    case False
    then have "counter b off (unat i) < 15" using counter_less [of b off "unat i"] by simp
    then show ?thesis using b' by simp
  qed
qed

lemma decrement_effect: "counter_effect mix_counting_bitmap_decrement off (\<lambda>c. c - 1)"
  unfolding counter_effect_def
proof (intro allI impI)
  fix b :: mix_bitmap and i :: u32 assume fit: "unat i div 2 + off < length (bm_array b)"
  from mix_counting_bitmap_decrement_eq [OF fit] obtain b' where b':
    "mix_counting_bitmap_decrement b i (int off) =
      Some (if counter b off (unat i) = 0 then (b, -1) else (b', 0))"
    "length (bm_array b') = length (bm_array b)"
    "\<And>j. 0 < counter b off (unat i) \<Longrightarrow> j div 2 + off < length (bm_array b) \<Longrightarrow>
       counter b' off j = (if j = unat i then counter b off j - 1 else counter b off j)" by metis
  show "\<exists>b' r. mix_counting_bitmap_decrement b i (int off) = Some (b', r) \<and>
      length (bm_array b') = length (bm_array b) \<and>
      (\<forall>j. j div 2 + off < length (bm_array b) \<longrightarrow>
         counter b' off j = (if j = unat i then counter b off j - 1 else counter b off j))"
  proof (cases "counter b off (unat i) = 0")
    case True
    then show ?thesis using b'(1) by simp
  next
    case False
    then show ?thesis using b' by simp
  qed
qed

lemma bloom_loop_effect:
  assumes op: "counter_effect op off g"
  shows "distinct (map unat is) \<Longrightarrow> \<forall>i \<in> set is. unat i div 2 + off < length (bm_array b) \<Longrightarrow>
    \<exists>b'. bloom_loop op (int off) is b = Some b' \<and> length (bm_array b') = length (bm_array b) \<and>
      (\<forall>j. j div 2 + off < length (bm_array b) \<longrightarrow>
         counter b' off j = (if j \<in> unat ` set is then g (counter b off j) else counter b off j))"
proof (induction "is" arbitrary: b)
  case (Cons i "is")
  then obtain b1 r where b1: "op b i (int off) = Some (b1, r)" "length (bm_array b1) = length (bm_array b)"
    "\<forall>j. j div 2 + off < length (bm_array b) \<longrightarrow>
       counter b1 off j = (if j = unat i then g (counter b off j) else counter b off j)"
    using op unfolding counter_effect_def by (metis list.set_intros(1))
  have "distinct (map unat is)" "\<forall>i \<in> set is. unat i div 2 + off < length (bm_array b1)"
    using Cons.prems b1(2) by simp_all
  from Cons.IH [OF this] obtain b' where b': "bloom_loop op (int off) is b1 = Some b'"
    "length (bm_array b') = length (bm_array b1)"
    "\<forall>j. j div 2 + off < length (bm_array b1) \<longrightarrow>
       counter b' off j = (if j \<in> unat ` set is then g (counter b1 off j) else counter b1 off j)" by blast
  have "unat i \<notin> unat ` set is" using Cons.prems(1) by simp
  then show ?case using b1 b' by auto
qed simp

lemma test_loop:
  assumes "\<And>i. i \<in> set is \<Longrightarrow> unat i div 2 + off < length (bm_array b)"
  shows "bloom_test_loop b (int off) is =
    Some (if \<forall>j \<in> unat ` set is. 0 < counter b off j then 1 else 0)"
  using assms
proof (induction "is")
  case (Cons i "is")
  have fit: "unat i div 2 + off < length (bm_array b)" using Cons.prems by simp
  obtain r where "mix_counting_bitmap_check b i (int off) = Some r" "r = 0 \<longleftrightarrow> counter b off (unat i) = 0"
    using mix_counting_bitmap_check_eq [OF fit] by metis
  then show ?case using Cons by auto
qed simp

section \<open>The filter represents a multiset of keys\<close>

definition slot_load :: "nat \<Rightarrow> u32 \<Rightarrow> u32 multiset \<Rightarrow> nat \<Rightarrow> nat" where
  "slot_load n m M j = size (filter_mset (\<lambda>k. j \<in> set (key_slots n m k)) M)"

definition bloom_keeps :: "nat \<Rightarrow> u32 \<Rightarrow> bloom_filter \<Rightarrow> u32 multiset \<Rightarrow> bool" where
  "bloom_keeps n m bf M \<longleftrightarrow> bloom_ok n m bf \<and>
     (\<forall>j < n * unat m. counter (bf_bitmap bf) HEADER_SIZE j = slot_load n m M j)"

definition bloom_room :: "nat \<Rightarrow> u32 \<Rightarrow> u32 multiset \<Rightarrow> u32 \<Rightarrow> bool" where
  "bloom_room n m M k \<longleftrightarrow> (\<forall>j \<in> set (key_slots n m k). slot_load n m M j < 15)"

lemma bloom_bounds: "bloom_ok n m bf \<Longrightarrow> j < n * unat m \<Longrightarrow>
    j div 2 + HEADER_SIZE < length (bm_array (bf_bitmap bf))"
  by (auto simp: bloom_ok_def)

lemma set_header_count_keeps:
  assumes "HEADER_SIZE \<le> length (bm_array b)"
  obtains n b' where "header_count b = Some n" "set_header_count b v = Some b'"
    "length (bm_array b') = length (bm_array b)" "header_count b' = Some v"
    "\<And>j. j div 2 + HEADER_SIZE < length (bm_array b) \<Longrightarrow> counter b' HEADER_SIZE j = counter b HEADER_SIZE j"
proof -
  have len: "8 + 4 \<le> length (bm_array b)" using assms by (simp add: HEADER_SIZE_def)
  then obtain n where n: "header_count b = Some n" by (simp add: header_count_def mem_read_def)
  obtain arr where arr: "mem_write (bm_array b) 8 (le_bytes 4 v) = Some arr"
    using mem_write_ok [of 8 "le_bytes 4 v" "bm_array b"] len by auto
  have "header_count (b\<lparr>bm_array := arr\<rparr>) = Some v"
    using mem_read_write_same [OF arr] by (simp add: header_count_def)
  moreover have "counter (b\<lparr>bm_array := arr\<rparr>) HEADER_SIZE j = counter b HEADER_SIZE j"
    if "j div 2 + HEADER_SIZE < length (bm_array b)" for j
    using mem_write_nth [OF arr that] by (simp add: counter_def HEADER_SIZE_def)
  ultimately show thesis
    using that [OF n, of "b\<lparr>bm_array := arr\<rparr>"] arr mem_write_length [OF arr] by (simp add: set_header_count_def)
qed

text \<open>Add and remove apply their counter operation to the slots of the key.\<close>

lemma bloom_update:
  assumes ok: "bloom_ok n m bf" and op: "counter_effect op HEADER_SIZE g"
  shows "\<exists>bf'. do {
      bf \<leftarrow> hash_func bf k;
      bitmap \<leftarrow> bloom_loop op (bf_offset bf) (bloom_indices bf) (bf_bitmap bf);
      c \<leftarrow> header_count bitmap;
      bitmap \<leftarrow> set_header_count bitmap (f c);
      Some (bf\<lparr>bf_bitmap := bitmap\<rparr>)
    } = Some bf' \<and> bloom_ok n m bf' \<and>
    (\<forall>j < n * unat m. counter (bf_bitmap bf') HEADER_SIZE j =
       (if j \<in> set (key_slots n m k) then g (counter (bf_bitmap bf) HEADER_SIZE j)
        else counter (bf_bitmap bf) HEADER_SIZE j))"
proof -
  obtain bf1 where bf1: "hash_func bf k = Some bf1" "bloom_ok n m bf1" "bf_bitmap bf1 = bf_bitmap bf"
      "map unat (bloom_indices bf1) = key_slots n m k"
    using hash_func_slots [OF ok] by metis
  have m: "0 < unat m" and off: "bf_offset bf1 = int HEADER_SIZE" using bf1(2) by (simp_all add: bloom_ok_def)
  have slots: "unat ` set (bloom_indices bf1) = set (key_slots n m k)" by (metis bf1(4) list.set_map)
  have dist: "distinct (map unat (bloom_indices bf1))" using bf1(4) distinct_key_slots [OF m] by simp
  have fits: "\<forall>i \<in> set (bloom_indices bf1). unat i div 2 + HEADER_SIZE < length (bm_array (bf_bitmap bf))"
  proof
    fix i assume "i \<in> set (bloom_indices bf1)"
    then have "unat i \<in> set (key_slots n m k)" using slots by blast
    from key_slots_less [OF m this] bloom_bounds [OF ok]
    show "unat i div 2 + HEADER_SIZE < length (bm_array (bf_bitmap bf))" by blast
  qed
  obtain b1 where b1: "bloom_loop op (int HEADER_SIZE) (bloom_indices bf1) (bf_bitmap bf) = Some b1"
      "length (bm_array b1) = length (bm_array (bf_bitmap bf))"
      "\<forall>j. j div 2 + HEADER_SIZE < length (bm_array (bf_bitmap bf)) \<longrightarrow> counter b1 HEADER_SIZE j =
         (if j \<in> set (key_slots n m k) then g (counter (bf_bitmap bf) HEADER_SIZE j)
          else counter (bf_bitmap bf) HEADER_SIZE j)"
    using bloom_loop_effect [OF op dist fits] unfolding slots by blast
  have hd: "HEADER_SIZE \<le> length (bm_array b1)" using ok b1(2) by (simp add: bloom_ok_def)
  obtain c where c: "header_count b1 = Some c" using set_header_count_keeps [OF hd] by metis
  obtain b2 where b2: "set_header_count b1 (f c) = Some b2" "length (bm_array b2) = length (bm_array b1)"
      "\<And>j. j div 2 + HEADER_SIZE < length (bm_array b1) \<Longrightarrow> counter b2 HEADER_SIZE j = counter b1 HEADER_SIZE j"
    using set_header_count_keeps [OF hd, of "f c"] by metis
  have "bloom_ok n m (bf1\<lparr>bf_bitmap := b2\<rparr>)" using bf1(2,3) b1(2) b2(2) by (simp add: bloom_ok_def)
  moreover have "counter b2 HEADER_SIZE j =
       (if j \<in> set (key_slots n m k) then g (counter (bf_bitmap bf) HEADER_SIZE j)
        else counter (bf_bitmap bf) HEADER_SIZE j)" if "j < n * unat m" for j
    using bloom_bounds [OF ok that] b1(2,3) b2(3) by simp
  ultimately show ?thesis using bf1 off b1(1) c b2(1) by simp
qed

lemma bloom_test_eq:
  assumes ok: "bloom_ok n m bf"
  shows "\<exists>bf'. mix_counting_bloom_filter_test bf k = Some (bf',
      if \<forall>j \<in> set (key_slots n m k). 0 < counter (bf_bitmap bf) HEADER_SIZE j then 1 else 0) \<and>
    bloom_ok n m bf' \<and> bf_bitmap bf' = bf_bitmap bf"
proof -
  obtain bf1 where bf1: "hash_func bf k = Some bf1" "bloom_ok n m bf1" "bf_bitmap bf1 = bf_bitmap bf"
      "map unat (bloom_indices bf1) = key_slots n m k"
    using hash_func_slots [OF ok] by metis
  have m: "0 < unat m" and off: "bf_offset bf1 = int HEADER_SIZE" using bf1(2) by (simp_all add: bloom_ok_def)
  have slots: "unat ` set (bloom_indices bf1) = set (key_slots n m k)" by (metis bf1(4) list.set_map)
  have fits: "unat i div 2 + HEADER_SIZE < length (bm_array (bf_bitmap bf))" if "i \<in> set (bloom_indices bf1)" for i
    using that slots key_slots_less [OF m] bloom_bounds [OF ok] by (metis imageI)
  have "bloom_test_loop (bf_bitmap bf) (int HEADER_SIZE) (bloom_indices bf1) =
      Some (if \<forall>j \<in> set (key_slots n m k). 0 < counter (bf_bitmap bf) HEADER_SIZE j then 1 else 0)"
    using test_loop [of "bloom_indices bf1", OF fits] by (simp only: slots)
  then show ?thesis using bf1 off by (simp add: mix_counting_bloom_filter_test_def)
qed

interpretation bloom: membership_filter mix_counting_bloom_filter_add mix_counting_bloom_filter_remove
  mix_counting_bloom_filter_test "bloom_keeps n m" "bloom_room n m" for n m
proof
  fix bf M k
  assume k: "bloom_keeps n m bf M"
  then have ok: "bloom_ok n m bf" by (simp add: bloom_keeps_def)
  have m: "0 < unat m" using ok by (simp add: bloom_ok_def)
  {
    assume "bloom_room n m M k"
    then show "\<exists>f'. mix_counting_bloom_filter_add bf k = Some f' \<and> bloom_keeps n m f' (add_mset k M)"
      using bloom_update [OF ok increment_effect, of k "\<lambda>c. c + 1"] k
      by (fastforce simp: mix_counting_bloom_filter_add_def bloom_keeps_def bloom_room_def slot_load_def)
  next
    assume mem: "k \<in># M"
    have load: "slot_load n m (M - {#k#}) j =
        (if j \<in> set (key_slots n m k) then slot_load n m M j - 1 else slot_load n m M j)" for j
      using mem by (simp add: slot_load_def size_Diff_singleton)
    then show "\<exists>f'. mix_counting_bloom_filter_remove bf k = Some f' \<and> bloom_keeps n m f' (M - {#k#})"
      using bloom_update [OF ok decrement_effect, of k "\<lambda>c. c - 1"] k
      by (fastforce simp: mix_counting_bloom_filter_remove_def bloom_keeps_def)
  }
  have pos: "0 < slot_load n m M j" if "k \<in># M" "j \<in> set (key_slots n m k)" for j
  proof -
    have "k \<in># filter_mset (\<lambda>k. j \<in> set (key_slots n m k)) M" using that by simp
    then show ?thesis unfolding slot_load_def by (metis empty_not_add_mset gr0I mset_add size_eq_0_iff_empty)
  qed
  show "\<exists>f' r. mix_counting_bloom_filter_test bf k = Some (f', r) \<and> bloom_keeps n m f' M \<and>
      (r = 0 \<or> r = 1) \<and> (k \<in># M \<longrightarrow> r = 1)"
    using bloom_test_eq [OF ok, of k] k pos key_slots_less [OF m, of _ n k]
    by (fastforce simp: bloom_keeps_def)
qed

section \<open>A new filter\<close>

lemma counter_zero: "i div 2 + off < length (bm_array b) \<Longrightarrow> bm_array b = replicate l 0 \<Longrightarrow> counter b off i = 0"
  by (simp add: counter_def Let_def)

lemma bloom_init_keeps:
  assumes n: "0 < c" and small: "n * c \<le> 2 ^ 31" and c: "c < 2 ^ 31" and n2: "n < 2 ^ 31"
  shows "\<exists>bf. mix_counting_bloom_filter_init True (True, True, True) (int n) (\<lambda>_. int c) cap = Some (Some bf) \<and>
    bloom_keeps n (of_nat c) bf {#}"
proof -
  let ?n = "word_of_int (int n) :: u64" and ?m = "of_nat c :: u32"
  have m: "unat ?m = c" using c by (simp add: unat_of_nat)
  have nn: "unat ?n = n" using n2 by (simp add: unat_of_nat)
  have mm: "(word_of_int (int c) :: u32) = ?m" by simp
  have cc: "unat (ucast ?m :: u64) = c" by (simp only: unat_ucast_up m)
  define sz where "sz = ?n * ucast ?m"
  have sz: "unat sz = n * c" using nn cc small by (simp add: sz_def unat_mult_bounded)
  let ?b = "(sz + 1) div 2 + of_nat HEADER_SIZE"
  define l where "l = (n * c + 1) div 2 + 16"
  have b: "unat ?b = l"
    using sz small by (simp add: unat_div unat_add_bounded unat_word_ariths HEADER_SIZE_def l_def)
  have l: "l < 2 ^ 31" using small by (simp add: l_def)
  then have "unat (ucast ?b :: u32) = l" using b by (subst unat_ucast_down) simp_all
  then have arg: "sint (ucast ?b :: u32) = int l" using l by (simp add: sint_small)
  let ?bm = "\<lparr>bm_array = replicate l 0, bm_bytes = int l sdiv BITS_PER_BYTE, bm_next_bit = 0\<rparr>"
  let ?bf = "\<lparr>bf_capacity = cap, bf_offset = int HEADER_SIZE, bf_counts_per_func = ?m,
    bf_hashes = replicate n 0, bf_nfuncs = ?n, bf_size = sz, bf_num_bytes = ?b, bf_bitmap = ?bm\<rparr>"
  have "mix_counting_bloom_filter_init True (True, True, True) (int n) (\<lambda>_. int c) cap = Some (Some ?bf)"
    unfolding mix_counting_bloom_filter_init_def Let_def mm nn sz_def [symmetric] case_prod_conv arg
    by (simp add: mix_bitmap_init_def Let_def)
  moreover have ok: "bloom_ok n ?m ?bf"
    using n m nn small by (simp add: bloom_ok_def l_def HEADER_SIZE_def)
  moreover have "counter ?bm HEADER_SIZE j = 0" if "j < n * unat ?m" for j
    by (rule counter_zero) (use bloom_bounds [OF ok that] in simp_all)
  ultimately show ?thesis by (auto simp: bloom_keeps_def slot_load_def)
qed

section \<open>The finalisation mix\<close>

text \<open>A right shift by at least half the width, combined by exclusive or, undoes itself; the two
  multipliers are odd and have inverses modulo \<open>2 ^ 64\<close>.\<close>

definition unmix64 :: "u64 \<Rightarrow> u64" where
  "unmix64 k =
     (let k = k XOR drop_bit 33 k;
          k = k * 0x9cb4b2f8129337db;
          k = k XOR drop_bit 33 k;
          k = k * 0x4f74430c22a54005
      in k XOR drop_bit 33 k)"

lemma xorshift_involution: "(k XOR drop_bit 33 k) XOR drop_bit 33 (k XOR drop_bit 33 k) = (k :: u64)"
  by (rule bit_word_eqI) (auto simp: bit_simps dest: bit_imp_le_length)

lemma mult_inverses:
  "(k * 0xff51afd7ed558ccd) * 0x4f74430c22a54005 = (k :: u64)"
  "(k * 0xc4ceb9fe1a85ec53) * 0x9cb4b2f8129337db = (k :: u64)"
proof -
  have "0xff51afd7ed558ccd * 0x4f74430c22a54005 = (1 :: u64)" "0xc4ceb9fe1a85ec53 * 0x9cb4b2f8129337db = (1 :: u64)"
    by code_simp+
  then show "(k * 0xff51afd7ed558ccd) * 0x4f74430c22a54005 = k" "(k * 0xc4ceb9fe1a85ec53) * 0x9cb4b2f8129337db = k"
    by (simp_all only: mult.assoc mult_1_right)
qed

lemma unmix_fmix: "unmix64 (fmix64 k) = k"
  by (simp only: unmix64_def fmix64_def Let_def xorshift_involution mult_inverses)

section \<open>Properties\<close>

text \<open>C30. No false negatives: on a new filter of \<open>n\<close> functions with \<open>c\<close> counters each, after every
  sequence of adds and removals in which only present keys are removed and no counter is at its
  limit when a key is added, the filter answers 1 for every key that is still in the multiset.\<close>

theorem bloom_no_false_negative:
  assumes "0 < c" "n * c \<le> 2 ^ 31" "c < 2 ^ 31" "n < 2 ^ 31"
    and "filter_keys (bloom_room n (of_nat c)) ops {#} = Some M" "k \<in># M"
  shows "\<exists>bf bf1 bf2. mix_counting_bloom_filter_init True (True, True, True) (int n) (\<lambda>_. int c) cap = Some (Some bf) \<and>
    filter_run mix_counting_bloom_filter_add mix_counting_bloom_filter_remove ops bf = Some bf1 \<and>
    mix_counting_bloom_filter_test bf1 k = Some (bf2, 1)"
proof -
  obtain bf where bf: "mix_counting_bloom_filter_init True (True, True, True) (int n) (\<lambda>_. int c) cap = Some (Some bf)"
      "bloom_keeps n (of_nat c) bf {#}"
    using bloom_init_keeps [OF assms(1-4)] by blast
  then show ?thesis using bloom.run_no_false_negative [OF bf(2) assms(5,6)] by blast
qed

theorem bloom_no_false_negative_witness:
  "\<exists>bf bf1 bf2. mix_counting_bloom_filter_init True (True, True, True) (int 7) (\<lambda>_. int 701) 512 = Some (Some bf) \<and>
    filter_run mix_counting_bloom_filter_add mix_counting_bloom_filter_remove [Add 5, Add 5, Remove 5] bf = Some bf1 \<and>
    mix_counting_bloom_filter_test bf1 5 = Some (bf2, 1)"
proof -
  have load: "slot_load 7 (of_nat 701) M j \<le> size M" for M j by (simp add: slot_load_def size_filter_mset_lesseq)
  have "bloom_room 7 (of_nat 701) M k" if "size M < 15" for M k
    using that load [of M] unfolding bloom_room_def by (meson le_less_trans)
  then have "filter_keys (bloom_room 7 (of_nat 701)) [Add 5, Add 5, Remove 5] {#} = Some {#5#}" by simp
  from bloom_no_false_negative [OF _ _ _ _ this, of 5 512] show ?thesis by simp
qed

text \<open>A key that was just added is reported as present, whatever the counters held before, also
  when some of them are saturated.\<close>

theorem bloom_test_after_add:
  assumes "bloom_ok n m bf"
  shows "\<exists>bf1 bf2. mix_counting_bloom_filter_add bf k = Some bf1 \<and> mix_counting_bloom_filter_test bf1 k = Some (bf2, 1)"
proof -
  have m: "0 < unat m" using assms by (simp add: bloom_ok_def)
  obtain bf1 where bf1: "mix_counting_bloom_filter_add bf k = Some bf1" "bloom_ok n m bf1"
      "\<forall>j < n * unat m. counter (bf_bitmap bf1) HEADER_SIZE j =
         (if j \<in> set (key_slots n m k) then min 15 (counter (bf_bitmap bf) HEADER_SIZE j + 1)
          else counter (bf_bitmap bf) HEADER_SIZE j)"
    using bloom_update [OF assms increment_effect, of k "\<lambda>c. c + 1"]
    unfolding mix_counting_bloom_filter_add_def by blast
  then have "\<forall>j \<in> set (key_slots n m k). 0 < counter (bf_bitmap bf1) HEADER_SIZE j"
    using key_slots_less [OF m] by auto
  then show ?thesis using bloom_test_eq [OF bf1(2), of k] bf1(1) by auto
qed

theorem bloom_test_after_add_witness:
  "\<exists>bf bf1 bf2. mix_counting_bloom_filter_add bf 5 = Some bf1 \<and> mix_counting_bloom_filter_test bf1 5 = Some (bf2, 1)"
proof -
  obtain bf where "bloom_ok 7 (of_nat 701) bf" using bloom_init_keeps [of 701 7] by (auto simp: bloom_keeps_def)
  from bloom_test_after_add [OF this, of 5] show ?thesis by blast
qed

text \<open>The finalisation mix of the Murmur hash is a permutation of the 64-bit words: it has an
  explicit inverse, so that it loses no entropy.\<close>

theorem fmix64_permutation: "bij fmix64 \<and> unmix64 (fmix64 k) = k"
proof -
  have inj: "inj fmix64" by (metis injI unmix_fmix)
  then have "surj fmix64" by (rule finite_UNIV_inj_surj [rotated]) simp
  then show ?thesis using inj unmix_fmix by (simp add: bij_def)
qed

end
