(* ===== verification/Block_Spec.thy ===== *)
theory Block_Spec
  imports Prelude
begin

text \<open>
  The contract of a block device as the workers use it: a write of one block succeeds, the block
  reads back as written, and every other block is left alone.
\<close>

text \<open>A sequence of writes, first one first.\<close>

fun write_all :: "('d \<Rightarrow> nat \<Rightarrow> 'b \<Rightarrow> 'd option) \<Rightarrow> (nat \<times> 'b) list \<Rightarrow> 'd \<Rightarrow> 'd option" where
  "write_all wr [] d = Some d"
| "write_all wr ((i, x) # ws) d = wr d i x \<bind> write_all wr ws"

locale block_device =
  fixes wr :: "'d \<Rightarrow> nat \<Rightarrow> 'b \<Rightarrow> 'd option"
    and rd :: "'d \<Rightarrow> nat \<Rightarrow> 'b option"
    and blocks :: "'d \<Rightarrow> nat"
    and fits :: "'b \<Rightarrow> bool"
    and invar :: "'d \<Rightarrow> bool"
  assumes write_spec: "invar d \<Longrightarrow> i < blocks d \<Longrightarrow> fits x \<Longrightarrow>
      \<exists>d'. wr d i x = Some d' \<and> invar d' \<and> blocks d' = blocks d \<and> rd d' i = Some x \<and>
        (\<forall>j < blocks d. j \<noteq> i \<longrightarrow> rd d' j = rd d j)"
begin

lemma write_all_reads:
  assumes "invar d" "\<forall>(i, x) \<in> set ws. i < blocks d \<and> fits x"
  shows "\<exists>d'. write_all wr ws d = Some d' \<and> invar d' \<and> blocks d' = blocks d \<and>
    (\<forall>j < blocks d. rd d' j =
       (case map_of (rev ws) j of None \<Rightarrow> rd d j | Some x \<Rightarrow> Some x))"
  using assms
proof (induction ws arbitrary: d)
  case Nil
  then show ?case by simp
next
  case (Cons w ws)
  obtain i x where w: "w = (i, x)" by (cases w)
  have "i < blocks d" "fits x" using Cons.prems(2) by (simp_all add: w)
  from write_spec [OF Cons.prems(1) this] obtain d1 where d1: "wr d i x = Some d1" "invar d1"
    "blocks d1 = blocks d" "rd d1 i = Some x" "\<forall>j < blocks d. j \<noteq> i \<longrightarrow> rd d1 j = rd d j"
    by blast
  have "\<forall>(i, x) \<in> set ws. i < blocks d1 \<and> fits x" using Cons.prems(2) d1(3) by simp
  from Cons.IH [OF d1(2) this] obtain d' where d': "write_all wr ws d1 = Some d'" "invar d'"
    "blocks d' = blocks d1"
    "\<forall>j < blocks d1. rd d' j = (case map_of (rev ws) j of None \<Rightarrow> rd d1 j | Some x \<Rightarrow> Some x)"
    by blast
  have "rd d' j = (case map_of (rev (w # ws)) j of None \<Rightarrow> rd d j | Some x \<Rightarrow> Some x)"
    if "j < blocks d" for j
    using that d1 d' by (cases "j = i") (auto simp: w map_add_def split: option.splits)
  then show ?case using d1 d' w by auto
qed

end

end
