(* ===== verification/Nvm.thy ===== *)
theory Nvm
  imports Block_Spec
begin

text \<open>
  The persistent memory layer of \<open>src/src/nvm.cpp\<close>: one mapped file that holds the NVM blocks, the
  descriptors of the buffer blocks and the buffer blocks, in this order. Addresses are offsets from
  the start of the mapping. \<open>pmem_memcpy\<close> and \<open>pmem_map_file\<close> are library calls: the former is the
  argument \<open>cpy\<close> of the operations that use it (\<open>cpy m off xs\<close> is the mapping after the bytes
  \<open>xs\<close> were copied to offset \<open>off\<close>), the result of the latter is an argument of \<open>mix_mmap\<close>.
\<close>

section \<open>The data structures\<close>

type_synonym copy_fn = "u8 list \<Rightarrow> nat \<Rightarrow> u8 list \<Rightarrow> u8 list option"

definition BLOCK_SIZE :: u64 where "BLOCK_SIZE = 4096"
definition META_SIZE :: u64 where "META_SIZE = 32"
definition SEGMENT_BLOCK_NUM :: u64 where "SEGMENT_BLOCK_NUM = 512"
definition BUFFER_SEGMENT_NUM :: u64 where "BUFFER_SEGMENT_NUM = 4"
definition PMEM_LEN :: nat where "PMEM_LEN = 16 * 1024 * 1024 * 1024"

record nvm_info =
  ni_nvm_addr :: u64
  ni_block_num :: u64
  ni_per_block_num :: u64
  ni_nvm_capacity :: u64
  ni_block_size :: int
  ni_queue_num :: u8

record buffer_info =
  bi_buffer_addr :: u64
  bi_meta_addr :: u64
  bi_block_num :: u64
  bi_buffer_capacity :: u64
  bi_segment_num :: u8

record buffer_meta =
  meta_status :: u64
  meta_timestamp :: u64
  meta_offset :: u64
  meta_flags :: u64

text \<open>The mapping and the two descriptions that the operations find in static variables.\<close>

record nvm_state =
  ns_mem :: "u8 list"
  ns_nvm :: nvm_info
  ns_buffer :: buffer_info

text \<open>The packed \<open>struct buffer_meta\<close> in memory.\<close>

definition meta_bytes :: "buffer_meta \<Rightarrow> u8 list" where
  "meta_bytes m = le_bytes 8 (meta_status m) @ le_bytes 8 (meta_timestamp m) @
     le_bytes 8 (meta_offset m) @ le_bytes 8 (meta_flags m)"

definition meta_of_bytes :: "u8 list \<Rightarrow> buffer_meta" where
  "meta_of_bytes bs = \<lparr>meta_status = le_word (take 8 bs), meta_timestamp = le_word (take 8 (drop 8 bs)),
     meta_offset = le_word (take 8 (drop 16 bs)), meta_flags = le_word (take 8 (drop 24 bs))\<rparr>"

section \<open>Initialisation\<close>

text \<open>The flag says whether \<open>malloc\<close> succeeds; \<open>None\<close> is the returned \<open>NULL\<close>.\<close>

definition mix_nvm_init :: "bool \<Rightarrow> nvm_info option" where
  "mix_nvm_init alloc =
     (if \<not> alloc then None
      else let block_num = 3 * 1024 * 1024; queue_num = 4
           in Some \<lparr>ni_nvm_addr = 0, ni_block_num = block_num,
                ni_per_block_num = block_num div ucast queue_num,
                ni_nvm_capacity = block_num * BLOCK_SIZE,
                ni_block_size = 4096, ni_queue_num = queue_num\<rparr>)"

definition mix_buffer_init :: "bool \<Rightarrow> buffer_info option" where
  "mix_buffer_init alloc =
     (if \<not> alloc then None
      else let block_num = BUFFER_SEGMENT_NUM * SEGMENT_BLOCK_NUM
           in Some \<lparr>bi_buffer_addr = 0, bi_meta_addr = 0, bi_block_num = block_num,
                bi_buffer_capacity = block_num * (BLOCK_SIZE + META_SIZE),
                bi_segment_num = ucast BUFFER_SEGMENT_NUM\<rparr>)"

text \<open>\<open>mix_mmap\<close>: \<open>mapping\<close> is what \<open>pmem_map_file\<close> delivered, the content of the mapping and
  whether it is persistent memory; \<open>None\<close> is \<open>exit(1)\<close>.\<close>

definition mix_mmap :: "(u8 list \<times> bool) option \<Rightarrow> nvm_info \<Rightarrow> buffer_info \<Rightarrow> nvm_state option" where
  "mix_mmap mapping nvm_info buffer_info = do {
     (mem, is_pmem) \<leftarrow> mapping;
     if \<not> is_pmem then None
     else let mmap_addr = 0;
              meta_addr = mmap_addr + ni_nvm_capacity nvm_info
          in Some \<lparr>ns_mem = mem, ns_nvm = nvm_info\<lparr>ni_nvm_addr := mmap_addr\<rparr>,
               ns_buffer = buffer_info\<lparr>bi_meta_addr := meta_addr,
                 bi_buffer_addr := meta_addr + bi_block_num buffer_info * META_SIZE\<rparr>\<rparr>
   }"

section \<open>The operations\<close>

definition mix_nvm_read :: "nvm_state \<Rightarrow> u64 \<Rightarrow> u64 \<Rightarrow> (u8 list \<times> u64) option" where
  "mix_nvm_read st len0 offset = do {
     dst \<leftarrow> mem_read (ns_mem st) (unat (ni_nvm_addr (ns_nvm st) + offset * BLOCK_SIZE))
              (unat (len0 * BLOCK_SIZE));
     Some (dst, len0)
   }"

text \<open>\<open>src\<close> is the caller's memory; \<open>len * BLOCK_SIZE\<close> bytes of it are copied.\<close>

definition mix_nvm_write :: "copy_fn \<Rightarrow> nvm_state \<Rightarrow> u8 list \<Rightarrow> u64 \<Rightarrow> u64 \<Rightarrow> (nvm_state \<times> u64) option" where
  "mix_nvm_write cpy st src len0 offset =
     (let l = len0 * BLOCK_SIZE; off = offset * BLOCK_SIZE
      in do {
        bytes \<leftarrow> mem_read src 0 (unat l);
        mem \<leftarrow> cpy (ns_mem st) (unat (ni_nvm_addr (ns_nvm st) + off)) bytes;
        Some (st\<lparr>ns_mem := mem\<rparr>, len0)
      })"

definition mix_buffer_read :: "nvm_state \<Rightarrow> u64 \<Rightarrow> u8 list option" where
  "mix_buffer_read st dst_block =
     mem_read (ns_mem st) (unat (bi_buffer_addr (ns_buffer st) + dst_block * BLOCK_SIZE)) (unat BLOCK_SIZE)"

definition mix_buffer_write ::
    "copy_fn \<Rightarrow> nvm_state \<Rightarrow> u8 list \<Rightarrow> u64 \<Rightarrow> u64 \<Rightarrow> u64 \<Rightarrow> nvm_state option" where
  "mix_buffer_write cpy st src src_block dst_block flags =
     (let meta = \<lparr>meta_status = 1, meta_timestamp = 0, meta_offset = src_block, meta_flags = flags\<rparr>
      in do {
        bytes \<leftarrow> mem_read src 0 (unat BLOCK_SIZE);
        mem \<leftarrow> cpy (ns_mem st) (unat (bi_buffer_addr (ns_buffer st) + dst_block * BLOCK_SIZE)) bytes;
        mem \<leftarrow> cpy mem (unat (bi_meta_addr (ns_buffer st) + META_SIZE * dst_block)) (meta_bytes meta);
        Some (st\<lparr>ns_mem := mem\<rparr>)
      })"

definition mix_buffer_clear :: "copy_fn \<Rightarrow> nvm_state \<Rightarrow> u64 \<Rightarrow> nvm_state option" where
  "mix_buffer_clear cpy st dst_block =
     (let status = 0 :: u64
      in do {
        mem \<leftarrow> cpy (ns_mem st) (unat (bi_meta_addr (ns_buffer st) + dst_block * META_SIZE)) (le_bytes 8 status);
        Some (st\<lparr>ns_mem := mem\<rparr>)
      })"

definition mix_buffer_get_meta :: "nvm_state \<Rightarrow> int \<Rightarrow> buffer_meta option" where
  "mix_buffer_get_meta st dst_block =
     map_option meta_of_bytes
       (mem_read (ns_mem st) (unat (bi_meta_addr (ns_buffer st) + META_SIZE * word_of_int dst_block)) (unat META_SIZE))"

section \<open>The layout\<close>

lemma sizes [simp]: "unat BLOCK_SIZE = 4096" "unat META_SIZE = 32"
  by (simp_all add: BLOCK_SIZE_def META_SIZE_def)

definition nvm_blocks :: "nvm_state \<Rightarrow> nat" where
  "nvm_blocks st = unat (ni_block_num (ns_nvm st))"

definition buffer_blocks :: "nvm_state \<Rightarrow> nat" where
  "buffer_blocks st = unat (bi_block_num (ns_buffer st))"

text \<open>The three areas follow each other and end inside the mapping.\<close>

definition layout_ok :: "nvm_state \<Rightarrow> bool" where
  "layout_ok st \<longleftrightarrow>
     unat (ni_nvm_addr (ns_nvm st)) + nvm_blocks st * 4096 \<le> unat (bi_meta_addr (ns_buffer st)) \<and>
     unat (bi_meta_addr (ns_buffer st)) + buffer_blocks st * 32 \<le> unat (bi_buffer_addr (ns_buffer st)) \<and>
     unat (bi_buffer_addr (ns_buffer st)) + buffer_blocks st * 4096 \<le> length (ns_mem st) \<and>
     length (ns_mem st) < 2 ^ 63"

definition nvm_pos :: "nvm_state \<Rightarrow> nat \<Rightarrow> nat" where
  "nvm_pos st i = unat (ni_nvm_addr (ns_nvm st)) + i * 4096"

definition meta_pos :: "nvm_state \<Rightarrow> nat \<Rightarrow> nat" where
  "meta_pos st i = unat (bi_meta_addr (ns_buffer st)) + i * 32"

definition buffer_pos :: "nvm_state \<Rightarrow> nat \<Rightarrow> nat" where
  "buffer_pos st i = unat (bi_buffer_addr (ns_buffer st)) + i * 4096"

lemma address_eq:
  assumes "unat a + i * unat s < 2 ^ 64" "0 < unat s"
  shows "unat (a + of_nat i * s :: u64) = unat a + i * unat s" "unat (a + s * of_nat i :: u64) = unat a + i * unat s"
proof -
  have "i * 1 \<le> i * unat s" using assms(2) by (intro mult_le_mono2) simp
  then have "i < 2 ^ 64" using assms(1) by linarith
  then have i: "unat (of_nat i :: u64) = i" by (simp add: unat_of_nat)
  then have "unat (of_nat i * s :: u64) = i * unat s" using assms(1) by (subst unat_mult_bounded) auto
  then show "unat (a + of_nat i * s) = unat a + i * unat s" "unat (a + s * of_nat i) = unat a + i * unat s"
    using assms(1) by (simp_all add: unat_add_bounded mult.commute)
qed

lemma block_fits: "i < n \<Longrightarrow> a + n * s \<le> (l::nat) \<Longrightarrow> a + i * s + s \<le> l"
  using slot_end_le [of i n s "n * s"] by linarith

lemma positions:
  assumes ok: "layout_ok st"
  shows "i < nvm_blocks st \<Longrightarrow> unat (ni_nvm_addr (ns_nvm st) + of_nat i * BLOCK_SIZE) = nvm_pos st i"
    and "i < buffer_blocks st \<Longrightarrow> unat (bi_buffer_addr (ns_buffer st) + of_nat i * BLOCK_SIZE) = buffer_pos st i"
    and "i < buffer_blocks st \<Longrightarrow> unat (bi_meta_addr (ns_buffer st) + of_nat i * META_SIZE) = meta_pos st i"
    and "i < buffer_blocks st \<Longrightarrow> unat (bi_meta_addr (ns_buffer st) + META_SIZE * of_nat i) = meta_pos st i"
proof -
  have l: "length (ns_mem st) < 2 ^ 64" using ok by (simp add: layout_ok_def)
  show "unat (ni_nvm_addr (ns_nvm st) + of_nat i * BLOCK_SIZE) = nvm_pos st i" if "i < nvm_blocks st"
  proof -
    have "nvm_pos st i + 4096 \<le> length (ns_mem st)"
      unfolding nvm_pos_def by (rule block_fits [OF that]) (use ok in \<open>simp add: layout_ok_def\<close>)
    then show ?thesis using l by (subst address_eq) (simp_all add: nvm_pos_def)
  qed
  assume i: "i < buffer_blocks st"
  have b: "buffer_pos st i + 4096 \<le> length (ns_mem st)" "meta_pos st i + 32 \<le> length (ns_mem st)"
    unfolding buffer_pos_def meta_pos_def by (rule block_fits [OF i], use ok in \<open>simp add: layout_ok_def\<close>)+
  show "unat (bi_buffer_addr (ns_buffer st) + of_nat i * BLOCK_SIZE) = buffer_pos st i"
    using b(1) l by (subst address_eq) (simp_all add: buffer_pos_def)
  show "unat (bi_meta_addr (ns_buffer st) + of_nat i * META_SIZE) = meta_pos st i"
    "unat (bi_meta_addr (ns_buffer st) + META_SIZE * of_nat i) = meta_pos st i"
    using b(2) l by (subst address_eq; simp_all add: meta_pos_def)+
qed

text \<open>The byte ranges of the blocks and descriptors are inside the mapping and pairwise disjoint.\<close>

lemma ranges:
  assumes ok: "layout_ok st"
  shows nvm_range: "i < nvm_blocks st \<Longrightarrow> nvm_pos st i + 4096 \<le> unat (bi_meta_addr (ns_buffer st))"
    and meta_range: "i < buffer_blocks st \<Longrightarrow> unat (bi_meta_addr (ns_buffer st)) \<le> meta_pos st i \<and>
      meta_pos st i + 32 \<le> unat (bi_buffer_addr (ns_buffer st))"
    and buffer_range: "i < buffer_blocks st \<Longrightarrow> unat (bi_buffer_addr (ns_buffer st)) \<le> buffer_pos st i \<and>
      buffer_pos st i + 4096 \<le> length (ns_mem st)"
    and areas: "unat (bi_meta_addr (ns_buffer st)) \<le> unat (bi_buffer_addr (ns_buffer st))"
      "unat (bi_buffer_addr (ns_buffer st)) \<le> length (ns_mem st)"
proof -
  note l = ok [unfolded layout_ok_def]
  show "i < nvm_blocks st \<Longrightarrow> nvm_pos st i + 4096 \<le> unat (bi_meta_addr (ns_buffer st))"
    using block_fits [of i "nvm_blocks st" "unat (ni_nvm_addr (ns_nvm st))" 4096] l by (simp add: nvm_pos_def)
  show "i < buffer_blocks st \<Longrightarrow> unat (bi_meta_addr (ns_buffer st)) \<le> meta_pos st i \<and>
      meta_pos st i + 32 \<le> unat (bi_buffer_addr (ns_buffer st))"
    using block_fits [of i "buffer_blocks st" "unat (bi_meta_addr (ns_buffer st))" 32] l by (simp add: meta_pos_def)
  show "i < buffer_blocks st \<Longrightarrow> unat (bi_buffer_addr (ns_buffer st)) \<le> buffer_pos st i \<and>
      buffer_pos st i + 4096 \<le> length (ns_mem st)"
    using block_fits [of i "buffer_blocks st" "unat (bi_buffer_addr (ns_buffer st))" 4096] l by (simp add: buffer_pos_def)
  show "unat (bi_meta_addr (ns_buffer st)) \<le> unat (bi_buffer_addr (ns_buffer st))"
    "unat (bi_buffer_addr (ns_buffer st)) \<le> length (ns_mem st)" using l by linarith+
qed

lemma slots_apart: "i \<noteq> j \<Longrightarrow> a + i * s + s \<le> a + j * s \<or> a + j * s + s \<le> a + i * (s::nat)"
  using slot_end_le [of i j s "j * s"] slot_end_le [of j i s "i * s"] by (cases "i < j") auto

section \<open>The operations on the areas\<close>

text \<open>What the operations return, by position.\<close>

definition buffer_data :: "nvm_state \<Rightarrow> nat \<Rightarrow> u8 list option" where
  "buffer_data st i = mix_buffer_read st (of_nat i)"

definition buffer_desc :: "nvm_state \<Rightarrow> nat \<Rightarrow> buffer_meta option" where
  "buffer_desc st i = mix_buffer_get_meta st (int i)"

definition nvm_data :: "nvm_state \<Rightarrow> nat \<Rightarrow> u8 list option" where
  "nvm_data st i = map_option fst (mix_nvm_read st 1 (of_nat i))"

lemma data_eq:
  assumes ok: "layout_ok st"
  shows "i < buffer_blocks st \<Longrightarrow> buffer_data st i = mem_read (ns_mem st) (buffer_pos st i) 4096"
    and "i < buffer_blocks st \<Longrightarrow> buffer_desc st i = map_option meta_of_bytes (mem_read (ns_mem st) (meta_pos st i) 32)"
    and "i < nvm_blocks st \<Longrightarrow> nvm_data st i = mem_read (ns_mem st) (nvm_pos st i) 4096"
  using positions [OF ok, of i]
  by (simp_all add: buffer_data_def buffer_desc_def nvm_data_def mix_buffer_read_def
      mix_buffer_get_meta_def mix_nvm_read_def mem_read_def)

lemma pos_frame [simp]:
  "nvm_blocks (st\<lparr>ns_mem := m\<rparr>) = nvm_blocks st" "buffer_blocks (st\<lparr>ns_mem := m\<rparr>) = buffer_blocks st"
  "nvm_pos (st\<lparr>ns_mem := m\<rparr>) i = nvm_pos st i" "meta_pos (st\<lparr>ns_mem := m\<rparr>) i = meta_pos st i"
  "buffer_pos (st\<lparr>ns_mem := m\<rparr>) i = buffer_pos st i"
  by (simp_all add: nvm_blocks_def buffer_blocks_def nvm_pos_def meta_pos_def buffer_pos_def)

lemma layout_frame: "layout_ok st \<Longrightarrow> length m = length (ns_mem st) \<Longrightarrow> layout_ok (st\<lparr>ns_mem := m\<rparr>)"
  by (simp add: layout_ok_def nvm_blocks_def buffer_blocks_def)

lemma meta_roundtrip [simp]: "meta_of_bytes (meta_bytes m) = m"
  by (simp add: meta_of_bytes_def meta_bytes_def)

lemma length_meta_bytes [simp]: "length (meta_bytes m) = 32"
  by (simp add: meta_bytes_def)

text \<open>One write into one of the areas, and what it leaves alone.\<close>

definition same_buffer_data :: "nvm_state \<Rightarrow> nvm_state \<Rightarrow> (nat \<Rightarrow> bool) \<Rightarrow> bool" where
  "same_buffer_data st st' P \<longleftrightarrow> (\<forall>j < buffer_blocks st. P j \<longrightarrow> buffer_data st' j = buffer_data st j)"

definition same_buffer_desc :: "nvm_state \<Rightarrow> nvm_state \<Rightarrow> (nat \<Rightarrow> bool) \<Rightarrow> bool" where
  "same_buffer_desc st st' P \<longleftrightarrow> (\<forall>j < buffer_blocks st. P j \<longrightarrow> buffer_desc st' j = buffer_desc st j)"

definition same_nvm_data :: "nvm_state \<Rightarrow> nvm_state \<Rightarrow> (nat \<Rightarrow> bool) \<Rightarrow> bool" where
  "same_nvm_data st st' P \<longleftrightarrow> (\<forall>j < nvm_blocks st. P j \<longrightarrow> nvm_data st' j = nvm_data st j)"

lemmas same_defs = same_buffer_data_def same_buffer_desc_def same_nvm_data_def

lemma buffer_area_write:
  assumes ok: "layout_ok st" and i: "i < buffer_blocks st" and xs: "length xs = 4096"
  obtains m where "mem_write (ns_mem st) (buffer_pos st i) xs = Some m" "layout_ok (st\<lparr>ns_mem := m\<rparr>)"
    "buffer_data (st\<lparr>ns_mem := m\<rparr>) i = Some xs" "same_buffer_data st (st\<lparr>ns_mem := m\<rparr>) (\<lambda>j. j \<noteq> i)"
    "same_buffer_desc st (st\<lparr>ns_mem := m\<rparr>) (\<lambda>_. True)" "same_nvm_data st (st\<lparr>ns_mem := m\<rparr>) (\<lambda>_. True)"
proof -
  obtain m where m: "mem_write (ns_mem st) (buffer_pos st i) xs = Some m"
    using mem_write_ok [of "buffer_pos st i" xs "ns_mem st"] buffer_range [OF ok i] xs by auto
  have ok': "layout_ok (st\<lparr>ns_mem := m\<rparr>)" using layout_frame [OF ok mem_write_length [OF m]] .
  note eqs = data_eq [OF ok] data_eq [OF ok', simplified]
  note frame = mem_read_write_disjoint [OF m, unfolded xs]
  have "buffer_data (st\<lparr>ns_mem := m\<rparr>) i = Some xs"
    using mem_read_write_same [OF m] i xs by (simp add: eqs)
  moreover have "same_buffer_data st (st\<lparr>ns_mem := m\<rparr>) (\<lambda>j. j \<noteq> i)"
    unfolding same_defs using slots_apart [of _ i "unat (bi_buffer_addr (ns_buffer st))" 4096]
    by (auto simp: eqs buffer_pos_def [symmetric] intro!: frame)
  moreover have "same_buffer_desc st (st\<lparr>ns_mem := m\<rparr>) (\<lambda>_. True)"
    unfolding same_defs using meta_range [OF ok] buffer_range [OF ok i]
    by (auto simp: eqs intro!: arg_cong [of _ _ "map_option meta_of_bytes"] frame intro: order_trans)
  moreover have "nvm_pos st j + 4096 \<le> buffer_pos st i" if "j < nvm_blocks st" for j
    using nvm_range [OF ok that] buffer_range [OF ok i] areas(1) [OF ok] by linarith
  then have "same_nvm_data st (st\<lparr>ns_mem := m\<rparr>) (\<lambda>_. True)"
    unfolding same_defs by (auto simp: eqs intro!: frame)
  ultimately show thesis using that m ok' by blast
qed

lemma meta_area_write:
  assumes ok: "layout_ok st" and i: "i < buffer_blocks st" and xs: "length xs \<le> 32"
  obtains m where "mem_write (ns_mem st) (meta_pos st i) xs = Some m" "layout_ok (st\<lparr>ns_mem := m\<rparr>)"
    "same_buffer_data st (st\<lparr>ns_mem := m\<rparr>) (\<lambda>_. True)"
    "same_buffer_desc st (st\<lparr>ns_mem := m\<rparr>) (\<lambda>j. j \<noteq> i)" "same_nvm_data st (st\<lparr>ns_mem := m\<rparr>) (\<lambda>_. True)"
proof -
  obtain m where m: "mem_write (ns_mem st) (meta_pos st i) xs = Some m"
    using mem_write_ok [of "meta_pos st i" xs "ns_mem st"] meta_range [OF ok i] areas [OF ok] xs by auto
  have ok': "layout_ok (st\<lparr>ns_mem := m\<rparr>)" using layout_frame [OF ok mem_write_length [OF m]] .
  note eqs = data_eq [OF ok] data_eq [OF ok', simplified]
  have frame: "mem_read m a n = mem_read (ns_mem st) a n"
    if "a + n \<le> meta_pos st i \<or> meta_pos st i + 32 \<le> a" for a n
    by (rule mem_read_write_disjoint [OF m]) (use that xs in linarith)
  have "same_buffer_data st (st\<lparr>ns_mem := m\<rparr>) (\<lambda>_. True)"
    unfolding same_defs using meta_range [OF ok i] buffer_range [OF ok]
    by (auto simp: eqs intro!: frame intro: order_trans)
  moreover have "same_buffer_desc st (st\<lparr>ns_mem := m\<rparr>) (\<lambda>j. j \<noteq> i)"
    unfolding same_defs using slots_apart [of _ i "unat (bi_meta_addr (ns_buffer st))" 32]
    by (auto simp: eqs meta_pos_def [symmetric] intro!: arg_cong [of _ _ "map_option meta_of_bytes"] frame)
  moreover have "same_nvm_data st (st\<lparr>ns_mem := m\<rparr>) (\<lambda>_. True)"
    unfolding same_defs using nvm_range [OF ok] meta_range [OF ok i]
    by (auto simp: eqs intro!: frame intro: order_trans)
  ultimately show thesis using that m ok' by blast
qed

lemma nvm_area_write:
  assumes ok: "layout_ok st" and i: "i < nvm_blocks st" and xs: "length xs = 4096"
  obtains m where "mem_write (ns_mem st) (nvm_pos st i) xs = Some m" "layout_ok (st\<lparr>ns_mem := m\<rparr>)"
    "nvm_data (st\<lparr>ns_mem := m\<rparr>) i = Some xs" "same_nvm_data st (st\<lparr>ns_mem := m\<rparr>) (\<lambda>j. j \<noteq> i)"
    "same_buffer_data st (st\<lparr>ns_mem := m\<rparr>) (\<lambda>_. True)" "same_buffer_desc st (st\<lparr>ns_mem := m\<rparr>) (\<lambda>_. True)"
proof -
  have "nvm_pos st i + 4096 \<le> length (ns_mem st)"
    using nvm_range [OF ok i] areas [OF ok] by linarith
  then obtain m where m: "mem_write (ns_mem st) (nvm_pos st i) xs = Some m"
    using mem_write_ok [of "nvm_pos st i" xs "ns_mem st"] xs by auto
  have ok': "layout_ok (st\<lparr>ns_mem := m\<rparr>)" using layout_frame [OF ok mem_write_length [OF m]] .
  note eqs = data_eq [OF ok] data_eq [OF ok', simplified]
  note frame = mem_read_write_disjoint [OF m, unfolded xs]
  have "nvm_data (st\<lparr>ns_mem := m\<rparr>) i = Some xs"
    using mem_read_write_same [OF m] i xs by (simp add: eqs)
  moreover have "same_nvm_data st (st\<lparr>ns_mem := m\<rparr>) (\<lambda>j. j \<noteq> i)"
    unfolding same_defs using slots_apart [of _ i "unat (ni_nvm_addr (ns_nvm st))" 4096]
    by (auto simp: eqs nvm_pos_def [symmetric] intro!: frame)
  moreover have "nvm_pos st i + 4096 \<le> buffer_pos st j \<and> nvm_pos st i + 4096 \<le> meta_pos st j"
    if "j < buffer_blocks st" for j
    using nvm_range [OF ok i] buffer_range [OF ok that] meta_range [OF ok that] areas(1) [OF ok] by linarith
  then have "same_buffer_data st (st\<lparr>ns_mem := m\<rparr>) (\<lambda>_. True)" "same_buffer_desc st (st\<lparr>ns_mem := m\<rparr>) (\<lambda>_. True)"
    unfolding same_defs by (auto simp: eqs intro!: frame arg_cong [of _ _ "map_option meta_of_bytes"])
  ultimately show thesis using that m ok' by blast
qed

section \<open>The contract of the buffer and of the NVM area\<close>

text \<open>What the library documents of \<open>pmem_memcpy\<close>: the destination holds a copy of the source, the
  rest of the mapping is as before.\<close>

definition pmem_copies :: "copy_fn \<Rightarrow> bool" where
  "pmem_copies cpy \<longleftrightarrow> (\<forall>m off xs. cpy m off xs = mem_write m off xs)"

lemma mix_buffer_write_spec:
  assumes cpy: "pmem_copies cpy" and ok: "layout_ok st" and i: "i < buffer_blocks st" and src: "4096 \<le> length src"
  obtains st' where "mix_buffer_write cpy st src lba (of_nat i) flags = Some st'" "layout_ok st'"
    "ns_nvm st' = ns_nvm st" "ns_buffer st' = ns_buffer st" "buffer_data st' i = Some (take 4096 src)"
    "buffer_desc st' i = Some \<lparr>meta_status = 1, meta_timestamp = 0, meta_offset = lba, meta_flags = flags\<rparr>"
    "same_buffer_data st st' (\<lambda>j. j \<noteq> i)" "same_buffer_desc st st' (\<lambda>j. j \<noteq> i)" "same_nvm_data st st' (\<lambda>_. True)"
proof -
  let ?meta = "\<lparr>meta_status = 1, meta_timestamp = 0, meta_offset = lba, meta_flags = flags\<rparr>"
  have len: "length (take 4096 src) = 4096" using src by simp
  obtain m1 where m1: "mem_write (ns_mem st) (buffer_pos st i) (take 4096 src) = Some m1"
    and ok1: "layout_ok (st\<lparr>ns_mem := m1\<rparr>)"
    and f1: "buffer_data (st\<lparr>ns_mem := m1\<rparr>) i = Some (take 4096 src)" "same_buffer_data st (st\<lparr>ns_mem := m1\<rparr>) (\<lambda>j. j \<noteq> i)"
      "same_buffer_desc st (st\<lparr>ns_mem := m1\<rparr>) (\<lambda>_. True)" "same_nvm_data st (st\<lparr>ns_mem := m1\<rparr>) (\<lambda>_. True)"
    using buffer_area_write [OF ok i len] by metis
  obtain m where m: "mem_write m1 (meta_pos st i) (meta_bytes ?meta) = Some m"
    and ok2: "layout_ok (st\<lparr>ns_mem := m\<rparr>)"
    and f2: "same_buffer_data (st\<lparr>ns_mem := m1\<rparr>) (st\<lparr>ns_mem := m\<rparr>) (\<lambda>_. True)"
      "same_buffer_desc (st\<lparr>ns_mem := m1\<rparr>) (st\<lparr>ns_mem := m\<rparr>) (\<lambda>j. j \<noteq> i)"
      "same_nvm_data (st\<lparr>ns_mem := m1\<rparr>) (st\<lparr>ns_mem := m\<rparr>) (\<lambda>_. True)"
    using meta_area_write [OF ok1, of i "meta_bytes ?meta"] i by auto
  have run: "mix_buffer_write cpy st src lba (of_nat i) flags = Some (st\<lparr>ns_mem := m\<rparr>)"
    using cpy src m1 m positions [OF ok, of i] i
    by (simp add: mix_buffer_write_def pmem_copies_def mem_read_def)
  have "buffer_desc (st\<lparr>ns_mem := m\<rparr>) i = Some ?meta"
    using mem_read_write_same [OF m] data_eq(2) [OF ok2, of i] i by simp
  then show thesis using that [OF run ok2] f1 f2 i by (simp add: same_defs)
qed

lemma meta_status_overwrite:
  "length bs = 32 \<Longrightarrow> meta_of_bytes (le_bytes 8 (0::u64) @ drop 8 bs) = (meta_of_bytes bs)\<lparr>meta_status := 0\<rparr>"
  by (simp add: meta_of_bytes_def)

lemma mix_buffer_clear_spec:
  assumes cpy: "pmem_copies cpy" and ok: "layout_ok st" and i: "i < buffer_blocks st"
  obtains st' where "mix_buffer_clear cpy st (of_nat i) = Some st'" "layout_ok st'"
    "ns_nvm st' = ns_nvm st" "ns_buffer st' = ns_buffer st"
    "buffer_desc st' i = map_option (\<lambda>d. d\<lparr>meta_status := 0\<rparr>) (buffer_desc st i)"
    "same_buffer_data st st' (\<lambda>_. True)" "same_buffer_desc st st' (\<lambda>j. j \<noteq> i)" "same_nvm_data st st' (\<lambda>_. True)"
proof -
  obtain m where m: "mem_write (ns_mem st) (meta_pos st i) (le_bytes 8 (0::u64)) = Some m"
    and ok2: "layout_ok (st\<lparr>ns_mem := m\<rparr>)"
    and f: "same_buffer_data st (st\<lparr>ns_mem := m\<rparr>) (\<lambda>_. True)" "same_buffer_desc st (st\<lparr>ns_mem := m\<rparr>) (\<lambda>j. j \<noteq> i)"
      "same_nvm_data st (st\<lparr>ns_mem := m\<rparr>) (\<lambda>_. True)"
    using meta_area_write [OF ok i, of "le_bytes 8 (0::u64)"] by auto
  have run: "mix_buffer_clear cpy st (of_nat i) = Some (st\<lparr>ns_mem := m\<rparr>)"
    using cpy m positions [OF ok, of i] i by (simp add: mix_buffer_clear_def pmem_copies_def)
  have fits: "meta_pos st i + 32 \<le> length (ns_mem st)" using meta_range [OF ok i] areas [OF ok] by linarith
  have "take 32 (drop (meta_pos st i) m) = le_bytes 8 (0::u64) @ drop 8 (take 32 (drop (meta_pos st i) (ns_mem st)))"
    using m fits by (auto simp: mem_write_eq_Some drop_take take_append add.commute)
  then have "buffer_desc (st\<lparr>ns_mem := m\<rparr>) i = map_option (\<lambda>d. d\<lparr>meta_status := 0\<rparr>) (buffer_desc st i)"
    using data_eq(2) [OF ok2, of i] data_eq(2) [OF ok, of i] i fits mem_write_length [OF m]
    by (simp add: mem_read_def meta_status_overwrite)
  then show thesis using that [OF run ok2] f by simp
qed

lemma mix_nvm_write_spec:
  assumes cpy: "pmem_copies cpy" and ok: "layout_ok st" and i: "i < nvm_blocks st" and src: "4096 \<le> length src"
  obtains st' where "mix_nvm_write cpy st src 1 (of_nat i) = Some (st', 1)" "layout_ok st'"
    "ns_nvm st' = ns_nvm st" "ns_buffer st' = ns_buffer st" "nvm_data st' i = Some (take 4096 src)"
    "same_nvm_data st st' (\<lambda>j. j \<noteq> i)" "same_buffer_data st st' (\<lambda>_. True)" "same_buffer_desc st st' (\<lambda>_. True)"
proof -
  have len: "length (take 4096 src) = 4096" using src by simp
  obtain m where m: "mem_write (ns_mem st) (nvm_pos st i) (take 4096 src) = Some m"
    and ok2: "layout_ok (st\<lparr>ns_mem := m\<rparr>)"
    and f: "nvm_data (st\<lparr>ns_mem := m\<rparr>) i = Some (take 4096 src)" "same_nvm_data st (st\<lparr>ns_mem := m\<rparr>) (\<lambda>j. j \<noteq> i)"
      "same_buffer_data st (st\<lparr>ns_mem := m\<rparr>) (\<lambda>_. True)" "same_buffer_desc st (st\<lparr>ns_mem := m\<rparr>) (\<lambda>_. True)"
    using nvm_area_write [OF ok i len] by metis
  have "mix_nvm_write cpy st src 1 (of_nat i) = Some (st\<lparr>ns_mem := m\<rparr>, 1)"
    using cpy m src positions [OF ok, of i] i
    by (simp add: mix_nvm_write_def pmem_copies_def mem_read_def)
  then show thesis using that [OF _ ok2] f by simp
qed

text \<open>The buffer as a block device whose blocks hold the data, the target address and the flags;
  the state carries the copy function.\<close>

definition buffer_dev_write ::
    "copy_fn \<times> nvm_state \<Rightarrow> nat \<Rightarrow> u8 list \<times> u64 \<times> u64 \<Rightarrow> (copy_fn \<times> nvm_state) option" where
  "buffer_dev_write = (\<lambda>(cpy, st) i (src, lba, flags).
     map_option (Pair cpy) (mix_buffer_write cpy st src lba (of_nat i) flags))"

definition buffer_dev_read :: "copy_fn \<times> nvm_state \<Rightarrow> nat \<Rightarrow> (u8 list \<times> u64 \<times> u64) option" where
  "buffer_dev_read = (\<lambda>(cpy, st) i. do {
     d \<leftarrow> buffer_data st i;
     m \<leftarrow> buffer_desc st i;
     Some (d, meta_offset m, meta_flags m)
   })"

interpretation buffer_dev: block_device buffer_dev_write buffer_dev_read "\<lambda>(cpy, st). buffer_blocks st"
  "\<lambda>(src, lba, flags). length src = 4096" "\<lambda>(cpy, st). pmem_copies cpy \<and> layout_ok st"
proof (unfold_locales, goal_cases)
  case (1 d i x)
  obtain cpy st where d: "d = (cpy, st)" by (cases d)
  obtain src lba flags where x: "x = (src, lba, flags)" by (cases x)
  have h: "pmem_copies cpy" "layout_ok st" "i < buffer_blocks st" "length src = 4096" using 1 by (simp_all add: d x)
  obtain st' where "mix_buffer_write cpy st src lba (of_nat i) flags = Some st'" "layout_ok st'"
    "ns_buffer st' = ns_buffer st" "buffer_data st' i = Some (take 4096 src)"
    "buffer_desc st' i = Some \<lparr>meta_status = 1, meta_timestamp = 0, meta_offset = lba, meta_flags = flags\<rparr>"
    "same_buffer_data st st' (\<lambda>j. j \<noteq> i)" "same_buffer_desc st st' (\<lambda>j. j \<noteq> i)"
    using mix_buffer_write_spec [OF h(1-3), of src lba flags] h(4) by auto
  then show ?case
    using h by (intro exI [of _ "(cpy, st')"])
      (auto simp: d x buffer_dev_write_def buffer_dev_read_def same_defs buffer_blocks_def)
qed

definition nvm_dev_write :: "copy_fn \<times> nvm_state \<Rightarrow> nat \<Rightarrow> u8 list \<Rightarrow> (copy_fn \<times> nvm_state) option" where
  "nvm_dev_write = (\<lambda>(cpy, st) i src. map_option (\<lambda>(st', n). (cpy, st')) (mix_nvm_write cpy st src 1 (of_nat i)))"

definition nvm_dev_read :: "copy_fn \<times> nvm_state \<Rightarrow> nat \<Rightarrow> u8 list option" where
  "nvm_dev_read = (\<lambda>(cpy, st) i. nvm_data st i)"

interpretation nvm_dev: block_device nvm_dev_write nvm_dev_read "\<lambda>(cpy, st). nvm_blocks st"
  "\<lambda>src. length src = 4096" "\<lambda>(cpy, st). pmem_copies cpy \<and> layout_ok st"
proof (unfold_locales, goal_cases)
  case (1 d i x)
  obtain cpy st where d: "d = (cpy, st)" by (cases d)
  have h: "pmem_copies cpy" "layout_ok st" "i < nvm_blocks st" "length x = 4096" using 1 by (simp_all add: d)
  obtain st' where "mix_nvm_write cpy st x 1 (of_nat i) = Some (st', 1)" "layout_ok st'"
    "ns_nvm st' = ns_nvm st" "nvm_data st' i = Some (take 4096 x)" "same_nvm_data st st' (\<lambda>j. j \<noteq> i)"
    using mix_nvm_write_spec [OF h(1-3), of x] h(4) by auto
  then show ?case
    using h by (intro exI [of _ "(cpy, st')"])
      (auto simp: d nvm_dev_write_def nvm_dev_read_def same_defs nvm_blocks_def)
qed

section \<open>The mapping of the program\<close>

lemma mix_mmap_layout:
  assumes "length mem = PMEM_LEN" "mix_nvm_init True = Some ni" "mix_buffer_init True = Some bi"
  shows "\<exists>st. mix_mmap (Some (mem, True)) ni bi = Some st \<and> ns_mem st = mem \<and> layout_ok st \<and>
    nvm_blocks st = 3 * 1024 * 1024 \<and> buffer_blocks st = 2048"
  using assms
  by (auto simp: mix_mmap_def mix_nvm_init_def mix_buffer_init_def layout_ok_def nvm_blocks_def
      buffer_blocks_def PMEM_LEN_def BLOCK_SIZE_def META_SIZE_def SEGMENT_BLOCK_NUM_def BUFFER_SEGMENT_NUM_def Let_def)

section \<open>The device class\<close>

text \<open>\<open>class NVMDevice\<close>: the mapped file and the block size that the constructor sets. The methods
  return the number of bytes.\<close>

record nvm_device =
  nd_mem :: "u8 list"
  nd_block_size :: u32
  nd_capacity :: u64
  nd_mapped_len :: u64

text \<open>The constructor of the base class takes the capacity as an \<open>int\<close> and keeps it as a \<open>size_t\<close>.\<close>

definition Device_capacity :: "u64 \<Rightarrow> u64" where
  "Device_capacity len0 = scast (ucast len0 :: u32)"

definition NVMDevice :: "u64 \<Rightarrow> nvm_device" where
  "NVMDevice len0 = \<lparr>nd_mem = [], nd_block_size = push_bit 12 1, nd_capacity = Device_capacity len0, nd_mapped_len = 0\<rparr>"

definition NVMDevice_initDevice :: "(u8 list \<times> bool) option \<Rightarrow> nvm_device \<Rightarrow> nvm_device \<times> bool" where
  "NVMDevice_initDevice mapping d =
     (case mapping of
        None \<Rightarrow> (d, False)
      | Some (mem, is_pmem) \<Rightarrow>
          if \<not> is_pmem then (d, False)
          else (d\<lparr>nd_mem := mem, nd_mapped_len := of_nat (length mem)\<rparr>, True))"

definition NVMDevice_read :: "nvm_device \<Rightarrow> u64 \<Rightarrow> u64 \<Rightarrow> (u8 list \<times> u64) option" where
  "NVMDevice_read d len0 offset =
     (let l = len0 * ucast (nd_block_size d); off = offset * ucast (nd_block_size d)
      in do {
        dst \<leftarrow> mem_read (nd_mem d) (unat off) (unat l);
        Some (dst, l)
      })"

definition NVMDevice_write :: "copy_fn \<Rightarrow> nvm_device \<Rightarrow> u8 list \<Rightarrow> u64 \<Rightarrow> u64 \<Rightarrow> (nvm_device \<times> u64) option" where
  "NVMDevice_write cpy d src len0 offset =
     (let l = len0 * ucast (nd_block_size d); off = offset * BLOCK_SIZE
      in do {
        bytes \<leftarrow> mem_read src 0 (unat l);
        mem \<leftarrow> cpy (nd_mem d) (unat off) bytes;
        Some (d\<lparr>nd_mem := mem\<rparr>, l)
      })"

definition device_ok :: "nvm_device \<Rightarrow> bool" where
  "device_ok d \<longleftrightarrow> nd_block_size d = 4096 \<and> length (nd_mem d) < 2 ^ 63"

lemma NVMDevice_ready:
  assumes "length mem < 2 ^ 63"
  shows "\<exists>d. NVMDevice_initDevice (Some (mem, True)) (NVMDevice len0) = (d, True) \<and> device_ok d \<and> nd_mem d = mem"
  using assms by (simp add: NVMDevice_initDevice_def NVMDevice_def device_ok_def)

lemma NVMDevice_roundtrip:
  assumes cpy: "pmem_copies cpy" and ok: "device_ok d" and src: "length src = n * 4096"
    and fits: "(i + n) * 4096 \<le> length (nd_mem d)"
  shows "\<exists>d'. NVMDevice_write cpy d src (of_nat n) (of_nat i) = Some (d', of_nat (n * 4096)) \<and> device_ok d' \<and>
    NVMDevice_read d' (of_nat n) (of_nat i) = Some (src, of_nat (n * 4096))"
proof -
  have len: "length (nd_mem d) < 2 ^ 63" using ok by (simp add: device_ok_def)
  have b: "i * 4096 + n * 4096 < 2 ^ 64" using fits len by simp
  have bs: "(ucast (nd_block_size d) :: u64) = 4096" using ok by (simp add: device_ok_def)
  have l: "unat (of_nat n * 4096 :: u64) = n * 4096" "unat (of_nat i * 4096 :: u64) = i * 4096"
    using address_eq(1) [of 0 n 4096] address_eq(1) [of 0 i 4096] b by simp_all
  obtain m where m: "mem_write (nd_mem d) (i * 4096) src = Some m"
    using mem_write_ok [of "i * 4096" src "nd_mem d"] fits src by (auto simp: algebra_simps)
  have "NVMDevice_write cpy d src (of_nat n) (of_nat i) = Some (d\<lparr>nd_mem := m\<rparr>, of_nat (n * 4096))"
    using cpy src m by (simp add: NVMDevice_write_def bs l pmem_copies_def mem_read_def BLOCK_SIZE_def)
  moreover have "NVMDevice_read (d\<lparr>nd_mem := m\<rparr>) (of_nat n) (of_nat i) = Some (src, of_nat (n * 4096))"
    using mem_read_write_same [OF m] src by (simp add: NVMDevice_read_def bs l)
  ultimately show ?thesis using ok mem_write_length [OF m] by (simp add: device_ok_def)
qed

section \<open>Properties\<close>

text \<open>C34. With the sizes that the program uses, the NVM blocks, the descriptors and the buffer blocks
  occupy consecutive, disjoint areas that end inside the mapping of 16 GiB.\<close>

theorem mapping_holds_all_areas:
  assumes "length mem = PMEM_LEN" "mix_nvm_init True = Some ni" "mix_buffer_init True = Some bi"
  shows "\<exists>st. mix_mmap (Some (mem, True)) ni bi = Some st \<and> layout_ok st \<and>
    nvm_blocks st = 3 * 1024 * 1024 \<and> buffer_blocks st = 2048"
  using mix_mmap_layout [OF assms] by blast

lemma program_state:
  "\<exists>ni bi st. mix_nvm_init True = Some ni \<and> mix_buffer_init True = Some bi \<and>
    mix_mmap (Some (replicate PMEM_LEN 0, True)) ni bi = Some st \<and> layout_ok st \<and>
    nvm_blocks st = 3 * 1024 * 1024 \<and> buffer_blocks st = 2048"
proof -
  obtain ni bi where i: "mix_nvm_init True = Some ni" "mix_buffer_init True = Some bi"
    by (simp add: mix_nvm_init_def mix_buffer_init_def Let_def)
  show ?thesis using mix_mmap_layout [OF length_replicate i] i by blast
qed

lemma mem_write_copies: "pmem_copies mem_write"
  by (simp add: pmem_copies_def)

theorem mapping_holds_all_areas_witness:
  "\<exists>ni bi st. mix_nvm_init True = Some ni \<and> mix_buffer_init True = Some bi \<and>
    mix_mmap (Some (replicate PMEM_LEN 0, True)) ni bi = Some st \<and> layout_ok st \<and>
    nvm_blocks st = 3 * 1024 * 1024 \<and> buffer_blocks st = 2048"
proof -
  obtain ni bi where i: "mix_nvm_init True = Some ni" "mix_buffer_init True = Some bi"
    by (simp add: mix_nvm_init_def mix_buffer_init_def Let_def)
  show ?thesis using mapping_holds_all_areas [OF length_replicate i] i by blast
qed

text \<open>C29. A block written to the buffer reads back as written, its descriptor is valid and carries the
  target address and the flags; no other buffer block, descriptor or NVM block changes.\<close>

theorem buffer_write_read:
  assumes "pmem_copies cpy" "layout_ok st" "i < buffer_blocks st" "length src = 4096"
  shows "\<exists>st'. mix_buffer_write cpy st src lba (of_nat i) flags = Some st' \<and> layout_ok st' \<and>
    mix_buffer_read st' (of_nat i) = Some src \<and>
    mix_buffer_get_meta st' (int i) = Some \<lparr>meta_status = 1, meta_timestamp = 0, meta_offset = lba, meta_flags = flags\<rparr> \<and>
    (\<forall>j < buffer_blocks st. j \<noteq> i \<longrightarrow> mix_buffer_read st' (of_nat j) = mix_buffer_read st (of_nat j) \<and>
       mix_buffer_get_meta st' (int j) = mix_buffer_get_meta st (int j)) \<and>
    (\<forall>j < nvm_blocks st. mix_nvm_read st' 1 (of_nat j) = mix_nvm_read st 1 (of_nat j))"
proof -
  obtain st' where st': "mix_buffer_write cpy st src lba (of_nat i) flags = Some st'" "layout_ok st'"
    "ns_nvm st' = ns_nvm st" "buffer_data st' i = Some (take 4096 src)"
    "buffer_desc st' i = Some \<lparr>meta_status = 1, meta_timestamp = 0, meta_offset = lba, meta_flags = flags\<rparr>"
    "same_buffer_data st st' (\<lambda>j. j \<noteq> i)" "same_buffer_desc st st' (\<lambda>j. j \<noteq> i)" "same_nvm_data st st' (\<lambda>_. True)"
    using mix_buffer_write_spec [OF assms(1-3), of src lba flags] assms(4) by auto
  have "mix_nvm_read st' 1 (of_nat j) = mix_nvm_read st 1 (of_nat j)" if "j < nvm_blocks st" for j
    using st'(8) that by (auto simp: same_nvm_data_def nvm_data_def mix_nvm_read_def split: bind_splits)
  then show ?thesis using st' assms(4) by (auto simp: same_defs buffer_data_def buffer_desc_def)
qed

theorem buffer_write_read_witness:
  "\<exists>st st'. mix_buffer_write mem_write st (replicate 4096 7) 3 (of_nat 2047) 4 = Some st' \<and>
    mix_buffer_read st' (of_nat 2047) = Some (replicate 4096 7)"
proof -
  obtain st where "layout_ok st" "buffer_blocks st = 2048" using program_state by blast
  then show ?thesis
    using buffer_write_read [OF mem_write_copies, of st 2047 "replicate 4096 7" 3 4] by auto
qed

text \<open>Clearing a block invalidates its descriptor and changes nothing else: its data, the rest of
  its descriptor, the other blocks and the NVM area stay.\<close>

theorem buffer_clear_invalidates:
  assumes "pmem_copies cpy" "layout_ok st" "i < buffer_blocks st"
  shows "\<exists>st'. mix_buffer_clear cpy st (of_nat i) = Some st' \<and> layout_ok st' \<and>
    mix_buffer_get_meta st' (int i) = map_option (\<lambda>d. d\<lparr>meta_status := 0\<rparr>) (mix_buffer_get_meta st (int i)) \<and>
    (\<forall>j < buffer_blocks st. mix_buffer_read st' (of_nat j) = mix_buffer_read st (of_nat j) \<and>
       (j \<noteq> i \<longrightarrow> mix_buffer_get_meta st' (int j) = mix_buffer_get_meta st (int j)))"
proof -
  obtain st' where "mix_buffer_clear cpy st (of_nat i) = Some st'" "layout_ok st'"
    "buffer_desc st' i = map_option (\<lambda>d. d\<lparr>meta_status := 0\<rparr>) (buffer_desc st i)"
    "same_buffer_data st st' (\<lambda>_. True)" "same_buffer_desc st st' (\<lambda>j. j \<noteq> i)"
    by (rule mix_buffer_clear_spec [OF assms]) blast
  then show ?thesis by (auto simp: same_defs buffer_data_def buffer_desc_def)
qed

theorem buffer_clear_invalidates_witness:
  "\<exists>st st'. layout_ok st \<and> mix_buffer_clear mem_write st (of_nat 5) = Some st' \<and> layout_ok st'"
proof -
  obtain st where "layout_ok st" "buffer_blocks st = 2048" using program_state by blast
  then show ?thesis using buffer_clear_invalidates [OF mem_write_copies, of st 5] by auto
qed

text \<open>After any sequence of block writes to the NVM area every block reads as the last data
  written to it, or as before if it was not written.\<close>

lemma nvm_last_write_wins:
  assumes "pmem_copies cpy" "layout_ok st" "\<forall>(i, x) \<in> set ws. i < nvm_blocks st \<and> length x = 4096"
  shows "\<exists>st'. write_all nvm_dev_write ws (cpy, st) = Some (cpy, st') \<and> layout_ok st' \<and>
    (\<forall>j < nvm_blocks st. map_option fst (mix_nvm_read st' 1 (of_nat j)) =
       (case map_of (rev ws) j of None \<Rightarrow> map_option fst (mix_nvm_read st 1 (of_nat j)) | Some x \<Rightarrow> Some x))"
proof -
  have "\<exists>d'. write_all nvm_dev_write ws (cpy, st) = Some d' \<and> (\<lambda>(cpy, st). pmem_copies cpy \<and> layout_ok st) d' \<and>
      (\<lambda>(cpy, st). nvm_blocks st) d' = (\<lambda>(cpy, st). nvm_blocks st) (cpy, st) \<and>
      (\<forall>j < (\<lambda>(cpy, st). nvm_blocks st) (cpy, st). nvm_dev_read d' j =
         (case map_of (rev ws) j of None \<Rightarrow> nvm_dev_read (cpy, st) j | Some x \<Rightarrow> Some x))"
    by (rule nvm_dev.write_all_reads) (use assms in auto)
  moreover have "fst d' = cpy" if "write_all nvm_dev_write ws (cpy, st) = Some d'" for d'
    using that by (induction ws arbitrary: st) (auto simp: nvm_dev_write_def split: bind_splits)
  ultimately obtain st' where "write_all nvm_dev_write ws (cpy, st) = Some (cpy, st')" "layout_ok st'"
      "\<forall>j < nvm_blocks st. nvm_dev_read (cpy, st') j =
         (case map_of (rev ws) j of None \<Rightarrow> nvm_dev_read (cpy, st) j | Some x \<Rightarrow> Some x)"
    by (metis (no_types, lifting) case_prod_conv prod.collapse)
  then show ?thesis unfolding nvm_dev_read_def nvm_data_def case_prod_conv by blast
qed

text \<open>The device class: \<open>n\<close> blocks written at an offset read back as written, and both calls return
  the number of bytes.\<close>

theorem device_write_read:
  assumes "pmem_copies cpy" "device_ok d" "length src = n * 4096" "(i + n) * 4096 \<le> length (nd_mem d)"
  shows "\<exists>d'. NVMDevice_write cpy d src (of_nat n) (of_nat i) = Some (d', of_nat (n * 4096)) \<and> device_ok d' \<and>
    NVMDevice_read d' (of_nat n) (of_nat i) = Some (src, of_nat (n * 4096))"
  using NVMDevice_roundtrip [OF assms] .

theorem device_write_read_witness:
  "\<exists>d d'. NVMDevice_write mem_write d (replicate 8192 9) (of_nat 2) (of_nat 1) = Some (d', of_nat 8192) \<and>
    NVMDevice_read d' (of_nat 2) (of_nat 1) = Some (replicate 8192 9, of_nat 8192)"
proof -
  obtain d where "device_ok d" "nd_mem d = replicate 16384 0"
    using NVMDevice_ready [of "replicate 16384 0" 16384] by auto
  then show ?thesis using device_write_read [OF mem_write_copies, of d "replicate 8192 9" 2 1] by auto
qed

end
