(* ===== verification/Mix_Meta.thy ===== *)
theory Mix_Meta
  imports Mix_Bloom Nvm
begin

text \<open>
  The metadata of the NVM write buffer, \<open>src/src/mix_meta.c\<close>: four segments, each with a bitmap of
  its blocks and a hash index from logical addresses to blocks, and the migration of a full segment
  to the SSD. The operations pass the metadata, the persistent memory and the SSD explicitly.

  The SSD driver is not part of the repository: \<open>mix_ssd_write\<close> is a component of the environment,
  like the copy function of the persistent memory library.
\<close>

section \<open>The data structures\<close>

record free_segment =
  sg_size :: u64
  sg_block_num :: u32
  sg_migration :: bool
  sg_used_block_num :: int
  sg_bitmap :: mix_bitmap

text \<open>\<open>md_migration\<close> are the eight bytes between \<open>migrate_cond\<close> and \<open>bloom_filter\<close> on a machine
  with 64-bit pointers: the array \<open>migration\<close> of \<open>SEGMENT_NUM\<close> flags, and four bytes of padding.\<close>

record metadata =
  md_size :: u32
  md_block_num :: u32
  md_per_block_num :: u32
  md_hash :: "mix_hash list"
  md_migration :: "bool list"
  md_bloom_filter :: "bloom_filter option list"
  md_segments :: "free_segment list"
  md_migrate_thread_num :: u8
  md_migrate_segment_idx :: int

text \<open>What the code relies on from outside: \<open>env_ssd_write ssd buf len offset flags\<close> is the SSD
  after \<open>mix_ssd_write(buf, len, offset, flags)\<close>, \<open>env_ssd_read ssd len offset flags\<close> what \<open>mix_ssd_read\<close> delivers.\<close>

record 's environment =
  env_cpy :: copy_fn
  env_ssd_write :: "'s \<Rightarrow> u8 list \<Rightarrow> u64 \<Rightarrow> u64 \<Rightarrow> u64 \<Rightarrow> 's option"
  env_ssd_read :: "'s \<Rightarrow> u64 \<Rightarrow> u64 \<Rightarrow> u64 \<Rightarrow> u8 list option"

definition SEGMENT_NUM :: int where "SEGMENT_NUM = 4"
definition BUFFER_QUEUE_NUM :: u64 where "BUFFER_QUEUE_NUM = 4"

text \<open>The parts of the metadata by the index of the segment.\<close>

definition upd_segment :: "metadata \<Rightarrow> int \<Rightarrow> (free_segment \<Rightarrow> free_segment) \<Rightarrow> metadata option" where
  "upd_segment md idx f = do {
     s \<leftarrow> arr_get (md_segments md) idx;
     ss \<leftarrow> arr_set (md_segments md) idx (f s);
     Some (md\<lparr>md_segments := ss\<rparr>)
   }"

definition upd_hash :: "metadata \<Rightarrow> int \<Rightarrow> mix_hash \<Rightarrow> metadata option" where
  "upd_hash md idx h = do {
     hs \<leftarrow> arr_set (md_hash md) idx h;
     Some (md\<lparr>md_hash := hs\<rparr>)
   }"

section \<open>Initialisation\<close>

text \<open>\<open>mix_free_segment_init\<close>: the flag \<open>migration\<close> is not written, its old value \<open>old\<close> is
  whatever the memory held.\<close>

definition mix_free_segment_init :: "bool \<Rightarrow> u32 \<Rightarrow> free_segment option" where
  "mix_free_segment_init old sz = do {
     bitmap \<leftarrow> mix_bitmap_init True True True (uint (sz div 4096));
     Some \<lparr>sg_size = ucast sz, sg_block_num = sz div 4096, sg_migration = old,
       sg_used_block_num = 0, sg_bitmap = bitmap\<rparr>
   }"

text \<open>\<open>mix_metadata_init\<close> when every allocation and every \<open>pthread_create\<close> succeeds. \<open>old_flags\<close> and
  \<open>old_segs\<close> are the former contents of the flags that are not written; \<open>ceil_nfuncs\<close> and
  \<open>ceil_counts\<close> are the floating point results of the bloom filter for the error rate 0.01.\<close>

definition mix_metadata_init ::
    "int \<Rightarrow> (u64 \<Rightarrow> int) \<Rightarrow> bool list \<Rightarrow> bool list \<Rightarrow> u32 \<Rightarrow> metadata option" where
  "mix_metadata_init ceil_nfuncs ceil_counts old_flags old_segs block_num =
     (let per_block_num = block_num div 4;
          per_segment_size = 4096 * per_block_num
      in do {
        hash \<leftarrow> mix_hash_init True True (sint per_block_num) 100;
        bloom \<leftarrow> mix_counting_bloom_filter_init True (True, True, True) ceil_nfuncs ceil_counts per_block_num;
        s0 \<leftarrow> mix_free_segment_init (old_segs ! 0) per_segment_size;
        s1 \<leftarrow> mix_free_segment_init (old_segs ! 1) per_segment_size;
        s2 \<leftarrow> mix_free_segment_init (old_segs ! 2) per_segment_size;
        s3 \<leftarrow> mix_free_segment_init (old_segs ! 3) per_segment_size;
        Some \<lparr>md_size = block_num * 4096, md_block_num = block_num, md_per_block_num = per_block_num,
          md_hash = [hash, hash, hash, hash], md_migration = old_flags,
          md_bloom_filter = [bloom, bloom, bloom, bloom], md_segments = [s0, s1, s2, s3],
          md_migrate_thread_num = 8, md_migrate_segment_idx = 0\<rparr>
      })"

text \<open>\<open>mix_metadata_free\<close>: the node stores after the four tables were freed; the bitmaps and the structure
  itself are only released.\<close>

definition mix_metadata_free :: "metadata \<Rightarrow> store list option" where
  "mix_metadata_free md = those (map (\<lambda>i. arr_get (md_hash md) i \<bind> mix_hash_free) [0, 1, 2, 3])"

section \<open>Allocation and lookup\<close>

definition mix_get_next_free_block :: "metadata \<Rightarrow> int \<Rightarrow> (metadata \<times> int) option" where
  "mix_get_next_free_block md idx = do {
     s \<leftarrow> arr_get (md_segments md) idx;
     if sg_used_block_num s = uint (md_per_block_num md) then Some (md, -1)
     else do {
       (bitmap, z) \<leftarrow> mix_bitmap_next_zero_bit (sg_bitmap s);
       md \<leftarrow> upd_segment md idx (\<lambda>s. s\<lparr>sg_bitmap := bitmap\<rparr>);
       Some (md, z)
     }
   }"

text \<open>\<open>mix_write_redirect_blockmeta\<close>: the bit that is tested and set is \<open>(value - idx) / SEGMENT_NUM\<close>,
  kept in a \<open>uint32_t\<close> and passed on as \<open>int\<close>.\<close>

definition mix_write_redirect_blockmeta ::
    "metadata \<Rightarrow> int \<Rightarrow> u32 \<Rightarrow> int \<Rightarrow> (metadata \<times> bool) option" where
  "mix_write_redirect_blockmeta md idx offset v =
     (let bit = word_of_int ((v - idx) sdiv SEGMENT_NUM) :: u32
      in do {
        s \<leftarrow> arr_get (md_segments md) idx;
        (bitmap, old) \<leftarrow> mix_bitmap_set_bit (sg_bitmap s) (sint bit);
        md \<leftarrow> upd_segment md idx (\<lambda>s. s\<lparr>sg_bitmap := bitmap\<rparr>);
        if old = 0 then Some (md, False)
        else do {
          h \<leftarrow> arr_get (md_hash md) idx;
          h \<leftarrow> mix_hash_put h offset (word_of_int v);
          md \<leftarrow> upd_hash md idx h;
          md \<leftarrow> upd_segment md idx (\<lambda>s. s\<lparr>sg_used_block_num := sg_used_block_num s + 1\<rparr>);
          Some (md, False)
        }
      })"

definition mix_buffer_block_test :: "metadata \<Rightarrow> u32 \<Rightarrow> int \<Rightarrow> int option" where
  "mix_buffer_block_test md offset idx = do {
     h \<leftarrow> arr_get (md_hash md) idx;
     v \<leftarrow> mix_hash_get h offset;
     if v = -1 then Some v
     else if md_per_block_num md = 0 then None
     else let bit = sint (word_of_int v mod md_per_block_num md)
          in do {
            s \<leftarrow> arr_get (md_segments md) idx;
            t \<leftarrow> mix_bitmap_test_bit (sg_bitmap s) bit;
            Some (if t = 0 then -1 else v)
          }
   }"

definition mix_has_free_block :: "metadata \<Rightarrow> int \<Rightarrow> bool option" where
  "mix_has_free_block md idx = do {
     s \<leftarrow> arr_get (md_segments md) idx;
     Some (sg_used_block_num s < uint (sg_block_num s))
   }"

text \<open>\<open>mix_in_migration\<close> assigns where it should compare.\<close>

definition mix_in_migration :: "metadata \<Rightarrow> int \<Rightarrow> (metadata \<times> bool) option" where
  "mix_in_migration md idx = do {
     md \<leftarrow> upd_segment md idx (\<lambda>s. s\<lparr>sg_migration := True\<rparr>);
     Some (md, True)
   }"

definition mix_segment_migrating :: "metadata \<Rightarrow> int \<Rightarrow> bool option" where
  "mix_segment_migrating md idx = map_option sg_migration (arr_get (md_segments md) idx)"

definition mix_buffer_migrating :: "metadata \<Rightarrow> bool option" where
  "mix_buffer_migrating md = do {
     m0 \<leftarrow> mix_segment_migrating md 0;
     m1 \<leftarrow> mix_segment_migrating md 1;
     m2 \<leftarrow> mix_segment_migrating md 2;
     m3 \<leftarrow> mix_segment_migrating md 3;
     Some (m0 \<and> m1 \<and> m2 \<and> m3)
   }"

section \<open>Clearing and rebuilding\<close>

text \<open>The buffer block of offset \<open>b\<close> in segment \<open>idx\<close>, \<open>idx * per_block_num + b\<close> in \<open>uint32_t\<close>.\<close>

definition segment_block :: "metadata \<Rightarrow> int \<Rightarrow> int \<Rightarrow> u64" where
  "segment_block md idx b = ucast (word_of_int idx * md_per_block_num md + word_of_int b :: u32)"

text \<open>\<open>mix_clear_block\<close>: \<open>n\<close> iterations are left, \<open>i\<close> is the loop counter.\<close>

fun clear_block_loop ::
    "'s environment \<Rightarrow> nat \<Rightarrow> nat \<Rightarrow> u64 \<Rightarrow> int \<Rightarrow> metadata \<times> nvm_state \<Rightarrow> (metadata \<times> nvm_state) option" where
  "clear_block_loop env 0 i offset idx (md, nvm) = Some (md, nvm)"
| "clear_block_loop env (Suc n) i offset idx (md, nvm) =
     (let key = ucast (offset + of_nat i * BUFFER_QUEUE_NUM) :: u32
      in do {
        h \<leftarrow> arr_get (md_hash md) idx;
        v \<leftarrow> mix_hash_get h key;
        if v = -1 then Some (md, nvm)
        else do {
          h \<leftarrow> mix_hash_delete h key;
          md \<leftarrow> upd_hash md idx h;
          if md_per_block_num md = 0 then None
          else let bit = sint (word_of_int v mod md_per_block_num md)
               in do {
                 s \<leftarrow> arr_get (md_segments md) idx;
                 (bitmap, _) \<leftarrow> mix_bitmap_clear_bit (sg_bitmap s) bit;
                 nvm \<leftarrow> mix_buffer_clear (env_cpy env) nvm (segment_block md idx bit);
                 md \<leftarrow> upd_segment md idx (\<lambda>s. s\<lparr>sg_bitmap := bitmap,
                         sg_used_block_num := sg_used_block_num s - 1\<rparr>);
                 clear_block_loop env n (Suc i) offset idx (md, nvm)
               }
        }
      })"

definition mix_clear_block ::
    "'s environment \<Rightarrow> u64 \<Rightarrow> u64 \<Rightarrow> int \<Rightarrow> metadata \<times> nvm_state \<Rightarrow> (metadata \<times> nvm_state) option" where
  "mix_clear_block env len0 offset idx st = clear_block_loop env (unat len0) 0 offset idx st"

text \<open>The loop of \<open>mix_buffer_rebuild\<close> from offset \<open>off\<close> on, \<open>n\<close> iterations left.\<close>

fun rebuild_loop :: "nat \<Rightarrow> nat \<Rightarrow> nvm_state \<Rightarrow> int \<Rightarrow> metadata \<Rightarrow> metadata option" where
  "rebuild_loop 0 off nvm idx md = Some md"
| "rebuild_loop (Suc n) off nvm idx md = do {
     m \<leftarrow> mix_buffer_get_meta nvm (idx * sint (md_per_block_num md) + int off);
     if meta_status m AND 1 \<noteq> 0
     then do {
       s \<leftarrow> arr_get (md_segments md) idx;
       (bitmap, _) \<leftarrow> mix_bitmap_set_bit (sg_bitmap s) (int off);
       md \<leftarrow> upd_segment md idx (\<lambda>s. s\<lparr>sg_bitmap := bitmap,
               sg_used_block_num := sg_used_block_num s + 1\<rparr>);
       h \<leftarrow> arr_get (md_hash md) idx;
       h \<leftarrow> mix_hash_put h (ucast (meta_offset m)) (of_nat off);
       md \<leftarrow> upd_hash md idx h;
       rebuild_loop n (Suc off) nvm idx md
     }
     else rebuild_loop n (Suc off) nvm idx md
   }"

definition mix_buffer_rebuild :: "nvm_state \<Rightarrow> metadata \<Rightarrow> int \<Rightarrow> (metadata \<times> bool) option" where
  "mix_buffer_rebuild nvm md idx =
     map_option (\<lambda>md. (md, True)) (rebuild_loop (unat (md_per_block_num md)) 0 nvm idx md)"

fun segment_clear_loop :: "'s environment \<Rightarrow> nat \<Rightarrow> metadata \<Rightarrow> int \<Rightarrow> nvm_state \<Rightarrow> nvm_state option" where
  "segment_clear_loop env 0 md idx nvm = Some nvm"
| "segment_clear_loop env (Suc i) md idx nvm =
     segment_clear_loop env i md idx nvm \<bind>
       (\<lambda>nvm. mix_buffer_clear (env_cpy env) nvm (word_of_int (idx * sint (md_per_block_num md) + int i)))"

definition mix_segment_clear :: "'s environment \<Rightarrow> metadata \<Rightarrow> int \<Rightarrow> nvm_state \<Rightarrow> nvm_state option" where
  "mix_segment_clear env md idx nvm = segment_clear_loop env (unat (md_per_block_num md)) md idx nvm"

section \<open>Migration\<close>

text \<open>\<open>migrate_from_buffer_to_ssd\<close>: the block is read into the thread's own buffer.\<close>

definition migrate_from_buffer_to_ssd ::
    "'s environment \<Rightarrow> u32 \<Rightarrow> u32 \<Rightarrow> nvm_state \<times> 's \<Rightarrow> (nvm_state \<times> 's) option" where
  "migrate_from_buffer_to_ssd env src dst = (\<lambda>(nvm, ssd). do {
     buf \<leftarrow> mix_buffer_read nvm (ucast src);
     ssd \<leftarrow> env_ssd_write env ssd buf 1 (ucast dst) 0;
     nvm \<leftarrow> mix_buffer_clear (env_cpy env) nvm (ucast src);
     Some (nvm, ssd)
   })"

text \<open>The inner loop of the migration thread: one bucket is emptied.\<close>

partial_function (option) migrate_bucket ::
    "'s environment \<Rightarrow> int \<Rightarrow> int \<Rightarrow> metadata \<times> nvm_state \<times> 's \<Rightarrow> (metadata \<times> nvm_state \<times> 's) option" where
  "migrate_bucket env segment_idx migrate_idx st =
     (case st of (md, nvm, ssd) \<Rightarrow> do {
        h \<leftarrow> arr_get (md_hash md) segment_idx;
        (h, kv) \<leftarrow> mix_hash_get_entry_by_idx h migrate_idx;
        md \<leftarrow> upd_hash md segment_idx h;
        if kv_key kv = -1 \<or> kv_value kv = -1 then Some (md, nvm, ssd)
        else do {
          (nvm, ssd) \<leftarrow> migrate_from_buffer_to_ssd env (kv_value kv) (kv_key kv) (nvm, ssd);
          md \<leftarrow> upd_segment md segment_idx (\<lambda>s. s\<lparr>sg_used_block_num := sg_used_block_num s - 1\<rparr>);
          migrate_bucket env segment_idx migrate_idx (md, nvm, ssd)
        }
      })"

text \<open>One round of a migration thread: the buckets \<open>thread_idx, thread_idx + 8, ...\<close>.\<close>

partial_function (option) migrate_round ::
    "'s environment \<Rightarrow> int \<Rightarrow> int \<Rightarrow> metadata \<times> nvm_state \<times> 's \<Rightarrow> (metadata \<times> nvm_state \<times> 's) option" where
  "migrate_round env segment_idx migrate_idx st =
     (case st of (md, nvm, ssd) \<Rightarrow> do {
        h \<leftarrow> arr_get (md_hash md) segment_idx;
        if migrate_idx < mh_size h
        then do {
          st \<leftarrow> migrate_bucket env segment_idx migrate_idx st;
          migrate_round env segment_idx (migrate_idx + uint (md_migrate_thread_num md)) st
        }
        else Some st
      })"

text \<open>\<open>mix_segment_migration_begin\<close>: the flag of every thread is set; the array has four flags.\<close>

fun set_flags :: "nat \<Rightarrow> bool list \<Rightarrow> bool list option" where
  "set_flags 0 flags = Some flags"
| "set_flags (Suc i) flags = set_flags i flags \<bind> (\<lambda>flags. arr_set flags (int i) True)"

definition mix_segment_migration_begin :: "metadata \<Rightarrow> int list \<Rightarrow> int \<Rightarrow> (metadata \<times> int list) option" where
  "mix_segment_migration_begin md completed idx = do {
     completed \<leftarrow> arr_set completed idx 0;
     flags \<leftarrow> set_flags (unat (md_migrate_thread_num md)) (md_migration md);
     Some (md\<lparr>md_migrate_segment_idx := idx, md_migration := flags\<rparr>, completed)
   }"

text \<open>\<open>mix_segment_migration_end\<close> once every thread is done; \<open>None\<close> while it waits.\<close>

definition mix_segment_migration_end :: "metadata \<Rightarrow> int list \<Rightarrow> int \<Rightarrow> (metadata \<times> int list) option" where
  "mix_segment_migration_end md completed idx = do {
     c \<leftarrow> arr_get completed idx;
     if c < uint (md_migrate_thread_num md) then None
     else do {
       completed \<leftarrow> arr_set completed idx 0;
       s \<leftarrow> arr_get (md_segments md) idx;
       bitmap \<leftarrow> mix_bitmap_clear (sg_bitmap s);
       md \<leftarrow> upd_segment md idx (\<lambda>s. s\<lparr>sg_bitmap := bitmap\<rparr>);
       Some (md, completed)
     }
   }"

text \<open>One pass of a migration thread: once its flag is set it works on the segment it finds in
  \<open>migrate_segment_idx\<close>, counts itself as finished and resets its flag.\<close>

definition migrate_pass ::
    "'s environment \<Rightarrow> nat \<Rightarrow> (metadata \<times> nvm_state \<times> 's) \<times> int list \<Rightarrow>
       ((metadata \<times> nvm_state \<times> 's) \<times> int list) option" where
  "migrate_pass env thread_idx = (\<lambda>((md, nvm, ssd), completed). do {
     flag \<leftarrow> arr_get (md_migration md) (int thread_idx);
     if \<not> flag then None
     else let segment_idx = md_migrate_segment_idx md
          in do {
            (md, nvm, ssd) \<leftarrow> migrate_round env segment_idx (int thread_idx) (md, nvm, ssd);
            c \<leftarrow> arr_get completed segment_idx;
            completed \<leftarrow> arr_set completed segment_idx (c + 1);
            flags \<leftarrow> arr_set (md_migration md) (int thread_idx) False;
            Some ((md\<lparr>md_migration := flags\<rparr>, nvm, ssd), completed)
          }
   })"

definition mix_migrate :: "metadata \<Rightarrow> int \<Rightarrow> metadata option" where
  "mix_migrate md idx = do {
     h \<leftarrow> arr_get (md_hash md) idx;
     upd_hash md idx (h\<lparr>mh_entry_idx := 0\<rparr>)
   }"

section \<open>Segments\<close>

text \<open>A segment in order: its bitmap has one bit per block, its index is well-formed.\<close>

definition segment_ok :: "metadata \<Rightarrow> nat \<Rightarrow> bool" where
  "segment_ok md i \<longleftrightarrow> i < length (md_segments md) \<and> i < length (md_hash md) \<and> i < 4 \<and>
     0 < unat (md_per_block_num md) \<and> unat (md_per_block_num md) < 2 ^ 29 \<and>
     bitmap_ok (sg_bitmap (md_segments md ! i)) \<and>
     bm_bits (sg_bitmap (md_segments md ! i)) = unat (md_per_block_num md) \<and>
     hash_ok (md_hash md ! i) \<and> hash_len_ok (md_hash md ! i)"

abbreviation seg_hash :: "metadata \<Rightarrow> nat \<Rightarrow> mix_hash" where
  "seg_hash md i \<equiv> md_hash md ! i"

abbreviation seg_bitmap :: "metadata \<Rightarrow> nat \<Rightarrow> mix_bitmap" where
  "seg_bitmap md i \<equiv> sg_bitmap (md_segments md ! i)"

lemma upd_segment_int:
  "i < length (md_segments md) \<Longrightarrow> upd_segment md (int i) f =
     Some (md\<lparr>md_segments := (md_segments md)[i := f (md_segments md ! i)]\<rparr>)"
  by (simp add: upd_segment_def)

lemma upd_hash_int:
  "i < length (md_hash md) \<Longrightarrow> upd_hash md (int i) h = Some (md\<lparr>md_hash := (md_hash md)[i := h]\<rparr>)"
  by (simp add: upd_hash_def)

text \<open>The metadata outside segment \<open>i\<close> is what it was, and so is its flag.\<close>

definition same_other_segments :: "nat \<Rightarrow> metadata \<Rightarrow> metadata \<Rightarrow> bool" where
  "same_other_segments i md md' \<longleftrightarrow> md_per_block_num md' = md_per_block_num md \<and>
     length (md_hash md') = length (md_hash md) \<and> length (md_segments md') = length (md_segments md) \<and>
     sg_migration (md_segments md' ! i) = sg_migration (md_segments md ! i) \<and>
     (\<forall>j. j \<noteq> i \<longrightarrow> seg_hash md' j = seg_hash md j \<and> md_segments md' ! j = md_segments md ! j)"

text \<open>The eight threads and their flags.\<close>

definition threads_ok :: "metadata \<Rightarrow> bool" where
  "threads_ok md \<longleftrightarrow> md_migrate_thread_num md = 8 \<and> length (md_migration md) = 8"

section \<open>The entries of an index\<close>

text \<open>The entries of a list of buckets.\<close>

definition entries_of :: "mix_hash \<Rightarrow> nat list \<Rightarrow> (u32 \<times> u32) list" where
  "entries_of h js = concat (map (bucket h) js)"

lemma entries_of_simps [simp]:
  "entries_of h [] = []" "entries_of h (j # js) = bucket h j @ entries_of h js"
  "entries_of h (js @ js') = entries_of h js @ entries_of h js'"
  by (simp_all add: entries_of_def)

lemma entries_of_cong: "(\<And>j. j \<in> set js \<Longrightarrow> bucket h j = bucket h' j) \<Longrightarrow> entries_of h js = entries_of h' js"
  by (auto simp: entries_of_def intro!: arg_cong [of _ _ concat])

text \<open>The entries of a table by key, and their number.\<close>

definition hash_count :: "mix_hash \<Rightarrow> nat" where
  "hash_count h = length (entries_of h [0..<length (mh_nodes h)])"

lemma bucket_stack:
  assumes "hash_ok h" "j < length (mh_nodes h)"
  shows "(k, v) \<in> set (bucket h j) \<longleftrightarrow> j = key_bucket h k \<and> v \<in> set (hash_stack h k)"
proof -
  obtain fs bs where rep: "hash_rep h fs bs" using assms(1) by (auto simp: hash_ok_def)
  have len: "length bs = length (mh_nodes h)" using hash_rep_length [OF rep] by simp
  have "j = key_bucket h k" if b: "(k, v) \<in> set (bucket h j)"
  proof -
    obtain a where "a \<in> set (bs ! j)" "entry (mh_store h) a = (k, v)"
      using b hash_rep_bucket [OF rep] assms(2) len by force
    moreover have "hash_placed h bs" using rep by (simp add: hash_rep_def)
    ultimately have "mix_hash_hash k (mh_size h) = Some (int j)"
      using assms(2) len unfolding hash_placed_def by (metis fst_conv)
    then show ?thesis by (simp add: key_bucket_def)
  qed
  moreover have "v \<in> set (versions k es) \<longleftrightarrow> (k, v) \<in> set es" for es by (force simp: versions_def)
  ultimately show ?thesis by (auto simp: hash_stack_def)
qed

lemma key_bucket_less: "hash_ok h \<Longrightarrow> key_bucket h k < length (mh_nodes h)"
  using hash_rep_length key_bucket_spec(2) unfolding hash_ok_def by metis

lemma entries_stack:
  assumes "hash_ok h" "set js = {..<length (mh_nodes h)}"
  shows "(k, v) \<in> set (entries_of h js) \<longleftrightarrow> v \<in> set (hash_stack h k)"
  using assms bucket_stack [OF assms(1)] key_bucket_less [OF assms(1)] by (auto simp: entries_of_def)

lemma entries_length:
  assumes "distinct js" "set js = {..<length (mh_nodes h)}"
  shows "length (entries_of h js) = hash_count h"
proof -
  have "sum_list (map f js) = sum_list (map f [0..<length (mh_nodes h)])" for f :: "nat \<Rightarrow> nat"
    using assms by (simp add: sum_list_distinct_conv_sum_set atLeast0LessThan)
  then show ?thesis by (simp add: hash_count_def entries_of_def length_concat comp_def)
qed


section \<open>Filling a segment\<close>

lemma put_count:
  assumes "hash_ok h" "mix_hash_put h k v = Some h'"
  shows "hash_count h' = Suc (hash_count h)"
proof -
  obtain fs bs where rep: "hash_rep h fs bs" using assms(1) by (auto simp: hash_ok_def)
  then obtain a fs' where fs: "fs = a # fs'" using mix_hash_put_full assms(2) by (cases fs) auto
  let ?i = "key_bucket h k" and ?N = "length (mh_nodes h)"
  have i: "?i < ?N" using key_bucket_less assms(1) by simp
  have h': "length (mh_nodes h') = ?N"
    "\<And>j. j < length bs \<Longrightarrow> bucket h' j = (if j = ?i then (k, v) # bucket h ?i else bucket h j)"
    using mix_hash_put_rep [OF rep [unfolded fs] refl, of k v] assms(2) by (metis option.inject length_list_update)+
  have count: "hash_count g = (\<Sum>j < length (mh_nodes g). length (bucket g j))" for g
    by (simp add: hash_count_def entries_of_def length_concat comp_def sum_list_distinct_conv_sum_set atLeast0LessThan)
  have "hash_count h' = (\<Sum>j < ?N. length (bucket h j) + (if j = ?i then 1 else 0))"
    unfolding count h'(1) using h'(2) hash_rep_length [OF rep] by (intro sum.cong) auto
  also have "\<dots> = Suc (hash_count h)" using i by (simp add: count sum.distrib)
  finally show ?thesis .
qed

lemma put_indexed:
  assumes "hash_ok h" "hash_len_ok h" "0 < hash_room h"
  obtains h' where "mix_hash_put h k v = Some h'" "hash_ok h'" "hash_len_ok h'"
    "hash_stack h' = (hash_stack h)(k := v # hash_stack h k)" "Suc (hash_room h') = hash_room h"
    "hash_count h' = Suc (hash_count h)"
  using mix_hash_put_spec [OF assms(1,3), of k v] mix_hash_put_len [OF assms(1,2)] put_count [OF assms(1)] by metis

text \<open>The first \<open>n\<close> blocks of segment \<open>i\<close> are in use, each is indexed under one address.\<close>

definition filled :: "metadata \<Rightarrow> nat \<Rightarrow> nat \<Rightarrow> bool" where
  "filled md i n \<longleftrightarrow> segment_ok md i \<and> n \<le> unat (md_per_block_num md) \<and>
     (\<forall>j < unat (md_per_block_num md). bit_at (seg_bitmap md i) j \<longleftrightarrow> j < n) \<and>
     bm_next_bit (seg_bitmap md i) = int (n mod unat (md_per_block_num md)) \<and>
     sg_used_block_num (md_segments md ! i) = int n \<and>
     hash_room (seg_hash md i) + n = unat (md_per_block_num md) \<and> hash_count (seg_hash md i) = n \<and>
     (\<forall>k. length (hash_stack (seg_hash md i) k) \<le> 1 \<and>
        (\<forall>v \<in> set (hash_stack (seg_hash md i) k). unat v < n)) \<and>
     (\<forall>k k' v. v \<in> set (hash_stack (seg_hash md i) k) \<longrightarrow> v \<in> set (hash_stack (seg_hash md i) k') \<longrightarrow> k = k')"

lemma next_free_block_full: "filled md i (unat (md_per_block_num md)) \<Longrightarrow>
    mix_get_next_free_block md (int i) = Some (md, -1)"
  by (simp add: filled_def segment_ok_def mix_get_next_free_block_def)

lemma next_free_block_filled:
  assumes f: "filled md i n" and n: "n < unat (md_per_block_num md)"
  obtains b where "mix_get_next_free_block md (int i) =
      Some (md\<lparr>md_segments := (md_segments md)[i := (md_segments md ! i)\<lparr>sg_bitmap := b\<rparr>]\<rparr>, int n)"
    "bitmap_ok b" "bm_bits b = unat (md_per_block_num md)" "bm_next_bit b = int (Suc n mod unat (md_per_block_num md))"
    "\<And>j. j < unat (md_per_block_num md) \<Longrightarrow> bit_at b j \<longleftrightarrow> j < Suc n"
proof -
  let ?b = "seg_bitmap md i" and ?per = "unat (md_per_block_num md)"
  have b: "bitmap_ok ?b" "bm_bits ?b = ?per" "i < length (md_segments md)" "\<not> bit_at ?b n" "bm_next_bit ?b = int n"
    "sg_used_block_num (md_segments md ! i) = int n" "\<And>j. j < ?per \<Longrightarrow> bit_at ?b j \<longleftrightarrow> j < n"
    using f n by (auto simp: filled_def segment_ok_def)
  have "int n < int ?per" using n by (simp only: of_nat_less_iff)
  then have ne: "int n \<noteq> uint (md_per_block_num md)" by simp
  have n': "n < bm_bits ?b" using n b(2) by simp
  obtain b' z d where z: "mix_bitmap_next_zero_bit ?b = Some (b', int z)" "z = (n + d) mod bm_bits ?b"
    "\<And>j. j < d \<Longrightarrow> bit_at ?b ((n + j) mod bm_bits ?b)"
    "bitmap_ok b'" "bm_bytes b' = bm_bytes ?b" "\<And>j. j < bm_alloc ?b \<Longrightarrow> bit_at b' j \<longleftrightarrow> j = z \<or> bit_at ?b j"
    "bm_next_bit b' = next_hint ?b z"
    by (rule mix_bitmap_next_zero_bit_finds [OF b(1) n' b(4,5) n']) blast
  have "d = 0" using z(3) [of 0] b(2,4) n by (cases d) auto
  then have zn: "z = n" using z(2) b(2) n by simp
  have "?per \<le> bm_alloc ?b" using b(1,2) by (simp add: bitmap_ok_def)
  then have "bit_at b' j \<longleftrightarrow> j < Suc n" if "j < ?per" for j using z(6) [of j] b(7) [of j] that zn by auto
  moreover have "bm_next_bit b' = int (Suc n mod ?per)" using z(7) b(2,4,5) zn by (simp add: next_hint_def)
  moreover have "bm_bits b' = ?per" using z(5) b(2) by (simp add: bm_bits_def)
  moreover have "mix_get_next_free_block md (int i) =
      Some (md\<lparr>md_segments := (md_segments md)[i := (md_segments md ! i)\<lparr>sg_bitmap := b'\<rparr>]\<rparr>, int n)"
    using b(3,6) ne z(1) zn by (simp add: mix_get_next_free_block_def upd_segment_int)
  ultimately show thesis using that z(4) by blast
qed

text \<open>The bit that \<open>mix_write_redirect_blockmeta\<close> tests is never a later one.\<close>

lemma redirect_bit:
  assumes "n < 2 ^ 29" "i < 4"
  obtains k where "sint (word_of_int ((int n - int i) sdiv SEGMENT_NUM) :: u32) = int k" "k \<le> n"
proof (cases "i \<le> n")
  case True
  then have "(int n - int i) sdiv SEGMENT_NUM = int ((n - i) div 4)"
    by (simp add: SEGMENT_NUM_def sdiv_nonneg zdiv_int of_nat_diff)
  moreover have "unat (of_nat ((n - i) div 4) :: u32) = (n - i) div 4"
    using assms(1) by (simp add: unsigned_of_nat take_bit_nat_eq_self)
  then have "sint (of_nat ((n - i) div 4) :: u32) = int ((n - i) div 4)"
    using assms(1) by (subst sint_small) simp_all
  ultimately show thesis using that [of "(n - i) div 4"] by simp
next
  case False
  then have "int n - int i \<in> {-3..-1}" using assms(2) by auto
  then have "int n - int i = -3 \<or> int n - int i = -2 \<or> int n - int i = -1" by auto
  then have "(int n - int i) sdiv SEGMENT_NUM = 0" by (auto simp: SEGMENT_NUM_def signed_divide_int_def)
  then show thesis using that [of 0] by simp
qed

lemma block_test_filled:
  assumes f: "filled md i n"
  shows "mix_buffer_block_test md k (int i) =
    Some (case hash_stack (seg_hash md i) k of [] \<Rightarrow> -1 | v # _ \<Rightarrow> int (unat v))"
proof -
  let ?h = "seg_hash md i" and ?per = "md_per_block_num md"
  have s: "segment_ok md i" using f by (simp add: filled_def)
  then have idx: "i < length (md_hash md)" "i < length (md_segments md)" "hash_ok ?h" "bitmap_ok (seg_bitmap md i)"
    "bm_bits (seg_bitmap md i) = unat ?per" "unat ?per < 2 ^ 29" "?per \<noteq> 0"
    by (auto simp: segment_ok_def)
  have get: "mix_hash_get ?h k = Some (case hash_stack ?h k of [] \<Rightarrow> -1 | v # _ \<Rightarrow> sint v)"
    using idx(3) mix_hash_get_stack unfolding hash_ok_def by metis
  show ?thesis
  proof (cases "hash_stack ?h k")
    case Nil
    then show ?thesis using get idx by (simp add: mix_buffer_block_test_def)
  next
    case (Cons v vs)
    then have v: "unat v < n" "n \<le> unat ?per" using f by (auto simp: filled_def dest: spec [of _ k])
    then have "sint v = int (unat v)" using idx(6) by (intro sint_small) simp
    moreover have "word_of_nat (unat v) = v" by simp
    moreover have "v mod ?per = v" using v by (simp add: word_unat_eq_iff unat_mod)
    moreover have "bit_at (seg_bitmap md i) (unat v)" using f v by (simp add: filled_def)
    moreover have "unat v < bm_alloc (seg_bitmap md i)" using idx(4,5) v by (simp add: bitmap_ok_def)
    ultimately show ?thesis
      using get Cons idx by (simp add: mix_buffer_block_test_def mix_bitmap_test_bit_eq del: of_nat_unat)
  qed
qed

text \<open>One more block: its bit is set, the hint moves on and its address is indexed.\<close>

lemma filled_step:
  assumes f: "filled md i n" and n: "n < unat (md_per_block_num md)" and k: "hash_stack (seg_hash md i) k = []"
    and b: "bitmap_ok b" "bm_bits b = unat (md_per_block_num md)" "bm_next_bit b = int (Suc n mod unat (md_per_block_num md))"
      "\<And>j. j < unat (md_per_block_num md) \<Longrightarrow> bit_at b j \<longleftrightarrow> j < Suc n"
    and h: "hash_ok h" "hash_len_ok h" "hash_stack h = (hash_stack (seg_hash md i))(k := [of_nat n])"
      "Suc (hash_room h) = hash_room (seg_hash md i)" "hash_count h = Suc n"
  shows "filled (md\<lparr>md_hash := (md_hash md)[i := h], md_segments := (md_segments md)[i := (md_segments md ! i)
    \<lparr>sg_bitmap := b, sg_used_block_num := sg_used_block_num (md_segments md ! i) + 1\<rparr>]\<rparr>) i (Suc n)" (is "filled ?md' i _")
proof -
  let ?h = "seg_hash md i" and ?per = "unat (md_per_block_num md)"
  have s: "segment_ok md i" and fh: "\<And>k. length (hash_stack ?h k) \<le> 1" "\<And>k v. v \<in> set (hash_stack ?h k) \<Longrightarrow> unat v < n"
      "\<And>k k' v. v \<in> set (hash_stack ?h k) \<Longrightarrow> v \<in> set (hash_stack ?h k') \<Longrightarrow> k = k'"
    using f by (auto simp: filled_def)
  then have i: "i < length (md_segments md)" "i < length (md_hash md)" and per: "?per < 2 ^ 29"
    by (simp_all add: segment_ok_def)
  have un: "unat (of_nat n :: u32) = n" using n per by (simp add: unsigned_of_nat take_bit_nat_eq_self)
  have new: "of_nat n \<notin> set (hash_stack ?h k')" for k' using fh(2) [of "of_nat n" k'] un by auto
  have "segment_ok ?md' i" using s b(1,2) h(1,2) by (simp add: segment_ok_def)
  moreover have "length (hash_stack h k') \<le> 1 \<and> (\<forall>v \<in> set (hash_stack h k'). unat v < Suc n)" for k'
    using h(3) fh(1) un by (auto dest: fh(2) simp: less_Suc_eq)
  moreover have "k1 = k2" if "v \<in> set (hash_stack h k1)" "v \<in> set (hash_stack h k2)" for k1 k2 v
    using that h(3) new fh(3) by (auto split: if_splits)
  ultimately show ?thesis
    using i n f b(3,4) h(4,5) unfolding filled_def by auto
qed

lemma redirect_blockmeta_filled:
  assumes f: "filled md i n" and n: "n < unat (md_per_block_num md)" and k: "hash_stack (seg_hash md i) k = []"
    and b: "bitmap_ok b" "bm_bits b = unat (md_per_block_num md)" "bm_next_bit b = int (Suc n mod unat (md_per_block_num md))"
      "\<And>j. j < unat (md_per_block_num md) \<Longrightarrow> bit_at b j \<longleftrightarrow> j < Suc n"
    and md1: "md1 = md\<lparr>md_segments := (md_segments md)[i := (md_segments md ! i)\<lparr>sg_bitmap := b\<rparr>]\<rparr>"
  obtains md' where "mix_write_redirect_blockmeta md1 (int i) k (int n) = Some (md', False)"
    "filled md' i (Suc n)" "hash_stack (seg_hash md' i) = (hash_stack (seg_hash md i))(k := [of_nat n])"
    "same_other_segments i md md'" "threads_ok md' \<longleftrightarrow> threads_ok md"
proof -
  let ?h = "seg_hash md i" and ?per = "unat (md_per_block_num md)"
  have i: "i < length (md_segments md)" "i < length (md_hash md)" "i < 4" "hash_ok ?h" "hash_len_ok ?h"
    and per: "?per < 2 ^ 29" and room: "hash_room ?h + n = ?per" "hash_count ?h = n"
    using f by (simp_all add: filled_def segment_ok_def)
  have pos: "0 < hash_room ?h" using room n by simp
  obtain h' where h': "mix_hash_put ?h k (of_nat n) = Some h'" "hash_ok h'" "hash_len_ok h'"
      "hash_stack h' = (hash_stack ?h)(k := [of_nat n])" "Suc (hash_room h') = hash_room ?h" "hash_count h' = Suc n"
    by (rule put_indexed [OF i(4,5) pos, of k "of_nat n"]) (use room(2) k in simp)
  obtain q where q: "sint (word_of_int ((int n - int i) sdiv SEGMENT_NUM) :: u32) = int q" "q \<le> n"
    by (rule redirect_bit [of n i]) (use n per i(3) in simp_all)
  have alloc: "?per \<le> bm_alloc b" using b(1,2) by (simp add: bitmap_ok_def)
  then have qa: "q < bm_alloc b" and qb: "bit_at b q" using q(2) n b(4) by simp_all
  obtain b' where b': "mix_bitmap_set_bit b (int q) = Some (b', 1)"
      "\<And>j. j < bm_alloc b \<Longrightarrow> bit_at b' j \<longleftrightarrow> j = q \<or> bit_at b j"
      "bm_alloc b' = bm_alloc b" "bm_bytes b' = bm_bytes b" "bm_next_bit b' = bm_next_bit b"
    by (rule mix_bitmap_set_bit_eq [OF qa]) (use qb in simp)
  let ?s = "md_segments md ! i"
  define md' where "md' = md\<lparr>md_hash := (md_hash md)[i := h'], md_segments := (md_segments md)
    [i := ?s\<lparr>sg_bitmap := b', sg_used_block_num := sg_used_block_num ?s + 1\<rparr>]\<rparr>"
  have run: "mix_write_redirect_blockmeta md1 (int i) k (int n) = Some (md', False)"
    using i b'(1) q(1) h'(1)
    by (simp add: mix_write_redirect_blockmeta_def Let_def upd_segment_int upd_hash_int md1 md'_def)
  have bits: "bit_at b' j \<longleftrightarrow> j < Suc n" if "j < ?per" for j using b'(2) b(4) alloc q(2) that by auto
  have ok': "bitmap_ok b'" "bm_bits b' = ?per" "bm_next_bit b' = int (Suc n mod ?per)"
    using bitmap_ok_cong [OF b'(3-5) b(1)] b(2,3) b'(5) by simp_all
  from filled_step [OF f n k ok' bits h'(2-6)] have "filled md' i (Suc n)" by (simp add: md'_def)
  then show thesis
    using that [OF run] h'(4) i by (simp add: md'_def same_other_segments_def threads_ok_def)
qed


section \<open>The initial metadata\<close>

lemma hash_init_empty:
  assumes "0 < sz" "sz < 2 ^ 31"
  obtains h where "mix_hash_init True True (int n) sz = Some h" "hash_ok h" "hash_len_ok h" "hash_room h = n"
    "hash_count h = 0" "hash_stack h = (\<lambda>_. [])"
proof -
  obtain h where h: "mix_hash_init True True (int n) sz = Some h" "hash_ok h" "hash_room h = n" "hash_stack h = (\<lambda>_. [])"
    by (rule mix_hash_init_ok [OF assms])
  obtain h' where h': "mix_hash_init True True (int n) sz = Some h'"
      "hash_rep h' (rev [0..<n]) (replicate (nat sz) [])" "\<forall>i < nat sz. bucket h' i = [] \<and> hn_len (mh_nodes h' ! i) = 0"
    using mix_hash_init_ex [OF assms, of n] by blast
  have eq: "h' = h" using h(1) h'(1) by simp
  have "length (mh_nodes h) = nat sz" using hash_rep_length [OF h'(2)] eq by simp
  then have "hash_len_ok h" "hash_count h = 0"
    using h'(3) eq by (simp_all add: hash_len_ok_def hash_count_def entries_of_def)
  then show thesis using that h by blast
qed

lemma free_segment_init_empty:
  assumes "unat sz = 4096 * (8 * m)" "0 < m"
  obtains s where "mix_free_segment_init old sz = Some s" "sg_used_block_num s = 0" "bitmap_ok (sg_bitmap s)"
    "bm_bits (sg_bitmap s) = 8 * m" "bm_next_bit (sg_bitmap s) = 0" "\<And>k. k < 8 * m \<Longrightarrow> \<not> bit_at (sg_bitmap s) k"
    "unat (sg_block_num s) = 8 * m"
proof -
  have d: "unat (sz div 4096) = 8 * m" using assms(1) by (simp add: unat_div)
  then have u: "uint (sz div 4096) = int (8 * m)" by (metis uint_nat)
  obtain b where b: "mix_bitmap_init True True True (int (8 * m)) = Some b" "bitmap_ok b" "bm_bits b = 8 * m"
      "\<forall>k < bm_bits b. \<not> bit_at b k"
    using mix_bitmap_init_ok [of "8 * m"] assms(2) by auto
  have "bm_next_bit b = 0" using b(1) by (auto simp: mix_bitmap_init_def Let_def)
  then show thesis using that [of "\<lparr>sg_size = ucast sz, sg_block_num = sz div 4096, sg_migration = old,
       sg_used_block_num = 0, sg_bitmap = b\<rparr>"] b d u by (simp add: mix_free_segment_init_def)
qed

lemma metadata_init_spec:
  assumes n: "unat block_num = 32 * m" "0 < m" "m < 2 ^ 17"
  obtains md where "mix_metadata_init nf nc flags old block_num = Some md"
    "unat (md_per_block_num md) = 8 * m" "\<And>i. i < 4 \<Longrightarrow> filled md i 0"
    "md_migrate_thread_num md = 8" "md_migration md = flags"
proof -
  have per: "unat (block_num div 4) = 8 * m" using n(1) by (simp add: unat_div)
  have "unat (4096 * (block_num div 4) :: u32) = 4096 * (8 * m)"
    using per n(3) by (subst unat_mult_bounded) simp_all
  note seg = free_segment_init_empty [OF this n(2)]
  have sp: "sint (block_num div 4) = int (8 * m)" using per n(3) by (subst sint_small) simp_all
  obtain h where h: "mix_hash_init True True (int (8 * m)) 100 = Some h" "hash_ok h" "hash_len_ok h" "hash_room h = 8 * m"
    "hash_count h = 0" "hash_stack h = (\<lambda>_. [])"
    by (rule hash_init_empty [of 100 "8 * m"]) simp_all
  define good where "good s \<longleftrightarrow> sg_used_block_num s = 0 \<and> bitmap_ok (sg_bitmap s) \<and>
    bm_bits (sg_bitmap s) = 8 * m \<and> bm_next_bit (sg_bitmap s) = 0 \<and> (\<forall>k < 8 * m. \<not> bit_at (sg_bitmap s) k)" for s :: free_segment
  have g: "\<exists>s. mix_free_segment_init f (4096 * (block_num div 4)) = Some s \<and> good s" for f
    by (rule seg [of f]) (auto simp: good_def)
  obtain s0 s1 s2 s3 where s: "mix_free_segment_init (old ! 0) (4096 * (block_num div 4)) = Some s0"
      "mix_free_segment_init (old ! 1) (4096 * (block_num div 4)) = Some s1"
      "mix_free_segment_init (old ! 2) (4096 * (block_num div 4)) = Some s2"
      "mix_free_segment_init (old ! 3) (4096 * (block_num div 4)) = Some s3"
    and gs: "\<forall>s \<in> set [s0, s1, s2, s3]. good s"
    using g [of "old ! 0"] g [of "old ! 1"] g [of "old ! 2"] g [of "old ! 3"] by auto
  obtain bl where bl: "mix_counting_bloom_filter_init True (True, True, True) nf nc (block_num div 4) = Some bl"
    by (auto simp: mix_counting_bloom_filter_init_def mix_bitmap_init_def Let_def)
  define md where "md = \<lparr>md_size = block_num * 4096, md_block_num = block_num, md_per_block_num = block_num div 4,
          md_hash = [h, h, h, h], md_migration = flags,
          md_bloom_filter = [bl, bl, bl, bl], md_segments = [s0, s1, s2, s3],
          md_migrate_thread_num = 8, md_migrate_segment_idx = 0\<rparr>"
  have run: "mix_metadata_init nf nc flags old block_num = Some md"
    using h(1) s bl by (simp add: mix_metadata_init_def Let_def sp md_def)
  have "filled md i 0" if "i < 4" for i
  proof -
    have "md_hash md ! i = h" "good (md_segments md ! i)"
      using that gs by (auto simp: md_def less_Suc_eq numeral_eq_Suc)
    then show ?thesis
      using that h per n(2,3) by (simp add: filled_def segment_ok_def good_def) (simp add: md_def)
  qed
  then show thesis using that [OF run] per by (simp add: md_def)
qed


section \<open>Rebuilding\<close>

text \<open>The blocks of a segment whose descriptor is valid, and the address a descriptor names.\<close>

definition block_valid :: "nvm_state \<Rightarrow> nat \<Rightarrow> bool" where
  "block_valid nvm b \<longleftrightarrow> meta_status (the (buffer_desc nvm b)) AND 1 \<noteq> 0"

definition block_key :: "nvm_state \<Rightarrow> nat \<Rightarrow> u32" where
  "block_key nvm b = ucast (meta_offset (the (buffer_desc nvm b)))"

definition valid_slots :: "nvm_state \<Rightarrow> nat \<Rightarrow> nat \<Rightarrow> nat list" where
  "valid_slots nvm base n = filter (\<lambda>j. block_valid nvm (base + j)) [0..<n]"

definition slots_of_key :: "nvm_state \<Rightarrow> nat \<Rightarrow> nat \<Rightarrow> u32 \<Rightarrow> nat list" where
  "slots_of_key nvm base n k = filter (\<lambda>j. block_key nvm (base + j) = k) (valid_slots nvm base n)"

text \<open>The segment after the first \<open>n\<close> descriptors were looked at.\<close>

definition rebuilt :: "nvm_state \<Rightarrow> metadata \<Rightarrow> nat \<Rightarrow> nat \<Rightarrow> bool" where
  "rebuilt nvm md i n \<longleftrightarrow> (let per = unat (md_per_block_num md); vs = valid_slots nvm (i * per) n in
     segment_ok md i \<and> (\<forall>j < per. bit_at (seg_bitmap md i) j \<longleftrightarrow> j \<in> set vs) \<and>
     sg_used_block_num (md_segments md ! i) = int (length vs) \<and>
     hash_room (seg_hash md i) + length vs = per \<and>
     (\<forall>k. hash_stack (seg_hash md i) k = map of_nat (rev (slots_of_key nvm (i * per) n k))))"

lemma valid_slots_Suc [simp]:
  "valid_slots nvm base 0 = []"
  "valid_slots nvm base (Suc n) = valid_slots nvm base n @ (if block_valid nvm (base + n) then [n] else [])"
  by (simp_all add: valid_slots_def)

lemma valid_slots_bound: "j \<in> set (valid_slots nvm base n) \<Longrightarrow> j < n" "length (valid_slots nvm base n) \<le> n"
  by (auto simp: valid_slots_def intro: order_trans [OF length_filter_le])

lemma buffer_desc_some:
  assumes "layout_ok st" "i < buffer_blocks st"
  obtains d where "buffer_desc st i = Some d"
proof -
  have "meta_pos st i + 32 \<le> length (ns_mem st)" using ranges(2) [OF assms] ranges(5) [OF assms(1)] by linarith
  then show thesis using that data_eq(2) [OF assms] by (simp add: mem_read_def)
qed

text \<open>A valid descriptor: its block is marked and its address indexed.\<close>

lemma rebuilt_add:
  assumes r: "rebuilt nvm md i n" and n: "n < unat (md_per_block_num md)" and per: "per = unat (md_per_block_num md)"
    and v: "block_valid nvm (i * per + n)" and k: "k = block_key nvm (i * per + n)"
  obtains b x h md' where "mix_bitmap_set_bit (seg_bitmap md i) (int n) = Some (b, x)"
    "mix_hash_put (seg_hash md i) k (of_nat n) = Some h"
    "md' = md\<lparr>md_segments := (md_segments md)[i := (md_segments md ! i)
       \<lparr>sg_bitmap := b, sg_used_block_num := sg_used_block_num (md_segments md ! i) + 1\<rparr>],
       md_hash := (md_hash md)[i := h]\<rparr>"
    "rebuilt nvm md' i (Suc n)"
proof -
  note r' = r [unfolded rebuilt_def Let_def, folded per]
  have s: "segment_ok md i" using r' by simp
  have i: "i < length (md_segments md)" "i < length (md_hash md)" "hash_ok (seg_hash md i)" "hash_len_ok (seg_hash md i)"
    "bitmap_ok (seg_bitmap md i)" "bm_bits (seg_bitmap md i) = per"
    using s by (simp_all add: segment_ok_def per)
  have na: "n < bm_alloc (seg_bitmap md i)" using i(5,6) n by (simp add: bitmap_ok_def per)
  obtain b x where b: "mix_bitmap_set_bit (seg_bitmap md i) (int n) = Some (b, x)"
      "\<And>j. j < bm_alloc (seg_bitmap md i) \<Longrightarrow> bit_at b j \<longleftrightarrow> j = n \<or> bit_at (seg_bitmap md i) j"
      "bm_alloc b = bm_alloc (seg_bitmap md i)" "bm_bytes b = bm_bytes (seg_bitmap md i)"
      "bm_next_bit b = bm_next_bit (seg_bitmap md i)"
    by (rule mix_bitmap_set_bit_eq [OF na]) blast
  have room: "0 < hash_room (seg_hash md i)"
    using r' n valid_slots_bound(2) [of nvm "i * per" n] by (simp add: per)
  obtain h where h: "mix_hash_put (seg_hash md i) k (of_nat n) = Some h" "hash_ok h" "hash_len_ok h"
      "hash_stack h = (hash_stack (seg_hash md i))(k := of_nat n # hash_stack (seg_hash md i) k)"
      "Suc (hash_room h) = hash_room (seg_hash md i)"
    by (rule put_indexed [OF i(3,4) room, of k "of_nat n"]) blast
  define md' where "md' = md\<lparr>md_segments := (md_segments md)[i := (md_segments md ! i)
       \<lparr>sg_bitmap := b, sg_used_block_num := sg_used_block_num (md_segments md ! i) + 1\<rparr>],
       md_hash := (md_hash md)[i := h]\<rparr>"
  have "segment_ok md' i"
    using s h(2,3) bitmap_ok_cong [OF b(3-5) i(5)] by (simp add: segment_ok_def md'_def)
  then have "rebuilt nvm md' i (Suc n)"
    using r' i(1,2,5,6) v b(2) h(4,5) unfolding rebuilt_def Let_def slots_of_key_def
    by (auto simp: md'_def per bitmap_ok_def k)
  then show thesis using that b(1) h(1) md'_def by blast
qed

lemma rebuild_step:
  assumes r: "rebuilt nvm md i n" and n: "n < unat (md_per_block_num md)" and ok: "layout_ok nvm"
    and fit: "i * unat (md_per_block_num md) + unat (md_per_block_num md) \<le> buffer_blocks nvm"
  obtains md' where "\<And>m. rebuild_loop (Suc m) n nvm (int i) md = rebuild_loop m (Suc n) nvm (int i) md'"
    "rebuilt nvm md' i (Suc n)" "same_other_segments i md md'"
proof -
  define per where "per = unat (md_per_block_num md)"
  have s: "segment_ok md i" using r by (simp add: rebuilt_def Let_def)
  have i: "i < length (md_segments md)" "i < length (md_hash md)" "per < 2 ^ 29"
    using s by (simp_all add: segment_ok_def per_def)
  have sp: "sint (md_per_block_num md) = int per" using i(3) unfolding per_def by (intro sint_small) simp
  obtain d where d: "buffer_desc nvm (i * per + n) = Some d"
    by (rule buffer_desc_some [OF ok, of "i * per + n"]) (use n fit in \<open>simp add: per_def\<close>)
  then have get: "mix_buffer_get_meta nvm (int i * int per + int n) = Some d" by (simp add: buffer_desc_def)
  show thesis
  proof (cases "block_valid nvm (i * per + n)")
    case False
    then have "meta_status d AND 1 = 0" using d by (simp add: block_valid_def)
    then have "rebuild_loop (Suc m) n nvm (int i) md = rebuild_loop m (Suc n) nvm (int i) md" for m
      using get by (simp add: sp)
    moreover have "rebuilt nvm md i (Suc n)"
      using r False by (simp add: rebuilt_def Let_def slots_of_key_def flip: per_def)
    ultimately show thesis using that by (simp add: same_other_segments_def)
  next
    case True
    then have v: "meta_status d AND 1 \<noteq> 0" using d by (simp add: block_valid_def)
    obtain b x h md' where a: "mix_bitmap_set_bit (seg_bitmap md i) (int n) = Some (b, x)"
      "mix_hash_put (seg_hash md i) (ucast (meta_offset d)) (of_nat n) = Some h"
      "md' = md\<lparr>md_segments := (md_segments md)[i := (md_segments md ! i)
         \<lparr>sg_bitmap := b, sg_used_block_num := sg_used_block_num (md_segments md ! i) + 1\<rparr>],
         md_hash := (md_hash md)[i := h]\<rparr>"
      "rebuilt nvm md' i (Suc n)"
      by (rule rebuilt_add [OF r n per_def True refl]) (use d in \<open>simp add: block_key_def\<close>)
    have "rebuild_loop (Suc m) n nvm (int i) md = rebuild_loop m (Suc n) nvm (int i) md'" for m
      using get v a(1,2) i(1,2) by (simp add: sp upd_segment_int upd_hash_int a(3))
    then show thesis using that a(4) i(1) by (simp add: a(3) same_other_segments_def)
  qed
qed

lemma same_other_migrating:
  assumes "same_other_segments i md md'"
  shows "mix_buffer_migrating md' = mix_buffer_migrating md"
proof -
  have "sg_migration (md_segments md' ! j) = sg_migration (md_segments md ! j)" for j
    using assms by (cases "j = i") (simp_all add: same_other_segments_def)
  then have "mix_segment_migrating md' j = mix_segment_migrating md j" for j
    using assms by (auto simp: mix_segment_migrating_def arr_get_def same_other_segments_def)
  then show ?thesis by (simp add: mix_buffer_migrating_def)
qed

lemma same_other_trans: "same_other_segments i a b \<Longrightarrow> same_other_segments i b c \<Longrightarrow> same_other_segments i a c"
  by (simp add: same_other_segments_def)

lemma rebuild_loop_rebuilt:
  assumes ok: "layout_ok nvm"
  shows "rebuilt nvm md i n \<Longrightarrow> n + m = unat (md_per_block_num md) \<Longrightarrow>
    i * unat (md_per_block_num md) + unat (md_per_block_num md) \<le> buffer_blocks nvm \<Longrightarrow>
    \<exists>md'. rebuild_loop m n nvm (int i) md = Some md' \<and> rebuilt nvm md' i (n + m) \<and> same_other_segments i md md'"
proof (induction m arbitrary: n md)
  case 0
  then show ?case by (simp add: same_other_segments_def)
next
  case (Suc m)
  obtain md1 where md1: "\<And>m. rebuild_loop (Suc m) n nvm (int i) md = rebuild_loop m (Suc n) nvm (int i) md1"
      "rebuilt nvm md1 i (Suc n)" "same_other_segments i md md1"
    by (rule rebuild_step [OF Suc.prems(1) _ ok Suc.prems(3)]) (use Suc.prems(2) in simp_all)
  have per: "md_per_block_num md1 = md_per_block_num md" using md1(3) by (simp add: same_other_segments_def)
  from Suc.IH [OF md1(2)] Suc.prems(2,3) obtain md' where "rebuild_loop m (Suc n) nvm (int i) md1 = Some md'"
      "rebuilt nvm md' i (Suc n + m)" "same_other_segments i md1 md'"
    by (auto simp: per)
  then show ?case using md1(1) same_other_trans [OF md1(3)] by auto
qed

lemma block_test_rebuilt:
  assumes r: "rebuilt nvm md i (unat (md_per_block_num md))"
  shows "mix_buffer_block_test md k (int i) =
    Some (let js = slots_of_key nvm (i * unat (md_per_block_num md)) (unat (md_per_block_num md)) k
          in if js = [] then -1 else int (last js))"
proof -
  define per where "per = unat (md_per_block_num md)"
  define js where "js = slots_of_key nvm (i * per) per k"
  note r' = r [unfolded rebuilt_def Let_def, folded per_def]
  have s: "segment_ok md i" using r' by simp
  then have idx: "i < length (md_hash md)" "i < length (md_segments md)" "hash_ok (seg_hash md i)"
    "bitmap_ok (seg_bitmap md i)" "bm_bits (seg_bitmap md i) = per" "per < 2 ^ 29" "md_per_block_num md \<noteq> 0"
    by (auto simp: segment_ok_def per_def)
  have get: "mix_hash_get (seg_hash md i) k = Some (case map of_nat (rev js) of [] \<Rightarrow> -1 | v # _ \<Rightarrow> sint (v :: u32))"
    using idx(3) mix_hash_get_stack r' unfolding hash_ok_def js_def by metis
  show ?thesis
  proof (cases js rule: rev_cases)
    case Nil
    then show ?thesis using get idx by (simp add: mix_buffer_block_test_def flip: per_def js_def)
  next
    case (snoc ys y)
    then have "y \<in> set js" by simp
    then have y: "y \<in> set (valid_slots nvm (i * per) per)" "y < per"
      by (auto simp: js_def slots_of_key_def valid_slots_def)
    then have uy: "unat (of_nat y :: u32) = y" using idx(6) by (simp add: unsigned_of_nat take_bit_nat_eq_self)
    then have sy: "sint (of_nat y :: u32) = int y" using y(2) idx(6) by (subst sint_small) simp_all
    moreover have "(of_nat y :: u32) mod md_per_block_num md = of_nat y"
      using y(2) uy by (simp add: word_unat_eq_iff unat_mod per_def)
    moreover have "bit_at (seg_bitmap md i) y" using r' y by simp
    moreover have "y < bm_alloc (seg_bitmap md i)" using idx(4,5) y(2) by (simp add: bitmap_ok_def)
    ultimately show ?thesis
      using get snoc idx by (simp add: mix_buffer_block_test_def mix_bitmap_test_bit_eq flip: per_def js_def)
  qed
qed

lemma rebuilt_start: "filled md i 0 \<Longrightarrow> rebuilt nvm md i 0"
  by (simp add: filled_def rebuilt_def Let_def slots_of_key_def)


section \<open>Clearing\<close>

text \<open>The data of the buffer blocks is what it was.\<close>

definition same_data :: "nvm_state \<Rightarrow> nvm_state \<Rightarrow> bool" where
  "same_data nvm nvm' \<longleftrightarrow> layout_ok nvm' \<and> buffer_blocks nvm' = buffer_blocks nvm \<and> nvm_blocks nvm' = nvm_blocks nvm \<and>
     (\<forall>j < buffer_blocks nvm. buffer_data nvm' j = buffer_data nvm j) \<and>
     (\<forall>j < nvm_blocks nvm. nvm_data nvm' j = nvm_data nvm j)"

lemma same_data_intro:
  assumes "layout_ok nvm'" "ns_nvm nvm' = ns_nvm nvm" "ns_buffer nvm' = ns_buffer nvm"
    "same_buffer_data nvm nvm' (\<lambda>_. True)" "same_nvm_data nvm nvm' (\<lambda>_. True)"
  shows "same_data nvm nvm'"
  using assms by (auto simp: same_data_def same_buffer_data_def same_nvm_data_def buffer_blocks_def nvm_blocks_def)

lemma same_data_refl: "layout_ok nvm \<Longrightarrow> same_data nvm nvm"
  by (simp add: same_data_def)

lemma same_data_trans: "same_data a b \<Longrightarrow> same_data b c \<Longrightarrow> same_data a c"
  by (simp add: same_data_def)

text \<open>Exactly the descriptors of the blocks \<open>B\<close> were invalidated.\<close>

definition invalidated :: "nat set \<Rightarrow> nvm_state \<Rightarrow> nvm_state \<Rightarrow> bool" where
  "invalidated B nvm nvm' \<longleftrightarrow> same_data nvm nvm' \<and>
     (\<forall>b < buffer_blocks nvm. buffer_desc nvm' b =
        (if b \<in> B then map_option (\<lambda>d. d\<lparr>meta_status := 0\<rparr>) (buffer_desc nvm b) else buffer_desc nvm b))"

lemma invalidated_refl: "layout_ok nvm \<Longrightarrow> invalidated {} nvm nvm"
  by (simp add: invalidated_def same_data_refl)

lemma invalidated_trans:
  assumes "invalidated A a b" "invalidated B b c"
  shows "invalidated (A \<union> B) a c"
proof -
  have "buffer_blocks b = buffer_blocks a" "same_data a c"
    using assms same_data_trans by (auto simp: invalidated_def same_data_def)
  then show ?thesis using assms by (simp add: invalidated_def option.map_comp comp_def)
qed

lemma buffer_clear_invalidated:
  assumes "pmem_copies cpy" "layout_ok nvm" "b < buffer_blocks nvm"
  obtains nvm' where "mix_buffer_clear cpy nvm (of_nat b) = Some nvm'" "invalidated {b} nvm nvm'"
proof -
  obtain nvm' where n: "mix_buffer_clear cpy nvm (of_nat b) = Some nvm'" "layout_ok nvm'"
    "ns_nvm nvm' = ns_nvm nvm" "ns_buffer nvm' = ns_buffer nvm" "buffer_desc nvm' b = map_option (\<lambda>d. d\<lparr>meta_status := 0\<rparr>) (buffer_desc nvm b)"
    "same_buffer_data nvm nvm' (\<lambda>_. True)" "same_buffer_desc nvm nvm' (\<lambda>j. j \<noteq> b)" "same_nvm_data nvm nvm' (\<lambda>_. True)"
    by (rule mix_buffer_clear_spec [OF assms]) blast
  have "same_data nvm nvm'" using n(2-4,6,8) by (rule same_data_intro)
  then have "invalidated {b} nvm nvm'" using n(5,7) by (auto simp: invalidated_def same_buffer_desc_def)
  then show thesis using that n(1) by blast
qed

lemma invalidated_layout: "invalidated B a b \<Longrightarrow> layout_ok b \<and> buffer_blocks b = buffer_blocks a"
  by (simp add: invalidated_def same_data_def)

lemma segment_clear_loop_invalidates:
  assumes cpy: "pmem_copies (env_cpy env)" and ok: "layout_ok nvm"
    and fit: "i * unat (md_per_block_num md) + n \<le> buffer_blocks nvm" and per: "unat (md_per_block_num md) < 2 ^ 29"
  shows "\<exists>nvm'. segment_clear_loop env n md (int i) nvm = Some nvm' \<and>
    invalidated {i * unat (md_per_block_num md)..<i * unat (md_per_block_num md) + n} nvm nvm'"
  using fit
proof (induction n)
  case 0
  then show ?case using ok by (simp add: invalidated_refl)
next
  case (Suc n)
  let ?base = "i * unat (md_per_block_num md)"
  obtain nvm1 where 1: "segment_clear_loop env n md (int i) nvm = Some nvm1" "invalidated {?base..<?base + n} nvm nvm1"
    using Suc by auto
  note l = invalidated_layout [OF 1(2)]
  obtain nvm2 where 2: "mix_buffer_clear (env_cpy env) nvm1 (of_nat (?base + n)) = Some nvm2" "invalidated {?base + n} nvm1 nvm2"
    by (rule buffer_clear_invalidated [OF cpy, of nvm1 "?base + n"]) (use l Suc.prems in simp_all)
  have sp: "sint (md_per_block_num md) = int (unat (md_per_block_num md))" using per by (intro sint_small) simp
  have "word_of_int (int i * sint (md_per_block_num md) + int n) = (of_nat (?base + n) :: u64)"
    unfolding sp by (simp only: of_int_of_nat_eq of_int_add of_int_mult of_nat_add of_nat_mult)
  then have "segment_clear_loop env (Suc n) md (int i) nvm = Some nvm2"
    using 1(1) 2(1) by simp
  moreover have "{?base..<?base + n} \<union> {?base + n} = {?base..<?base + Suc n}" by auto
  ultimately show ?case using invalidated_trans [OF 1(2) 2(2)] by simp
qed

text \<open>The first block addresses of the list that are in the index.\<close>

definition leading_run :: "mix_hash \<Rightarrow> u32 list \<Rightarrow> u32 list" where
  "leading_run h ks = takeWhile (\<lambda>k. hash_stack h k \<noteq> []) ks"

definition clear_keys :: "u64 \<Rightarrow> nat \<Rightarrow> nat \<Rightarrow> u32 list" where
  "clear_keys offset i n = map (\<lambda>j. ucast (offset + of_nat j * BUFFER_QUEUE_NUM)) [i..<i + n]"

text \<open>Every address is indexed at most once, under a block of the segment.\<close>

definition index_ok :: "metadata \<Rightarrow> nat \<Rightarrow> bool" where
  "index_ok md i \<longleftrightarrow> segment_ok md i \<and> (\<forall>k. length (hash_stack (seg_hash md i) k) \<le> 1 \<and>
     (\<forall>v \<in> set (hash_stack (seg_hash md i) k). unat v < unat (md_per_block_num md)))"

lemma segment_block_eq:
  assumes "i * unat (md_per_block_num md) + b < 2 ^ 32"
  shows "segment_block md (int i) (int b) = of_nat (i * unat (md_per_block_num md) + b)"
proof -
  have "word_of_int (int i) * md_per_block_num md + word_of_int (int b) = (of_nat (i * unat (md_per_block_num md) + b) :: u32)"
    by simp
  moreover have "unat (of_nat (i * unat (md_per_block_num md) + b) :: u32) = i * unat (md_per_block_num md) + b"
    using assms by (simp add: unsigned_of_nat take_bit_nat_eq_self del: of_nat_add of_nat_mult)
  ultimately show ?thesis
    unfolding segment_block_def by (metis of_nat_unat)
qed

lemma clear_block_step:
  assumes ix: "index_ok md i" and cpy: "pmem_copies (env_cpy env)" and ok: "layout_ok nvm"
    and fit: "i * unat (md_per_block_num md) + unat (md_per_block_num md) \<le> buffer_blocks nvm" "buffer_blocks nvm < 2 ^ 32"
    and k: "k = ucast (offset + of_nat j * BUFFER_QUEUE_NUM)" and v: "hash_stack (seg_hash md i) k = v # vs"
  obtains md' nvm' where
    "\<And>n. clear_block_loop env (Suc n) j offset (int i) (md, nvm) = clear_block_loop env n (Suc j) offset (int i) (md', nvm')"
    "index_ok md' i" "hash_stack (seg_hash md' i) = (hash_stack (seg_hash md i))(k := [])"
    "sg_used_block_num (md_segments md' ! i) = sg_used_block_num (md_segments md ! i) - 1"
    "same_other_segments i md md'" "invalidated {i * unat (md_per_block_num md) + unat v} nvm nvm'"
proof -
  define per where "per = unat (md_per_block_num md)"
  have s: "segment_ok md i" and vs: "vs = []" "unat v < per"
    using ix v by (auto simp: index_ok_def per_def dest!: spec [of _ k])
  have i: "i < length (md_segments md)" "i < length (md_hash md)" "hash_ok (seg_hash md i)" "hash_len_ok (seg_hash md i)"
    "bitmap_ok (seg_bitmap md i)" "bm_bits (seg_bitmap md i) = per" "per < 2 ^ 29" "md_per_block_num md \<noteq> 0"
    using s by (auto simp: segment_ok_def per_def)
  have sv: "sint v = int (unat v)" using vs(2) i(7) by (intro sint_small) simp
  have get: "mix_hash_get (seg_hash md i) k = Some (int (unat v))"
    using mix_hash_get_stack i(3) v sv unfolding hash_ok_def by (metis list.simps(5))
  obtain h where h: "mix_hash_delete (seg_hash md i) k = Some h" "hash_ok h"
      "hash_stack h = (hash_stack (seg_hash md i))(k := [])"
    using mix_hash_delete_spec [OF i(3), of k] v vs(1) by auto
  have hl: "hash_len_ok h" using mix_hash_delete_len [OF i(3,4) _ h(1)] v by simp
  have va: "unat v < bm_alloc (seg_bitmap md i)" using i(5,6) vs(2) by (simp add: bitmap_ok_def)
  obtain b x where b: "mix_bitmap_clear_bit (seg_bitmap md i) (int (unat v)) = Some (b, x)"
      "bm_alloc b = bm_alloc (seg_bitmap md i)" "bm_bytes b = bm_bytes (seg_bitmap md i)"
      "bm_next_bit b = bm_next_bit (seg_bitmap md i)"
    by (rule mix_bitmap_clear_bit_eq [OF va]) blast
  have bit: "sint (word_of_int (int (unat v)) mod md_per_block_num md) = int (unat v)"
  proof -
    have "v mod md_per_block_num md = v" using vs(2) by (simp add: word_unat_eq_iff unat_mod per_def)
    then show ?thesis using sv by simp
  qed
  have blk: "i * per + unat v < buffer_blocks nvm" using vs(2) fit by (simp add: per_def)
  obtain nvm' where nvm': "mix_buffer_clear (env_cpy env) nvm (of_nat (i * per + unat v)) = Some nvm'"
      "invalidated {i * per + unat v} nvm nvm'"
    by (rule buffer_clear_invalidated [OF cpy ok blk])
  let ?s = "md_segments md ! i"
  define md' where "md' = md\<lparr>md_hash := (md_hash md)[i := h], md_segments := (md_segments md)[i := ?s
      \<lparr>sg_bitmap := b, sg_used_block_num := sg_used_block_num ?s - 1\<rparr>]\<rparr>"
  have sb: "segment_block (md\<lparr>md_hash := hs\<rparr>) (int i) (int (unat v)) = of_nat (i * per + unat v)" for hs
    using segment_block_eq [of i "md\<lparr>md_hash := hs\<rparr>" "unat v"] blk fit(2) by (simp add: per_def)
  have "clear_block_loop env (Suc n) j offset (int i) (md, nvm) = clear_block_loop env n (Suc j) offset (int i) (md', nvm')" for n
    using get h(1) i(1,2,8) b(1) bit nvm'(1) sb
    by (simp add: Let_def upd_hash_int upd_segment_int md'_def del: of_nat_unat flip: k)
  moreover have "index_ok md' i"
    using ix s h(2,3) hl bitmap_ok_cong [OF b(2-4) i(5)] i(1,2) by (simp add: index_ok_def segment_ok_def md'_def)
  ultimately show thesis
    using that h(3) i(1,2) nvm'(2) by (simp add: md'_def same_other_segments_def per_def)
qed


lemma clear_keys_Suc: "clear_keys offset j (Suc n) =
    ucast (offset + of_nat j * BUFFER_QUEUE_NUM) # clear_keys offset (Suc j) n"
  unfolding clear_keys_def by (subst upt_conv_Cons) simp_all

lemma leading_run_cong:
  "(\<And>k. k \<in> set ks \<Longrightarrow> hash_stack h' k = hash_stack h k) \<Longrightarrow> leading_run h' ks = leading_run h ks"
  unfolding leading_run_def by (rule takeWhile_cong) auto

definition run_blocks :: "metadata \<Rightarrow> nat \<Rightarrow> u32 list \<Rightarrow> nat set" where
  "run_blocks md i ks = {i * unat (md_per_block_num md) + unat v | k v. k \<in> set ks \<and> v \<in> set (hash_stack (seg_hash md i) k)}"

lemma clear_block_loop_run:
  assumes cpy: "pmem_copies (env_cpy env)"
  shows "index_ok md i \<Longrightarrow> layout_ok nvm \<Longrightarrow> distinct (clear_keys offset j n) \<Longrightarrow>
    i * unat (md_per_block_num md) + unat (md_per_block_num md) \<le> buffer_blocks nvm \<Longrightarrow> buffer_blocks nvm < 2 ^ 32 \<Longrightarrow>
    ks = leading_run (seg_hash md i) (clear_keys offset j n) \<Longrightarrow>
    \<exists>md' nvm'. clear_block_loop env n j offset (int i) (md, nvm) = Some (md', nvm') \<and> index_ok md' i \<and>
      hash_stack (seg_hash md' i) = (\<lambda>k. if k \<in> set ks then [] else hash_stack (seg_hash md i) k) \<and>
      sg_used_block_num (md_segments md' ! i) = sg_used_block_num (md_segments md ! i) - int (length ks) \<and>
      same_other_segments i md md' \<and> invalidated (run_blocks md i ks) nvm nvm'"
proof (induction n arbitrary: j md nvm ks)
  case 0
  then show ?case
    by (simp add: clear_keys_def leading_run_def same_other_segments_def run_blocks_def invalidated_refl)
next
  case (Suc n)
  define k where "k = (ucast (offset + of_nat j * BUFFER_QUEUE_NUM) :: u32)"
  let ?rest = "clear_keys offset (Suc j) n"
  have keys: "clear_keys offset j (Suc n) = k # ?rest" by (simp add: clear_keys_Suc k_def)
  have fresh: "k \<notin> set ?rest" "distinct ?rest" using Suc.prems(3) by (simp_all add: keys)
  show ?case
  proof (cases "hash_stack (seg_hash md i) k")
    case Nil
    have "i < length (md_hash md)" "hash_ok (seg_hash md i)" using Suc.prems(1) by (simp_all add: index_ok_def segment_ok_def)
    moreover from this have "mix_hash_get (seg_hash md i) k = Some (-1)"
      using mix_hash_get_stack Nil unfolding hash_ok_def by (metis list.simps(4))
    ultimately have "clear_block_loop env (Suc n) j offset (int i) (md, nvm) = Some (md, nvm)" by (simp add: k_def)
    then show ?thesis
      using Suc.prems Nil by (simp add: keys leading_run_def same_other_segments_def run_blocks_def invalidated_refl)
  next
    case (Cons v vs)
    obtain md1 nvm1 where 1:
      "clear_block_loop env (Suc n) j offset (int i) (md, nvm) = clear_block_loop env n (Suc j) offset (int i) (md1, nvm1)"
      "index_ok md1 i" "hash_stack (seg_hash md1 i) = (hash_stack (seg_hash md i))(k := [])"
      "sg_used_block_num (md_segments md1 ! i) = sg_used_block_num (md_segments md ! i) - 1"
      "same_other_segments i md md1" "invalidated {i * unat (md_per_block_num md) + unat v} nvm nvm1"
      by (rule clear_block_step [OF Suc.prems(1) cpy Suc.prems(2,4,5) k_def Cons]) blast
    define rs where "rs = leading_run (seg_hash md1 i) ?rest"
    have rs: "rs = leading_run (seg_hash md i) ?rest"
      unfolding rs_def by (rule leading_run_cong) (use fresh(1) 1(3) in auto)
    have ks: "ks = k # rs" using Suc.prems(6) Cons by (simp add: keys leading_run_def rs)
    have nrs: "k \<notin> set rs" using fresh(1) by (auto simp: rs leading_run_def dest: set_takeWhileD)
    have per: "md_per_block_num md1 = md_per_block_num md" using 1(5) by (simp add: same_other_segments_def)
    have lay: "layout_ok nvm1" "buffer_blocks nvm1 = buffer_blocks nvm" using invalidated_layout [OF 1(6)] by simp_all
    have fit: "i * unat (md_per_block_num md1) + unat (md_per_block_num md1) \<le> buffer_blocks nvm1" "buffer_blocks nvm1 < 2 ^ 32"
      using Suc.prems(4,5) per lay(2) by simp_all
    from Suc.IH [OF 1(2) lay(1) fresh(2) fit rs_def] obtain md2 nvm2 where 2:
      "clear_block_loop env n (Suc j) offset (int i) (md1, nvm1) = Some (md2, nvm2)" "index_ok md2 i"
      "hash_stack (seg_hash md2 i) = (\<lambda>k. if k \<in> set rs then [] else hash_stack (seg_hash md1 i) k)"
      "sg_used_block_num (md_segments md2 ! i) = sg_used_block_num (md_segments md1 ! i) - int (length rs)"
      "same_other_segments i md1 md2" "invalidated (run_blocks md1 i rs) nvm1 nvm2" by blast
    have one: "vs = []" using Suc.prems(1) Cons by (auto simp: index_ok_def dest!: spec [of _ k])
    have "{i * unat (md_per_block_num md) + unat v} \<union> run_blocks md1 i rs = run_blocks md i ks"
      unfolding run_blocks_def ks per 1(3) using Cons nrs one by (force simp: fun_upd_def)
    then have "invalidated (run_blocks md i ks) nvm nvm2" using invalidated_trans [OF 1(6) 2(6)] by simp
    moreover have "hash_stack (seg_hash md2 i) = (\<lambda>k. if k \<in> set ks then [] else hash_stack (seg_hash md i) k)"
      using 2(3) 1(3) ks by (auto simp: fun_eq_iff)
    ultimately show ?thesis
      using 1(1,4) 2 same_other_trans [OF 1(5) 2(5)] ks by simp
  qed
qed


section \<open>Runs of allocations\<close>

text \<open>The two calls with which the worker gives a new address a block, for a list of addresses.\<close>

fun index_blocks :: "metadata \<Rightarrow> int \<Rightarrow> u32 list \<Rightarrow> (metadata \<times> int list) option" where
  "index_blocks md idx [] = Some (md, [])"
| "index_blocks md idx (k # ks) = do {
     (md, z) \<leftarrow> mix_get_next_free_block md idx;
     (md, _) \<leftarrow> mix_write_redirect_blockmeta md idx k z;
     (md, zs) \<leftarrow> index_blocks md idx ks;
     Some (md, z # zs)
   }"

lemma allocate_filled:
  assumes f: "filled md i n" and n: "n < unat (md_per_block_num md)" and k: "hash_stack (seg_hash md i) k = []"
  obtains md1 md2 where "mix_get_next_free_block md (int i) = Some (md1, int n)"
    "mix_write_redirect_blockmeta md1 (int i) k (int n) = Some (md2, False)"
    "filled md2 i (Suc n)" "hash_stack (seg_hash md2 i) = (hash_stack (seg_hash md i))(k := [of_nat n])"
    "same_other_segments i md md2" "threads_ok md2 \<longleftrightarrow> threads_ok md"
proof -
  obtain b where b: "mix_get_next_free_block md (int i) =
      Some (md\<lparr>md_segments := (md_segments md)[i := (md_segments md ! i)\<lparr>sg_bitmap := b\<rparr>]\<rparr>, int n)"
    "bitmap_ok b" "bm_bits b = unat (md_per_block_num md)" "bm_next_bit b = int (Suc n mod unat (md_per_block_num md))"
    "\<And>j. j < unat (md_per_block_num md) \<Longrightarrow> bit_at b j \<longleftrightarrow> j < Suc n"
    by (rule next_free_block_filled [OF f n]) blast
  obtain md2 where "mix_write_redirect_blockmeta (md\<lparr>md_segments := (md_segments md)[i := (md_segments md ! i)\<lparr>sg_bitmap := b\<rparr>]\<rparr>)
      (int i) k (int n) = Some (md2, False)"
    "filled md2 i (Suc n)" "hash_stack (seg_hash md2 i) = (hash_stack (seg_hash md i))(k := [of_nat n])"
    "same_other_segments i md md2" "threads_ok md2 \<longleftrightarrow> threads_ok md"
    by (rule redirect_blockmeta_filled [OF f n k b(2-5) refl]) blast
  then show thesis using that b(1) by blast
qed

lemma index_blocks_filled:
  "filled md i n \<Longrightarrow> n + length ks \<le> unat (md_per_block_num md) \<Longrightarrow> distinct ks \<Longrightarrow>
    (\<forall>k \<in> set ks. hash_stack (seg_hash md i) k = []) \<Longrightarrow>
    \<exists>md'. index_blocks md (int i) ks = Some (md', map int [n..<n + length ks]) \<and> filled md' i (n + length ks) \<and>
      (\<forall>j < length ks. hash_stack (seg_hash md' i) (ks ! j) = [of_nat (n + j)]) \<and>
      (\<forall>k. k \<notin> set ks \<longrightarrow> hash_stack (seg_hash md' i) k = hash_stack (seg_hash md i) k) \<and> same_other_segments i md md'"
proof (induction ks arbitrary: md n)
  case Nil
  then show ?case by (simp add: same_other_segments_def)
next
  case (Cons k ks)
  have n: "n < unat (md_per_block_num md)" and k: "hash_stack (seg_hash md i) k = []" using Cons.prems by simp_all
  obtain md1 md2 where 1: "mix_get_next_free_block md (int i) = Some (md1, int n)"
    "mix_write_redirect_blockmeta md1 (int i) k (int n) = Some (md2, False)"
    "filled md2 i (Suc n)" "hash_stack (seg_hash md2 i) = (hash_stack (seg_hash md i))(k := [of_nat n])"
    "same_other_segments i md md2"
    by (rule allocate_filled [OF Cons.prems(1) n k]) blast
  have "md_per_block_num md2 = md_per_block_num md" using 1(5) by (simp add: same_other_segments_def)
  then have "Suc n + length ks \<le> unat (md_per_block_num md2)" using Cons.prems(2) by simp
  moreover have "distinct ks" "\<forall>k \<in> set ks. hash_stack (seg_hash md2 i) k = []" using Cons.prems(3,4) 1(4) by auto
  ultimately obtain md' where 2: "index_blocks md2 (int i) ks = Some (md', map int [Suc n..<Suc n + length ks])"
      "filled md' i (Suc n + length ks)" "\<forall>j < length ks. hash_stack (seg_hash md' i) (ks ! j) = [of_nat (Suc n + j)]"
      "\<forall>k. k \<notin> set ks \<longrightarrow> hash_stack (seg_hash md' i) k = hash_stack (seg_hash md2 i) k" "same_other_segments i md2 md'"
    using Cons.IH [OF 1(3)] by blast
  have upt: "[n..<n + length (k # ks)] = n # [Suc n..<Suc n + length ks]" by (subst upt_conv_Cons) simp_all
  have "index_blocks md (int i) (k # ks) = Some (md', map int [n..<n + length (k # ks)])"
    using 1(1,2) 2(1) upt by simp
  moreover have "hash_stack (seg_hash md' i) ((k # ks) ! j) = [of_nat (n + j)]" if "j < length (k # ks)" for j
    using that 2(3,4) 1(4) Cons.prems(3) by (cases j) auto
  ultimately show ?case using 2 1(4) same_other_trans [OF 1(5)] by auto
qed

lemma block_test_none:
  assumes "filled md i n"
  shows "mix_buffer_block_test md k (int i) = Some (-1) \<longleftrightarrow> hash_stack (seg_hash md i) k = []"
proof (cases "hash_stack (seg_hash md i) k")
  case (Cons v vs)
  have "int (unat v) \<noteq> -1" by linarith
  then show ?thesis using Cons by (simp add: block_test_filled [OF assms] del: of_nat_unat)
qed (simp add: block_test_filled [OF assms])

lemma filled_0_none: "filled md i 0 \<Longrightarrow> hash_stack (seg_hash md i) k = []"
  by (cases "hash_stack (seg_hash md i) k") (auto simp: filled_def dest!: spec [of _ k])

section \<open>Properties\<close>

text \<open>The metadata for the buffer of the program, 2048 blocks, with all flags initially false.\<close>

definition init_2048 :: "metadata option" where
  "init_2048 = mix_metadata_init 7 (\<lambda>_. 800) (replicate 8 False) (replicate 4 False) 2048"

lemma sample_metadata:
  "\<exists>md. init_2048 = Some md \<and> unat (md_per_block_num md) = 512 \<and> (\<forall>i < 4. filled md i 0) \<and> threads_ok md"
proof -
  have "unat (2048 :: u32) = 32 * 64" "0 < (64 :: nat)" "64 < (2 :: nat) ^ 17" by simp_all
  from metadata_init_spec [OF this, of 7 "\<lambda>_. 800" "replicate 8 False" "replicate 4 False"] show ?thesis
    unfolding init_2048_def threads_ok_def by force
qed

text \<open>The metadata that \<open>mix_metadata_init\<close> makes for a buffer of \<open>32 * m\<close> blocks has four segments
  of \<open>8 * m\<close> blocks, each with an empty index, all its blocks free and all nodes of the index in the
  pool: no address is found, and the first block handed out is block 0.\<close>

lemma metadata_starts_empty:
  assumes "unat block_num = 32 * m" "0 < m" "m < 2 ^ 17"
  shows "\<exists>md. mix_metadata_init nf nc flags old block_num = Some md \<and> unat (md_per_block_num md) = 8 * m \<and>
    (\<forall>i < 4. filled md i 0 \<and> (\<forall>k. mix_buffer_block_test md k (int i) = Some (-1)) \<and>
       map_option snd (mix_get_next_free_block md (int i)) = Some 0)"
proof -
  obtain md where md: "mix_metadata_init nf nc flags old block_num = Some md" "unat (md_per_block_num md) = 8 * m"
      "\<And>i. i < 4 \<Longrightarrow> filled md i 0"
    by (rule metadata_init_spec [OF assms, of nf nc flags old]) blast
  have "mix_buffer_block_test md k (int i) = Some (-1)" if "i < 4" for i k
    using block_test_none [OF md(3) [OF that]] filled_0_none [OF md(3) [OF that]] by simp
  moreover have "map_option snd (mix_get_next_free_block md (int i)) = Some 0" if "i < 4" for i
    by (rule next_free_block_filled [OF md(3) [OF that]]) (use md(2) assms(2) in simp_all)
  ultimately show ?thesis using md by blast
qed

text \<open>C11. A segment gives the addresses it has not seen yet its blocks in ascending order, and finds them
  there: after the addresses \<open>ks\<close> were indexed in a segment whose first \<open>n\<close> blocks are in use, address
  \<open>ks ! j\<close> is in block \<open>n + j\<close> and every other address is where it was. Once the segment is full,
  \<open>mix_get_next_free_block\<close> reports it.\<close>

theorem segment_fills_in_order:
  assumes "filled md i n" "n + length ks \<le> unat (md_per_block_num md)" "distinct ks"
    "\<forall>k \<in> set ks. mix_buffer_block_test md k (int i) = Some (-1)"
  shows "\<exists>md'. index_blocks md (int i) ks = Some (md', map int [n..<n + length ks]) \<and> filled md' i (n + length ks) \<and>
    (\<forall>j < length ks. mix_buffer_block_test md' (ks ! j) (int i) = Some (int (n + j))) \<and>
    (\<forall>k. k \<notin> set ks \<longrightarrow> mix_buffer_block_test md' k (int i) = mix_buffer_block_test md k (int i)) \<and>
    (n + length ks = unat (md_per_block_num md) \<longrightarrow> mix_get_next_free_block md' (int i) = Some (md', -1))"
proof -
  have "hash_stack (seg_hash md i) k = []" if "k \<in> set ks" for k
    using assms(4) that by (simp add: block_test_none [OF assms(1)])
  then obtain md' where md': "index_blocks md (int i) ks = Some (md', map int [n..<n + length ks])" "filled md' i (n + length ks)"
      "\<forall>j < length ks. hash_stack (seg_hash md' i) (ks ! j) = [of_nat (n + j)]"
      "\<forall>k. k \<notin> set ks \<longrightarrow> hash_stack (seg_hash md' i) k = hash_stack (seg_hash md i) k" "same_other_segments i md md'"
    using index_blocks_filled [OF assms(1-3)] by blast
  have per: "md_per_block_num md' = md_per_block_num md" using md'(5) by (simp add: same_other_segments_def)
  have "unat (of_nat (n + j) :: u32) = n + j" if "j < length ks" for j
  proof -
    have "n + j < 2 ^ 29" using that assms(1,2) by (simp add: filled_def segment_ok_def)
    then show ?thesis by (simp add: unsigned_of_nat take_bit_nat_eq_self del: of_nat_add)
  qed
  then have "mix_buffer_block_test md' (ks ! j) (int i) = Some (int (n + j))" if "j < length ks" for j
    using that md'(3) by (simp add: block_test_filled [OF md'(2)] del: of_nat_add of_nat_unat)
  moreover have "mix_buffer_block_test md' k (int i) = mix_buffer_block_test md k (int i)" if "k \<notin> set ks" for k
    using that md'(4) by (simp add: block_test_filled [OF md'(2)] block_test_filled [OF assms(1)])
  moreover have "mix_get_next_free_block md' (int i) = Some (md', -1)" if "n + length ks = unat (md_per_block_num md)"
    using next_free_block_full [of md' i] md'(2) that per by simp
  ultimately show ?thesis using md'(1,2) by blast
qed

theorem segment_fills_in_order_witness:
  "\<exists>md md'. init_2048 = Some md \<and>
     index_blocks md 2 [30, 10, 20] = Some (md', [0, 1, 2]) \<and> mix_buffer_block_test md' 10 2 = Some 1"
proof -
  obtain md where md: "init_2048 = Some md" "unat (md_per_block_num md) = 512" "\<And>i. i < 4 \<Longrightarrow> filled md i 0"
    using sample_metadata by blast
  have f: "filled md 2 0" by (rule md(3)) simp
  then have none: "\<forall>k \<in> set [30, 10, 20]. mix_buffer_block_test md k (int 2) = Some (-1)"
    using block_test_none [OF f] filled_0_none [OF f] by blast
  have "0 + length [30, 10, 20 :: u32] \<le> unat (md_per_block_num md)" "distinct [30, 10, 20 :: u32]"
    by (simp_all add: md(2))
  from segment_fills_in_order [OF f this none] obtain md' where
    "index_blocks md (int 2) [30, 10, 20] = Some (md', map int [0..<0 + length [30, 10, 20 :: u32]])" and
    t: "\<forall>j < length [30, 10, 20 :: u32]. mix_buffer_block_test md' ([30, 10, 20] ! j) (int 2) = Some (int (0 + j))"
    by blast
  moreover have "map int [0..<0 + length [30, 10, 20 :: u32]] = [0, 1, 2]" by (simp add: upt_rec)
  moreover have "mix_buffer_block_test md' 10 2 = Some 1" using t [rule_format, of 1] by simp
  ultimately show ?thesis using md(1) by (intro exI [of _ md] exI [of _ md']) (simp del: index_blocks.simps)
qed


text \<open>C12. \<open>mix_buffer_rebuild\<close> restores the index of an empty segment from the descriptors in persistent
  memory: an address is found in the last block of the segment whose valid descriptor names it, and
  not found when there is none; the number of used blocks is that of the valid descriptors; the
  other segments are left alone.\<close>

theorem rebuild_restores_index:
  assumes "filled md i 0" "layout_ok nvm" "per = unat (md_per_block_num md)" "i * per + per \<le> buffer_blocks nvm"
  shows "\<exists>md'. mix_buffer_rebuild nvm md (int i) = Some (md', True) \<and>
    (\<forall>k. mix_buffer_block_test md' k (int i) =
       Some (let js = slots_of_key nvm (i * per) per k in if js = [] then -1 else int (last js))) \<and>
    sg_used_block_num (md_segments md' ! i) = int (length (valid_slots nvm (i * per) per)) \<and>
    same_other_segments i md md'"
proof -
  obtain md' where md': "rebuild_loop per 0 nvm (int i) md = Some md'" "rebuilt nvm md' i per" "same_other_segments i md md'"
    using rebuild_loop_rebuilt [OF assms(2) rebuilt_start [OF assms(1)], of per] assms(3,4) by auto
  have per: "unat (md_per_block_num md') = per" using md'(3) assms(3) by (simp add: same_other_segments_def)
  have "mix_buffer_rebuild nvm md (int i) = Some (md', True)" using md'(1) assms(3) by (simp add: mix_buffer_rebuild_def)
  then show ?thesis
    using md'(2,3) block_test_rebuilt [of nvm md' i] by (simp add: per rebuilt_def Let_def)
qed

theorem rebuild_restores_index_witness:
  "\<exists>md nvm md'. init_2048 = Some md \<and> layout_ok nvm \<and>
     mix_buffer_rebuild nvm md 3 = Some (md', True) \<and>
     sg_used_block_num (md_segments md' ! 3) = int (length (valid_slots nvm 1536 512))"
proof -
  obtain md where md: "init_2048 = Some md" "unat (md_per_block_num md) = 512" "\<And>i. i < 4 \<Longrightarrow> filled md i 0"
    using sample_metadata by blast
  obtain nvm where nvm: "layout_ok nvm" "buffer_blocks nvm = 2048" using program_state by blast
  have "filled md 3 0" "512 = unat (md_per_block_num md)" "3 * 512 + 512 \<le> buffer_blocks nvm"
    using md(2,3) nvm(2) by simp_all
  from rebuild_restores_index [OF this(1) nvm(1) this(2,3)] show ?thesis using md(1) nvm(1) by auto
qed

text \<open>C22. \<open>mix_clear_block\<close> removes the blocks \<open>offset\<close>, \<open>offset + 4\<close>, ... from the index and invalidates
  their descriptors up to the first one that is not buffered, and then stops: the addresses behind
  the gap stay in the index.\<close>

theorem clear_stops_at_first_gap:
  assumes "index_ok md i" "pmem_copies (env_cpy env)" "layout_ok nvm"
    "i * unat (md_per_block_num md) + unat (md_per_block_num md) \<le> buffer_blocks nvm" "buffer_blocks nvm < 2 ^ 32"
    "distinct (clear_keys offset 0 (unat len))" "ks = leading_run (seg_hash md i) (clear_keys offset 0 (unat len))"
  shows "\<exists>md' nvm'. mix_clear_block env len offset (int i) (md, nvm) = Some (md', nvm') \<and>
    hash_stack (seg_hash md' i) = (\<lambda>k. if k \<in> set ks then [] else hash_stack (seg_hash md i) k) \<and>
    sg_used_block_num (md_segments md' ! i) = sg_used_block_num (md_segments md ! i) - int (length ks) \<and>
    same_other_segments i md md' \<and> invalidated (run_blocks md i ks) nvm nvm'"
  unfolding mix_clear_block_def using clear_block_loop_run [OF assms(2,1,3,6,4,5,7)] by blast

lemma filled_index_ok: "filled md i n \<Longrightarrow> index_ok md i"
  by (force simp: filled_def index_ok_def)

text \<open>Addresses 40 and 48 are buffered, 44 is not: the request for the three blocks clears only 40.\<close>

theorem clear_stops_at_first_gap_witness:
  "\<exists>md nvm md' nvm'. mix_clear_block \<lparr>env_cpy = mem_write, env_ssd_write = \<lambda>s _ _ _ _. Some (), env_ssd_read = \<lambda>_ _ _ _. None\<rparr> 3 40 0 (md, nvm) = Some (md', nvm') \<and>
     hash_stack (seg_hash md 0) 48 = [1] \<and> hash_stack (seg_hash md' 0) 40 = [] \<and> hash_stack (seg_hash md' 0) 48 = [1]"
proof -
  obtain md0 where md0: "unat (md_per_block_num md0) = 512" "filled md0 0 0" using sample_metadata by force
  obtain md where md: "filled md 0 2" "hash_stack (seg_hash md 0) 40 = [0]" "hash_stack (seg_hash md 0) 48 = [1]"
      "hash_stack (seg_hash md 0) 44 = []" "same_other_segments 0 md0 md"
  proof -
    have p: "\<forall>k \<in> set [40, 48]. hash_stack (seg_hash md0 0) k = []" "distinct [40, 48 :: u32]"
        "0 + length [40, 48 :: u32] \<le> unat (md_per_block_num md0)"
      using filled_0_none [OF md0(2)] md0(1) by simp_all
    obtain md where m: "filled md 0 (0 + length [40, 48 :: u32])"
        "\<forall>j < length [40, 48 :: u32]. hash_stack (seg_hash md 0) ([40, 48] ! j) = [of_nat (0 + j)]"
        "\<forall>k. k \<notin> set [40, 48] \<longrightarrow> hash_stack (seg_hash md 0) k = hash_stack (seg_hash md0 0) k" "same_other_segments 0 md0 md"
      using index_blocks_filled [OF md0(2) p(3,2,1)] by blast
    have "hash_stack (seg_hash md 0) 44 = []" using m(3) [rule_format, of 44] filled_0_none [OF md0(2)] by simp
    then show thesis
      by (intro that [of md]) (use m m(2) [rule_format, of 0] m(2) [rule_format, of 1]
        in \<open>simp_all add: numeral_2_eq_2\<close>)
  qed
  obtain nvm where nvm: "layout_ok nvm" "buffer_blocks nvm = 2048" using program_state by blast
  let ?env = "\<lparr>env_cpy = mem_write, env_ssd_write = \<lambda>s _ _ _ _. Some (), env_ssd_read = \<lambda>_ _ _ _. None\<rparr>"
  have keys: "clear_keys 40 0 (unat (3 :: u64)) = [40, 44, 48]"
    by (simp add: clear_keys_def BUFFER_QUEUE_NUM_def upt_rec)
  have "leading_run (seg_hash md 0) [40, 44, 48] = [40]" using md(2,4) by (simp add: leading_run_def)
  moreover have "0 * unat (md_per_block_num md) + unat (md_per_block_num md) \<le> buffer_blocks nvm"
    using md(5) md0(1) nvm(2) by (simp add: same_other_segments_def)
  ultimately obtain md' nvm' where c: "mix_clear_block ?env 3 40 (int 0) (md, nvm) = Some (md', nvm')"
      "hash_stack (seg_hash md' 0) = (\<lambda>k. if k \<in> set [40] then [] else hash_stack (seg_hash md 0) k)"
    using clear_stops_at_first_gap [OF filled_index_ok [OF md(1)], of ?env nvm 40 3 "[40]"] mem_write_copies nvm keys by auto
  then show ?thesis using md(3) by (intro exI [of _ md] exI [of _ nvm] exI [of _ md'] exI [of _ nvm']) simp
qed


end
