(* ===== verification/Mix_Migrate.thy ===== *)
theory Mix_Migrate
  imports Mix_Meta
begin

text \<open>
  The migration of a segment to the SSD, \<open>migrate\<close> in \<open>src/src/mix_meta.c\<close>: what one bucket, one thread
  and all eight threads do to the index, the persistent memory and the SSD. The passes of the threads
  are run one after the other, in any order; the handshake by which the threads are started and
  awaited is in the theory \<open>Migrate_Protocol\<close>.
\<close>

section \<open>Emptying a bucket\<close>

text \<open>What the code relies on from the SSD driver: writing one block with an address of 32 bits stores it and
  leaves the other blocks alone; \<open>blk s\<close> gives the blocks of the SSD.\<close>

definition ssd_stores :: "'s environment \<Rightarrow> ('s \<Rightarrow> u64 \<Rightarrow> u8 list) \<Rightarrow> bool" where
  "ssd_stores env blk \<longleftrightarrow> (\<forall>s buf off. length buf = 4096 \<and> unat off < 2 ^ 32 \<longrightarrow>
     (\<exists>s'. env_ssd_write env s buf 1 off 0 = Some s' \<and> blk s' = (blk s)(off := buf)))"

text \<open>The effect of migrating a list of entries, first one first: every entry copies the buffer block
  with the number of its value to the SSD block with the number of its key.\<close>

definition move_entry :: "nvm_state \<Rightarrow> u32 \<times> u32 \<Rightarrow> (u64 \<Rightarrow> u8 list) \<Rightarrow> u64 \<Rightarrow> u8 list" where
  "move_entry nvm e disk = disk(ucast (fst e) := the (buffer_data nvm (unat (snd e))))"

definition movable :: "nvm_state \<Rightarrow> u32 \<times> u32 \<Rightarrow> bool" where
  "movable nvm e \<longleftrightarrow> fst e \<noteq> -1 \<and> snd e \<noteq> -1 \<and> unat (snd e) < buffer_blocks nvm"

lemma move_entry_cong: "same_data nvm nvm' \<Longrightarrow> movable nvm e \<Longrightarrow> move_entry nvm' e = move_entry nvm e"
  by (simp add: move_entry_def movable_def same_data_def fun_eq_iff)

lemma fold_move_cong:
  assumes "same_data nvm nvm'"
  shows "\<forall>e \<in> set es. movable nvm e \<Longrightarrow> fold (move_entry nvm') es d = fold (move_entry nvm) es d"
proof (induction es arbitrary: d)
  case (Cons e es)
  then show ?case using move_entry_cong [OF assms, of e] by simp
qed simp

lemma buffer_data_length:
  assumes "layout_ok st" "i < buffer_blocks st"
  obtains d where "buffer_data st i = Some d" "length d = 4096"
proof -
  have "buffer_pos st i + 4096 \<le> length (ns_mem st)" using buffer_range [OF assms] by simp
  then have "buffer_data st i = Some (take 4096 (drop (buffer_pos st i) (ns_mem st)))"
    "length (take 4096 (drop (buffer_pos st i) (ns_mem st))) = 4096"
    using data_eq(1) [OF assms] by (simp_all add: mem_read_def)
  then show thesis by (rule that)
qed

lemma migrate_one:
  assumes env: "pmem_copies (env_cpy env)" "ssd_stores env blk" and ok: "layout_ok nvm" and e: "movable nvm e"
  shows "\<exists>nvm' ssd'. migrate_from_buffer_to_ssd env (snd e) (fst e) (nvm, ssd) = Some (nvm', ssd') \<and>
    same_data nvm nvm' \<and> blk ssd' = move_entry nvm e (blk ssd)"
proof -
  have i: "unat (snd e) < buffer_blocks nvm" using e by (simp add: movable_def)
  obtain d where d: "buffer_data nvm (unat (snd e)) = Some d" "length d = 4096"
    using buffer_data_length [OF ok i] by blast
  then have rd: "mix_buffer_read nvm (ucast (snd e)) = Some d" by (simp add: buffer_data_def)
  have key: "unat (ucast (fst e) :: u64) < 2 ^ 32" using unat_less_exp [of "fst e"] by (simp add: unat_ucast_up)
  obtain ssd' where ssd': "env_ssd_write env ssd d 1 (ucast (fst e)) 0 = Some ssd'"
      "blk ssd' = (blk ssd)(ucast (fst e) := d)"
    using env(2) d(2) key unfolding ssd_stores_def by blast
  obtain nvm' where nvm': "mix_buffer_clear (env_cpy env) nvm (of_nat (unat (snd e))) = Some nvm'" "layout_ok nvm'"
      "ns_nvm nvm' = ns_nvm nvm" "ns_buffer nvm' = ns_buffer nvm" "same_buffer_data nvm nvm' (\<lambda>_. True)"
      "same_nvm_data nvm nvm' (\<lambda>_. True)"
    by (rule mix_buffer_clear_spec [OF env(1) ok i]) blast
  then have "mix_buffer_clear (env_cpy env) nvm (ucast (snd e)) = Some nvm'" by simp
  moreover have "same_data nvm nvm'" using nvm'(2-6) by (rule same_data_intro)
  ultimately show ?thesis
    using rd ssd' d by (simp add: migrate_from_buffer_to_ssd_def move_entry_def)
qed

text \<open>The parts of the metadata that the migration of segment \<open>i\<close> does not touch.\<close>

definition same_but_segment :: "nat \<Rightarrow> metadata \<Rightarrow> metadata \<Rightarrow> bool" where
  "same_but_segment i md md' \<longleftrightarrow>
     md_per_block_num md' = md_per_block_num md \<and> md_migrate_thread_num md' = md_migrate_thread_num md \<and>
     md_migration md' = md_migration md \<and> md_migrate_segment_idx md' = md_migrate_segment_idx md \<and>
     length (md_hash md') = length (md_hash md) \<and> length (md_segments md') = length (md_segments md) \<and>
     seg_bitmap md' i = seg_bitmap md i \<and> sg_migration (md_segments md' ! i) = sg_migration (md_segments md ! i) \<and> mh_size (seg_hash md' i) = mh_size (seg_hash md i) \<and>
     (\<forall>j. j \<noteq> i \<longrightarrow> seg_hash md' j = seg_hash md j \<and> md_segments md' ! j = md_segments md ! j)"

lemma same_but_segment_refl: "same_but_segment i md md"
  by (simp add: same_but_segment_def)

lemma same_but_segment_trans: "same_but_segment i a b \<Longrightarrow> same_but_segment i b c \<Longrightarrow> same_but_segment i a c"
  by (simp add: same_but_segment_def)

lemma migrate_bucket_empties:
  assumes env: "pmem_copies (env_cpy env)" "ssd_stores env blk"
  shows "segment_ok md i \<Longrightarrow> b < length (mh_nodes (seg_hash md i)) \<Longrightarrow> layout_ok nvm \<Longrightarrow>
    bucket (seg_hash md i) b = es \<Longrightarrow> \<forall>e \<in> set es. movable nvm e \<Longrightarrow>
    \<exists>md' nvm' ssd'. migrate_bucket env (int i) (int b) (md, nvm, ssd) = Some (md', nvm', ssd') \<and>
      segment_ok md' i \<and> same_but_segment i md md' \<and> same_data nvm nvm' \<and>
      blk ssd' = fold (move_entry nvm) es (blk ssd) \<and>
      length (mh_nodes (seg_hash md' i)) = length (mh_nodes (seg_hash md i)) \<and>
      (\<forall>j < length (mh_nodes (seg_hash md i)).
         bucket (seg_hash md' i) j = (if j = b then [] else bucket (seg_hash md i) j)) \<and>
      hash_room (seg_hash md' i) = hash_room (seg_hash md i) + length es \<and>
      sg_used_block_num (md_segments md' ! i) = sg_used_block_num (md_segments md ! i) - int (length es)"
proof (induction es arbitrary: md nvm ssd)
  case Nil
  have idx: "i < length (md_hash md)" "i < length (md_segments md)" "hash_len_ok (seg_hash md i)"
    using Nil.prems by (simp_all add: segment_ok_def)
  have "hn_len (mh_nodes (seg_hash md i) ! b) \<le> 0" using idx(3) Nil.prems by (simp add: hash_len_ok_def)
  from get_entry_empty [OF Nil.prems(2) this]
  have "migrate_bucket env (int i) (int b) (md, nvm, ssd) = Some (md, nvm, ssd)"
    using idx by (subst migrate_bucket.simps) (simp add: upd_hash_int kv_of_def)
  then show ?case using Nil.prems by (auto simp: same_but_segment_refl same_data_refl)
next
  case (Cons e es)
  have ok: "hash_ok (seg_hash md i)" "hash_len_ok (seg_hash md i)"
    and idx: "i < length (md_hash md)" "i < length (md_segments md)"
    using Cons.prems(1) by (simp_all add: segment_ok_def)
  obtain h where h: "mix_hash_get_entry_by_idx (seg_hash md i) (int b) = Some (h, kv_of e)" "hash_ok h" "hash_len_ok h"
      "mh_size h = mh_size (seg_hash md i)" "length (mh_nodes h) = length (mh_nodes (seg_hash md i))"
      "hash_room h = Suc (hash_room (seg_hash md i))"
      "\<forall>j < length (mh_nodes (seg_hash md i)). bucket h j = (if j = b then es else bucket (seg_hash md i) j)"
    using get_entry_spec [OF ok Cons.prems(2,4)] by blast
  have mv: "movable nvm e" using Cons.prems(5) by simp
  obtain nvm1 ssd1 where m: "migrate_from_buffer_to_ssd env (snd e) (fst e) (nvm, ssd) = Some (nvm1, ssd1)"
      "same_data nvm nvm1" "blk ssd1 = move_entry nvm e (blk ssd)"
    using migrate_one [OF env Cons.prems(3) mv] by blast
  define md1 where "md1 = md\<lparr>md_hash := (md_hash md)[i := h], md_segments := (md_segments md)[i :=
    (md_segments md ! i)\<lparr>sg_used_block_num := sg_used_block_num (md_segments md ! i) - 1\<rparr>]\<rparr>"
  have step: "migrate_bucket env (int i) (int b) (md, nvm, ssd) = migrate_bucket env (int i) (int b) (md1, nvm1, ssd1)"
    using idx h(1) m(1) mv
    by (subst migrate_bucket.simps) (simp add: upd_hash_int upd_segment_int kv_of_def movable_def md1_def)
  have s1: "segment_ok md1 i" using Cons.prems(1) h(2,3) by (simp add: segment_ok_def md1_def)
  have hash1: "seg_hash md1 i = h" using idx by (simp add: md1_def)
  have "same_but_segment i md md1" using idx h(4) by (simp add: same_but_segment_def md1_def)
  moreover have l1: "layout_ok nvm1" using m(2) by (simp add: same_data_def)
  have mv1: "\<forall>e \<in> set es. movable nvm1 e" using Cons.prems(5) m(2) by (simp add: movable_def same_data_def)
  have b1: "b < length (mh_nodes (seg_hash md1 i))" "bucket (seg_hash md1 i) b = es"
    using h(5,7) Cons.prems(2) by (simp_all add: hash1)
  from Cons.IH [OF s1 b1(1) l1 b1(2) mv1, of ssd1] obtain md' nvm' ssd' where IH:
    "migrate_bucket env (int i) (int b) (md1, nvm1, ssd1) = Some (md', nvm', ssd')" "segment_ok md' i"
    "same_but_segment i md1 md'" "same_data nvm1 nvm'" "blk ssd' = fold (move_entry nvm1) es (blk ssd1)"
    "length (mh_nodes (seg_hash md' i)) = length (mh_nodes h)"
    "\<forall>j < length (mh_nodes h). bucket (seg_hash md' i) j = (if j = b then [] else bucket h j)"
    "hash_room (seg_hash md' i) = hash_room h + length es"
    "sg_used_block_num (md_segments md' ! i) = sg_used_block_num (md_segments md1 ! i) - int (length es)"
    unfolding hash1 by blast
  have "blk ssd' = fold (move_entry nvm) (e # es) (blk ssd)"
    using IH(5) m(3) fold_move_cong [OF m(2), of es] Cons.prems(5) by simp
  moreover have "sg_used_block_num (md_segments md1 ! i) = sg_used_block_num (md_segments md ! i) - 1"
    using idx by (simp add: md1_def)
  ultimately show ?case
    using step IH h(5-7) same_but_segment_trans same_data_trans [OF m(2)] by (intro exI [of _ md']) auto
qed

section \<open>One round of a thread\<close>

text \<open>The buckets of the thread that starts at bucket \<open>b\<close>.\<close>

function lane :: "nat \<Rightarrow> nat \<Rightarrow> nat list" where
  "lane b n = (if b < n then b # lane (b + 8) n else [])"
  by pat_completeness auto
termination by (relation "measure (\<lambda>(b, n). n - b)") auto

declare lane.simps [simp del]

lemma set_lane: "set (lane b n) = {j. b \<le> j \<and> j < n \<and> (j - b) mod 8 = 0}"
proof (induction b n rule: lane.induct)
  case (1 b n)
  show ?case
  proof (cases "b < n")
    case True
    have "j = b \<or> b + 8 \<le> j \<and> j < n \<and> (j - (b + 8)) mod 8 = 0 \<longleftrightarrow> b \<le> j \<and> j < n \<and> (j - b) mod 8 = 0" for j
    proof (cases "b + 8 \<le> j")
      case le: True
      then have "(j - b) mod 8 = (j - (b + 8)) mod 8" by (simp add: le_mod_geq)
      then show ?thesis using le by auto
    next
      case lt: False
      then have "(j - b) mod 8 = j - b" by simp
      then show ?thesis using lt True by auto
    qed
    then have "insert b {j. b + 8 \<le> j \<and> j < n \<and> (j - (b + 8)) mod 8 = 0} = {j. b \<le> j \<and> j < n \<and> (j - b) mod 8 = 0}"
      unfolding set_eq_iff insert_iff mem_Collect_eq by (rule allI)
    moreover have "set (lane b n) = insert b (set (lane (b + 8) n))" using True by (subst lane.simps) simp
    ultimately show ?thesis using 1 [OF True] by simp
  next
    case False
    then show ?thesis by (subst lane.simps) auto
  qed
qed

lemma distinct_lane: "distinct (lane b n)"
proof (induction b n rule: lane.induct)
  case (1 b n)
  then show ?case by (subst lane.simps) (auto simp: set_lane)
qed

definition all_movable :: "mix_hash \<Rightarrow> nvm_state \<Rightarrow> bool" where
  "all_movable h nvm \<longleftrightarrow> (\<forall>j < length (mh_nodes h). \<forall>e \<in> set (bucket h j). movable nvm e)"

text \<open>The state after the buckets \<open>js\<close> of segment \<open>i\<close> were migrated.\<close>

definition migrated ::
    "('s \<Rightarrow> u64 \<Rightarrow> u8 list) \<Rightarrow> nat \<Rightarrow> nat list \<Rightarrow> metadata \<times> nvm_state \<times> 's \<Rightarrow> metadata \<times> nvm_state \<times> 's \<Rightarrow> bool" where
  "migrated blk i js = (\<lambda>(md, nvm, ssd) (md', nvm', ssd').
     segment_ok md' i \<and> same_but_segment i md md' \<and> same_data nvm nvm' \<and>
     blk ssd' = fold (move_entry nvm) (entries_of (seg_hash md i) js) (blk ssd) \<and>
     length (mh_nodes (seg_hash md' i)) = length (mh_nodes (seg_hash md i)) \<and>
     (\<forall>j < length (mh_nodes (seg_hash md i)).
        bucket (seg_hash md' i) j = (if j \<in> set js then [] else bucket (seg_hash md i) j)) \<and>
     hash_room (seg_hash md' i) = hash_room (seg_hash md i) + length (entries_of (seg_hash md i) js) \<and>
     sg_used_block_num (md_segments md' ! i) =
       sg_used_block_num (md_segments md ! i) - int (length (entries_of (seg_hash md i) js)))"

lemma migrated_movable:
  assumes "migrated blk i js (md, nvm, ssd) (md', nvm', ssd')" "all_movable (seg_hash md i) nvm"
  shows "all_movable (seg_hash md' i) nvm'"
  using assms by (auto simp: migrated_def all_movable_def movable_def same_data_def split: if_splits)

lemma migrated_trans:
  assumes a: "migrated blk i js (md, nvm, ssd) (md1, nvm1, ssd1)"
    and b: "migrated blk i js' (md1, nvm1, ssd1) st2"
    and disj: "set js \<inter> set js' = {}" "set js' \<subseteq> {..<length (mh_nodes (seg_hash md i))}"
    and mv: "all_movable (seg_hash md i) nvm"
  shows "migrated blk i (js @ js') (md, nvm, ssd) st2"
proof -
  obtain md2 nvm2 ssd2 where st2: "st2 = (md2, nvm2, ssd2)" by (cases st2)
  note a' = a [unfolded migrated_def case_prod_conv] and b' = b [unfolded st2 migrated_def case_prod_conv]
  have "bucket (seg_hash md1 i) j = bucket (seg_hash md i) j" if "j \<in> set js'" for j
  proof -
    have "j \<notin> set js" "j < length (mh_nodes (seg_hash md i))" using disj that by auto
    then show ?thesis using a' by simp
  qed
  then have e: "entries_of (seg_hash md1 i) js' = entries_of (seg_hash md i) js'" by (rule entries_of_cong)
  have "movable nvm x" if "x \<in> set (entries_of (seg_hash md i) js')" for x
    using mv disj(2) that by (auto simp: entries_of_def all_movable_def)
  then have "fold (move_entry nvm1) (entries_of (seg_hash md i) js') d = fold (move_entry nvm) (entries_of (seg_hash md i) js') d" for d
    using a' by (intro fold_move_cong) auto
  then show ?thesis
    using a' b' same_but_segment_trans same_data_trans
    unfolding st2 migrated_def case_prod_conv e by (auto simp: same_data_def)
qed

lemma migrate_round_lane:
  assumes env: "pmem_copies (env_cpy env)" "ssd_stores env blk"
  shows "segment_ok md i \<Longrightarrow> layout_ok nvm \<Longrightarrow> all_movable (seg_hash md i) nvm \<Longrightarrow>
    md_migrate_thread_num md = 8 \<Longrightarrow> n = length (mh_nodes (seg_hash md i)) \<Longrightarrow>
    \<exists>st'. migrate_round env (int i) (int b) (md, nvm, ssd) = Some st' \<and> migrated blk i (lane b n) (md, nvm, ssd) st'"
proof (induction b n arbitrary: md nvm ssd rule: lane.induct)
  case (1 b n)
  have idx: "i < length (md_hash md)" and hok: "hash_ok (seg_hash md i)" using 1(2) by (simp_all add: segment_ok_def)
  then obtain fs bs where "hash_rep (seg_hash md i) fs bs" by (auto simp: hash_ok_def)
  then have size: "mh_size (seg_hash md i) = int n" using 1(6) by (simp add: hash_rep_def)
  show ?case
  proof (cases "b < n")
    case False
    then have "migrate_round env (int i) (int b) (md, nvm, ssd) = Some (md, nvm, ssd)"
      using idx size by (subst migrate_round.simps) simp
    moreover have "lane b n = []" using False by (simp add: lane.simps)
    ultimately show ?thesis
      using 1(2,3) by (auto simp: migrated_def same_but_segment_refl same_data_refl)
  next
    case True
    obtain md1 nvm1 ssd1 where m1: "migrate_bucket env (int i) (int b) (md, nvm, ssd) = Some (md1, nvm1, ssd1)"
        "migrated blk i [b] (md, nvm, ssd) (md1, nvm1, ssd1)"
      using migrate_bucket_empties [OF env 1(2) _ 1(3) refl, of b ssd] 1(4,6) True
      by (auto simp: migrated_def all_movable_def)
    have s1: "segment_ok md1 i" "layout_ok nvm1" "md_migrate_thread_num md1 = 8" "n = length (mh_nodes (seg_hash md1 i))"
      using m1(2) 1(5,6) by (auto simp: migrated_def same_data_def same_but_segment_def)
    from 1(1) [OF True s1(1,2) migrated_movable [OF m1(2) 1(4)] s1(3,4), of ssd1] obtain st' where
      st': "migrate_round env (int i) (int (b + 8)) (md1, nvm1, ssd1) = Some st'"
        "migrated blk i (lane (b + 8) n) (md1, nvm1, ssd1) st'" by blast
    have "migrated blk i ([b] @ lane (b + 8) n) (md, nvm, ssd) st'"
      by (rule migrated_trans [OF m1(2) st'(2) _ _ 1(4)]) (use 1(6) in \<open>auto simp: set_lane\<close>)
    moreover have "lane b n = b # lane (b + 8) n" using True by (subst lane.simps) simp
    moreover have "migrate_round env (int i) (int b) (md, nvm, ssd) = Some st'"
      using idx size True m1(1) s1(3) st'(1) by (subst migrate_round.simps) (simp add: 1(5))
    ultimately show ?thesis by simp
  qed
qed


section \<open>All threads\<close>

text \<open>The passes of the threads \<open>ts\<close>, one after the other.\<close>

fun migrate_passes ::
    "'s environment \<Rightarrow> nat list \<Rightarrow> (metadata \<times> nvm_state \<times> 's) \<times> int list \<Rightarrow>
       ((metadata \<times> nvm_state \<times> 's) \<times> int list) option" where
  "migrate_passes env [] st = Some st"
| "migrate_passes env (t # ts) st = migrate_pass env t st \<bind> migrate_passes env ts"

definition lanes :: "nat list \<Rightarrow> nat \<Rightarrow> nat list" where
  "lanes ts n = concat (map (\<lambda>t. lane t n) ts)"

lemma lanes_simps [simp]: "lanes [] n = []" "lanes (t # ts) n = lane t n @ lanes ts n"
  by (simp_all add: lanes_def)

lemma lane_mod: "j \<in> set (lane t n) \<Longrightarrow> t < 8 \<Longrightarrow> j mod 8 = t"
proof -
  assume a: "j \<in> set (lane t n)" "t < 8"
  then have "8 dvd j - t" "t \<le> j" by (auto simp: set_lane)
  then obtain q where "j = t + 8 * q" by (metis dvdE le_add_diff_inverse)
  then show "j mod 8 = t" using a(2) by simp
qed

lemma in_own_lane: "j < n \<Longrightarrow> j \<in> set (lane (j mod 8) n)"
  by (simp add: set_lane minus_mod_eq_mult_div)

lemma set_lanes: "set ts \<subseteq> {..<8} \<Longrightarrow> j \<in> set (lanes ts n) \<longleftrightarrow> j < n \<and> j mod 8 \<in> set ts"
proof
  assume ts: "set ts \<subseteq> {..<8}" and "j \<in> set (lanes ts n)"
  then obtain t where "t \<in> set ts" "j \<in> set (lane t n)" by (auto simp: lanes_def)
  then show "j < n \<and> j mod 8 \<in> set ts" using ts lane_mod [of j t n] by (auto simp: set_lane)
next
  assume "j < n \<and> j mod 8 \<in> set ts"
  then show "j \<in> set (lanes ts n)" using in_own_lane by (auto simp: lanes_def)
qed

lemma distinct_lanes: "distinct ts \<Longrightarrow> set ts \<subseteq> {..<8} \<Longrightarrow> distinct (lanes ts n)"
proof (induction ts)
  case (Cons t ts)
  have "set (lane t n) \<inter> set (lanes ts n) = {}"
    using Cons.prems by (auto simp: set_lanes dest: lane_mod)
  then show ?case using Cons by (simp add: distinct_lane)
qed simp

definition clear_flags :: "nat list \<Rightarrow> bool list \<Rightarrow> bool list" where
  "clear_flags ts flags = fold (\<lambda>t fl. fl[t := False]) ts flags"

lemma length_clear_flags [simp]: "length (clear_flags ts flags) = length flags"
  unfolding clear_flags_def by (induction ts arbitrary: flags) auto

lemma nth_clear_flags: "t < length flags \<Longrightarrow> clear_flags ts flags ! t = (t \<notin> set ts \<and> flags ! t)"
proof (induction ts arbitrary: flags)
  case (Cons a ts)
  have "clear_flags (a # ts) flags = clear_flags ts (flags[a := False])" by (simp add: clear_flags_def)
  then show ?case using Cons by (cases "a = t") auto
qed (simp add: clear_flags_def)

lemma migrated_flags:
  "migrated blk i js (md, nvm, ssd) (md', st) \<Longrightarrow>
   migrated blk i js (md\<lparr>md_migration := f\<rparr>, nvm, ssd) (md'\<lparr>md_migration := f\<rparr>, st)"
proof -
  have "segment_ok (m\<lparr>md_migration := f\<rparr>) i = segment_ok m i" for m by (simp add: segment_ok_def)
  moreover have "same_but_segment i (m\<lparr>md_migration := f\<rparr>) (m'\<lparr>md_migration := f\<rparr>)" if "same_but_segment i m m'" for m m'
    using that by (simp add: same_but_segment_def)
  moreover assume "migrated blk i js (md, nvm, ssd) (md', st)"
  ultimately show ?thesis by (cases st) (simp add: migrated_def)
qed

lemma migrate_pass_lane:
  assumes env: "pmem_copies (env_cpy env)" "ssd_stores env blk"
    and ok: "segment_ok md i" "layout_ok nvm" "all_movable (seg_hash md i) nvm" "md_migrate_thread_num md = 8"
      "md_migrate_segment_idx md = int i"
    and t: "t < length (md_migration md)" "md_migration md ! t" and c: "i < length c"
  shows "\<exists>md' nvm' ssd'. migrate_pass env t ((md, nvm, ssd), c) =
      Some ((md'\<lparr>md_migration := (md_migration md)[t := False]\<rparr>, nvm', ssd'), c[i := c ! i + 1]) \<and>
    migrated blk i (lane t (length (mh_nodes (seg_hash md i)))) (md, nvm, ssd) (md', nvm', ssd')"
proof -
  obtain md' nvm' ssd' where r: "migrate_round env (int i) (int t) (md, nvm, ssd) = Some (md', nvm', ssd')"
      "migrated blk i (lane t (length (mh_nodes (seg_hash md i)))) (md, nvm, ssd) (md', nvm', ssd')"
    using migrate_round_lane [OF env ok(1-4) refl, of t ssd] by auto
  then have "md_migration md' = md_migration md" by (simp add: migrated_def same_but_segment_def)
  then have "migrate_pass env t ((md, nvm, ssd), c) =
      Some ((md'\<lparr>md_migration := (md_migration md)[t := False]\<rparr>, nvm', ssd'), c[i := c ! i + 1])"
    using r(1) ok(5) t c by (simp add: migrate_pass_def)
  then show ?thesis using r(2) by blast
qed

lemma migrate_passes_lanes:
  assumes env: "pmem_copies (env_cpy env)" "ssd_stores env blk" and n: "n = length (mh_nodes (seg_hash md i))"
  shows "segment_ok md i \<Longrightarrow> layout_ok nvm \<Longrightarrow> all_movable (seg_hash md i) nvm \<Longrightarrow> md_migrate_thread_num md = 8 \<Longrightarrow>
    md_migrate_segment_idx md = int i \<Longrightarrow> distinct ts \<Longrightarrow> set ts \<subseteq> {..<8} \<Longrightarrow> length (md_migration md) = 8 \<Longrightarrow>
    (\<forall>t \<in> set ts. md_migration md ! t) \<Longrightarrow> i < length c \<Longrightarrow>
    \<exists>md' nvm' ssd'. migrate_passes env ts ((md, nvm, ssd), c) =
      Some ((md'\<lparr>md_migration := clear_flags ts (md_migration md)\<rparr>, nvm', ssd'), c[i := c ! i + int (length ts)]) \<and>
    migrated blk i (lanes ts n) (md, nvm, ssd) (md', nvm', ssd')"
  using n
proof (induction ts arbitrary: md nvm ssd c)
  case Nil
  have "md\<lparr>md_migration := clear_flags [] (md_migration md)\<rparr> = md" by (simp add: clear_flags_def)
  moreover have "migrated blk i (lanes [] n) (md, nvm, ssd) (md, nvm, ssd)"
    using Nil.prems by (simp add: migrated_def same_but_segment_refl same_data_refl)
  ultimately show ?case by (intro exI [of _ md] exI [of _ nvm] exI [of _ ssd]) simp
next
  case (Cons t ts)
  have t: "t < length (md_migration md)" "md_migration md ! t" using Cons.prems by auto
  obtain md1 nvm1 ssd1 where p: "migrate_pass env t ((md, nvm, ssd), c) =
      Some ((md1\<lparr>md_migration := (md_migration md)[t := False]\<rparr>, nvm1, ssd1), c[i := c ! i + 1])"
      "migrated blk i (lane t n) (md, nvm, ssd) (md1, nvm1, ssd1)"
    using migrate_pass_lane [OF env Cons.prems(1-5) t Cons.prems(10), of ssd] Cons.prems(11) by blast
  define fl where "fl = (md_migration md)[t := False]"
  define md1' where "md1' = md1\<lparr>md_migration := fl\<rparr>"
  define c1 where "c1 = c[i := c ! i + 1]"
  note p2 = p(2) [unfolded migrated_def case_prod_conv]
  have ok: "segment_ok md1' i" "md_migrate_thread_num md1' = 8" "md_migrate_segment_idx md1' = int i"
    and l: "layout_ok nvm1" and n: "n = length (mh_nodes (seg_hash md1' i))"
    using p2 Cons.prems(1-5,11) by (simp_all add: md1'_def segment_ok_def same_but_segment_def same_data_def)
  have "fl ! s = md_migration md ! s" if "s \<in> set ts" for s
    using Cons.prems(6) that unfolding fl_def by (intro nth_list_update_neq) auto
  then have fl': "length (md_migration md1') = 8" "\<forall>t \<in> set ts. md_migration md1' ! t"
    using Cons.prems(8,9) by (simp_all add: md1'_def) (simp add: fl_def)
  have mv: "all_movable (seg_hash md1' i) nvm1"
    using migrated_movable [OF p(2) Cons.prems(3)] by (simp add: md1'_def)
  have ts: "distinct ts" "set ts \<subseteq> {..<8}" "i < length c1" using Cons.prems by (auto simp: c1_def)
  obtain md' nvm' ssd' where IH: "migrate_passes env ts ((md1', nvm1, ssd1), c1) =
      Some ((md'\<lparr>md_migration := clear_flags ts (md_migration md1')\<rparr>, nvm', ssd'), c1[i := c1 ! i + int (length ts)])"
      "migrated blk i (lanes ts n) (md1', nvm1, ssd1) (md', nvm', ssd')"
    using Cons.IH [OF ok(1) l mv ok(2,3) ts(1,2) fl' ts(3) n, of ssd1] by blast
  define md2 where "md2 = md'\<lparr>md_migration := md_migration md\<rparr>"
  have md1: "md1'\<lparr>md_migration := md_migration md\<rparr> = md1"
    using p2 by (simp add: md1'_def same_but_segment_def)
  have "migrated blk i (lanes ts n) (md1, nvm1, ssd1) (md2, nvm', ssd')"
    using migrated_flags [OF IH(2), of "md_migration md"] unfolding md1 md2_def .
  then have "migrated blk i (lane t n @ lanes ts n) (md, nvm, ssd) (md2, nvm', ssd')"
    using p(2) Cons.prems(3,6,7,11)
    by (intro migrated_trans) (auto simp: set_lanes dest: lane_mod)
  moreover have "migrate_passes env (t # ts) ((md, nvm, ssd), c) =
      Some ((md2\<lparr>md_migration := clear_flags (t # ts) (md_migration md)\<rparr>, nvm', ssd'), c[i := c ! i + int (length (t # ts))])"
    using p(1) IH(1) Cons.prems(10)
    by (simp add: md2_def c1_def md1'_def fl_def clear_flags_def add.assoc)
  ultimately show ?case unfolding lanes_simps by blast
qed

section \<open>A whole segment\<close>

lemma all_movable_stack:
  "hash_ok h \<Longrightarrow> all_movable h nvm \<longleftrightarrow> (\<forall>k. \<forall>v \<in> set (hash_stack h k). movable nvm (k, v))"
  using bucket_stack key_bucket_less unfolding all_movable_def by fast

lemma ucast_key_inj: "(ucast (a :: u32) :: u64) = ucast b \<longleftrightarrow> a = b"
  by (metis unat_ucast_up word_unat_eq_iff)

lemma fold_move_other:
  "(\<And>e. e \<in> set es \<Longrightarrow> ucast (fst e) \<noteq> x) \<Longrightarrow> fold (move_entry nvm) es d x = d x"
  by (induction es arbitrary: d) (auto simp: move_entry_def)

lemma fold_move_entry:
  assumes "(k, v) \<in> set es" "\<And>v'. (k, v') \<in> set es \<Longrightarrow> v' = v"
  shows "fold (move_entry nvm) es d (ucast k) = the (buffer_data nvm (unat v))"
proof -
  obtain pre post where es: "es = pre @ (k, v) # post" "(k, v) \<notin> set post"
    using split_list_last [OF assms(1)] by blast
  then have "ucast (fst e) \<noteq> (ucast k :: u64)" if "e \<in> set post" for e
    using that assms(2) [of "snd e"] by (cases e) (auto simp: ucast_key_inj)
  then show ?thesis unfolding es(1) by (simp add: fold_move_other move_entry_def)
qed

lemma set_flags_all: "n \<le> length flags \<Longrightarrow> set_flags n flags = Some (replicate n True @ drop n flags)"
proof (induction n)
  case (Suc n)
  have "(replicate n True @ drop n flags)[n := True] = replicate (Suc n) True @ drop (Suc n) flags"
    using Suc.prems by (simp add: list_update_append replicate_app_Cons_same flip: Cons_nth_drop_Suc)
  then show ?case using Suc by simp
qed simp

lemma mix_bitmap_clear_hint: "mix_bitmap_clear b = Some b' \<Longrightarrow> bm_next_bit b' = 0"
  by (auto simp: mix_bitmap_clear_def bind_eq_Some_conv)

lemma migration_begin:
  assumes "threads_ok md" "i < length c"
  shows "mix_segment_migration_begin md c (int i) =
    Some (md\<lparr>md_migrate_segment_idx := int i, md_migration := replicate 8 True\<rparr>, c[i := 0])"
  using assms set_flags_all [of 8 "md_migration md"] by (simp add: mix_segment_migration_begin_def threads_ok_def)

text \<open>The segment is empty: no entry, no block in use, all nodes of the index free.\<close>

definition segment_empty :: "metadata \<Rightarrow> nat \<Rightarrow> bool" where
  "segment_empty md i \<longleftrightarrow> hash_count (seg_hash md i) = 0 \<and> hash_stack (seg_hash md i) = (\<lambda>_. []) \<and>
     (\<forall>k < unat (md_per_block_num md). \<not> bit_at (seg_bitmap md i) k) \<and> bm_next_bit (seg_bitmap md i) = 0"

lemma migration_end:
  assumes ok: "segment_ok md i" "i < length c" and c: "c ! i = uint (md_migrate_thread_num md)"
  obtains b where "mix_segment_migration_end md c (int i) =
      Some (md\<lparr>md_segments := (md_segments md)[i := (md_segments md ! i)\<lparr>sg_bitmap := b\<rparr>]\<rparr>, c[i := 0])"
    "bitmap_ok b" "bm_bits b = unat (md_per_block_num md)" "bm_next_bit b = 0"
    "\<And>k. k < unat (md_per_block_num md) \<Longrightarrow> \<not> bit_at b k"
proof -
  have b: "bitmap_ok (seg_bitmap md i)" "bm_bits (seg_bitmap md i) = unat (md_per_block_num md)" "i < length (md_segments md)"
    using ok(1) by (simp_all add: segment_ok_def)
  obtain b' where b': "mix_bitmap_clear (seg_bitmap md i) = Some b'" "bitmap_ok b'"
      "bm_bits b' = bm_bits (seg_bitmap md i)"
      "\<And>k. k < bm_alloc (seg_bitmap md i) \<Longrightarrow> bit_at b' k \<longleftrightarrow> bm_bits (seg_bitmap md i) \<le> k \<and> bit_at (seg_bitmap md i) k"
    by (rule mix_bitmap_clear_eq [OF b(1)]) blast
  have "bm_bits (seg_bitmap md i) \<le> bm_alloc (seg_bitmap md i)" using b(1) by (simp add: bitmap_ok_def)
  then have "\<not> bit_at b' k" if "k < unat (md_per_block_num md)" for k using b'(4) b(2) that by simp
  moreover have "mix_segment_migration_end md c (int i) =
      Some (md\<lparr>md_segments := (md_segments md)[i := (md_segments md ! i)\<lparr>sg_bitmap := b'\<rparr>]\<rparr>, c[i := 0])"
    using b' b(3) ok(2) c by (simp add: mix_segment_migration_end_def upd_segment_int)
  ultimately show thesis using that b' b(2) mix_bitmap_clear_hint [OF b'(1)] by simp
qed

lemma migrated_all:
  assumes "migrated blk i js (md, nvm, ssd) (md', nvm', ssd')" "hash_ok (seg_hash md i)"
    "distinct js" "set js = {..<length (mh_nodes (seg_hash md i))}"
  shows "hash_stack (seg_hash md' i) = (\<lambda>_. [])" "hash_count (seg_hash md' i) = 0"
    "hash_room (seg_hash md' i) = hash_room (seg_hash md i) + hash_count (seg_hash md i)"
    "sg_used_block_num (md_segments md' ! i) = sg_used_block_num (md_segments md ! i) - int (hash_count (seg_hash md i))"
proof -
  note m = assms(1) [unfolded migrated_def case_prod_conv entries_length [OF assms(3,4)]]
  have empty: "bucket (seg_hash md' i) j = []" if "j < length (mh_nodes (seg_hash md' i))" for j
    using m assms(4) that by auto
  have "hash_ok (seg_hash md' i)" using m by (simp add: segment_ok_def)
  then show "hash_stack (seg_hash md' i) = (\<lambda>_. [])"
    using empty key_bucket_less by (simp add: hash_stack_def fun_eq_iff)
  show "hash_count (seg_hash md' i) = 0" using empty by (simp add: hash_count_def entries_of_def)
qed (use assms(1) in \<open>simp_all add: migrated_def entries_length [OF assms(3,4)]\<close>)

text \<open>The content of the SSD after the entries of an index were moved.\<close>

lemma moved_disk:
  assumes "hash_ok h" "set js = {..<length (mh_nodes h)}" "\<And>k. length (hash_stack h k) \<le> 1"
  shows "fold (move_entry nvm) (entries_of h js) d (ucast k) =
    (case hash_stack h k of [] \<Rightarrow> d (ucast k) | v # _ \<Rightarrow> the (buffer_data nvm (unat v)))"
proof (cases "hash_stack h k")
  case Nil
  have "ucast (fst e) \<noteq> (ucast k :: u64)" if "e \<in> set (entries_of h js)" for e
    using that Nil entries_stack [OF assms(1,2), of "fst e" "snd e"] by (auto simp: ucast_key_inj)
  then show ?thesis using Nil fold_move_other by simp
next
  case (Cons v vs)
  then have "vs = []" using assms(3) [of k] by simp
  then have "(k, v) \<in> set (entries_of h js)" "\<And>v'. (k, v') \<in> set (entries_of h js) \<Longrightarrow> v' = v"
    using Cons entries_stack [OF assms(1,2), of k] by simp_all
  from fold_move_entry [OF this] show ?thesis using Cons by simp
qed

lemma moved_disk_above: "2 ^ 32 \<le> unat off \<Longrightarrow> fold (move_entry nvm) es d off = d off"
proof (rule fold_move_other)
  fix e :: "u32 \<times> u32"
  assume "2 ^ 32 \<le> unat off"
  moreover have "unat (ucast (fst e) :: u64) < 2 ^ 32" using unsigned_less [of "fst e"] by (simp add: unat_ucast_up)
  ultimately show "ucast (fst e) \<noteq> off" by auto
qed

lemma lanes_all:
  assumes "distinct ts" "set ts = {..<8}"
  shows "distinct (lanes ts n)" "set (lanes ts n) = {..<n}" "length ts = 8"
  using assms distinct_lanes [of ts n] set_lanes [of ts _ n] distinct_card [of ts] by auto

lemma migrate_all_passes:
  assumes env: "pmem_copies (env_cpy env)" "ssd_stores env blk"
    and ok: "segment_ok md i" "layout_ok nvm" "all_movable (seg_hash md i) nvm" "threads_ok md"
    and ts: "distinct ts" "set ts = {..<8}" and i: "i < length c"
    and md1: "md1 = md\<lparr>md_migrate_segment_idx := int i, md_migration := replicate 8 True\<rparr>"
    and js: "js = lanes ts (length (mh_nodes (seg_hash md i)))"
  obtains md2 nvm' ssd' where
    "migrate_passes env ts ((md1, nvm, ssd), c[i := 0]) = Some ((md2, nvm', ssd'), c[i := 8])"
    "segment_ok md2 i" "hash_stack (seg_hash md2 i) = (\<lambda>_. [])" "hash_count (seg_hash md2 i) = 0"
    "threads_ok md2" "same_other_segments i md md2" "same_data nvm nvm'"
    "hash_room (seg_hash md2 i) = hash_room (seg_hash md i) + hash_count (seg_hash md i)"
    "sg_used_block_num (md_segments md2 ! i) = sg_used_block_num (md_segments md ! i) - int (hash_count (seg_hash md i))"
    "blk ssd' = fold (move_entry nvm) (entries_of (seg_hash md i) js) (blk ssd)"
proof -
  have "segment_ok md1 i" "all_movable (seg_hash md1 i) nvm" "md_migrate_thread_num md1 = 8"
      "md_migrate_segment_idx md1 = int i" "length (md_migration md1) = 8"
    and fl: "\<forall>t \<in> set ts. md_migration md1 ! t" and h1: "md_hash md1 = md_hash md" "md_segments md1 = md_segments md"
      "md_per_block_num md1 = md_per_block_num md"
    using ok ts(2) by (auto simp: md1 segment_ok_def threads_ok_def)
  moreover have "i < length (c[i := 0])" "set ts \<subseteq> {..<8}" using i ts(2) by simp_all
  ultimately obtain md3 nvm' ssd' where p: "migrate_passes env ts ((md1, nvm, ssd), c[i := 0]) =
      Some ((md3\<lparr>md_migration := clear_flags ts (md_migration md1)\<rparr>, nvm', ssd'), c[i := 8])"
      "migrated blk i js (md1, nvm, ssd) (md3, nvm', ssd')"
    using migrate_passes_lanes [OF env refl, of md1 i nvm ts "c[i := 0]" ssd] ok(2) ts i
    by (auto simp: h1 js lanes_all(3))
  have h: "hash_ok (seg_hash md1 i)" using ok(1) h1 by (simp add: segment_ok_def)
  have all: "distinct js" "set js = {..<length (mh_nodes (seg_hash md1 i))}"
    using lanes_all [OF ts] h1 by (simp_all add: js)
  note m = migrated_all [OF p(2) h all, unfolded h1] and m2 = p(2) [unfolded migrated_def case_prod_conv h1]
  let ?md2 = "md3\<lparr>md_migration := clear_flags ts (md_migration md1)\<rparr>"
  have "segment_ok ?md2 i" using m2 by (simp add: segment_ok_def)
  moreover have "threads_ok ?md2" "same_other_segments i md ?md2"
    using m2 ok(4) h1 by (simp_all add: threads_ok_def same_but_segment_def md1 same_other_segments_def)
  ultimately show thesis using that [OF p(1)] m m2 by simp
qed

end
