(* ===== verification/Nvm_Worker.thy ===== *)
theory Nvm_Worker
  imports Mix_Migrate
begin

text \<open>
  The workers in front of the persistent memory, \<open>src/src/nvm_worker.cpp\<close>: the four worker threads, each
  with a queue of requests to the NVM area and a queue of requests to the write buffer, and the
  functions that post requests to them.

  A queue is the list of its tasks, oldest first, with the bound it was created with; that the ring
  buffer of \<open>mix_queue.c\<close> is such a queue is shown in \<open>Mix_Queue\<close>. A task names its request by the
  slot it has in the arrays \<open>tasks\<close> and \<open>inflight_buffer\<close> of \<open>src/src/mixdk.c\<close>, and carries the memory
  its pointer \<open>buf\<close> points to. A subtask also names, by its slot, the task its pointer \<open>original_task\<close>
  points to; in the tasks of \<open>mixdk.c\<close> it is null. The fields \<open>read_buffer\<close> and \<open>read_index\<close> of a task are
  only looked at through that pointer, so the state keeps them for the tasks of \<open>mixdk.c\<close>:
  \<open>sys_read_ptrs\<close> says for every slot whether they are set, which they only are to the arrays of
  \<open>ssd_worker.c\<close>.
\<close>

section \<open>Tasks and state\<close>

definition NVM_TASK :: u8 where "NVM_TASK = 1"
definition SSD_TASK :: u8 where "SSD_TASK = 2"
definition MIX_READ :: u64 where "MIX_READ = 1"
definition MIX_WRITE :: u64 where "MIX_WRITE = 4"
definition MIX_CLEAR :: u64 where "MIX_CLEAR = 64"
definition SSD_BLOCK_SIZE :: u64 where "SSD_BLOCK_SIZE = 4096"
definition NVM_QUEUE_NUM :: nat where "NVM_QUEUE_NUM = 4"
definition stripe_size :: u64 where "stripe_size = 4"
definition small_threshold :: u64 where "small_threshold = 1"

record io_task =
  task_buf :: "u8 list"
  task_len :: u64
  task_offset :: u64
  task_inflight :: nat
  task_opcode :: u64
  task_type :: u8
  task_queue_idx :: u8
  task_original :: "nat option"

text \<open>The static data of \<open>nvm_worker.cpp\<close>, of \<open>mixdk.c\<close> (\<open>inflight_buffer\<close>; \<open>sys_out\<close> is the memory of
  the callers that reads fill) and of \<open>ssd_worker.c\<close> (\<open>read_buffer\<close> and \<open>read_index\<close>, as bytes), and
  the counter \<open>seq\<close> of every worker.\<close>

record 's system =
  sys_meta :: metadata
  sys_nvm :: nvm_state
  sys_ssd :: 's
  sys_completed :: "int list"
  sys_nvm_queue :: "io_task list list"
  sys_buffer_queue :: "io_task list list"
  sys_queue_size :: nat
  sys_seq :: "u8 list"
  sys_inflight :: "int list"
  sys_out :: "u8 list list"
  sys_read_ptrs :: "(bool \<times> bool) list"
  sys_read_buffer :: "u8 list"
  sys_read_index :: "u8 list"

definition fetch_sub :: "'s system \<Rightarrow> nat \<Rightarrow> int \<Rightarrow> 's system option" where
  "fetch_sub sys slot n = do {
     c \<leftarrow> arr_get (sys_inflight sys) (int slot);
     cs \<leftarrow> arr_set (sys_inflight sys) (int slot) (c - n);
     Some (sys\<lparr>sys_inflight := cs\<rparr>)
   }"

section \<open>Migration, reads and writes of the buffer\<close>

text \<open>\<open>mix_migrate_segment\<close> while the threads make their passes in the order \<open>ts\<close>; the lock
  \<open>migrate_mutex\<close> keeps other migrations out.\<close>

definition mix_migrate_segment ::
    "'s environment \<Rightarrow> nat list \<Rightarrow> int \<Rightarrow> (metadata \<times> nvm_state \<times> 's) \<times> int list \<Rightarrow>
       ((metadata \<times> nvm_state \<times> 's) \<times> int list) option" where
  "mix_migrate_segment env ts idx = (\<lambda>((md, nvm, ssd), completed). do {
     (md, completed) \<leftarrow> mix_segment_migration_begin md completed idx;
     ((md, nvm, ssd), completed) \<leftarrow> migrate_passes env ts ((md, nvm, ssd), completed);
     (md, completed) \<leftarrow> mix_segment_migration_end md completed idx;
     Some ((md, nvm, ssd), completed)
   })"

text \<open>The block of a write: where the address is, or a free block, after a migration if need be.\<close>

definition redirect_block ::
    "'s environment \<Rightarrow> nat list \<Rightarrow> u32 \<Rightarrow> int \<Rightarrow> (metadata \<times> nvm_state \<times> 's) \<times> int list \<Rightarrow>
       (((metadata \<times> nvm_state \<times> 's) \<times> int list) \<times> int) option" where
  "redirect_block env ts key idx = (\<lambda>((md, nvm, ssd), completed). do {
     offset \<leftarrow> mix_buffer_block_test md key idx;
     if offset \<noteq> -1 then Some (((md, nvm, ssd), completed), offset)
     else do {
       (md, offset) \<leftarrow> mix_get_next_free_block md idx;
       (((md, nvm, ssd), completed), offset) \<leftarrow>
         (if offset \<noteq> -1 then Some (((md, nvm, ssd), completed), offset)
          else do {
            ((md, nvm, ssd), completed) \<leftarrow> mix_migrate_segment env ts idx ((md, nvm, ssd), completed);
            (md, offset) \<leftarrow> mix_get_next_free_block md idx;
            Some (((md, nvm, ssd), completed), offset)
          });
       (md, _) \<leftarrow> mix_write_redirect_blockmeta md idx key offset;
       Some (((md, nvm, ssd), completed), offset)
     }
   })"

definition redirect_write ::
    "'s environment \<Rightarrow> nat list \<Rightarrow> io_task \<Rightarrow> int \<Rightarrow> (metadata \<times> nvm_state \<times> 's) \<times> int list \<Rightarrow>
       (((metadata \<times> nvm_state \<times> 's) \<times> int list) \<times> int) option" where
  "redirect_write env ts task idx st = do {
     (((md, nvm, ssd), completed), offset) \<leftarrow> redirect_block env ts (ucast (task_offset task)) idx st;
     nvm \<leftarrow> mix_buffer_write (env_cpy env) nvm (task_buf task) (task_offset task)
             (segment_block md idx offset) (task_opcode task);
     Some (((md, nvm, ssd), completed), sint (ucast (task_len task) :: u32))
   }"

text \<open>\<open>redirect_read\<close>: the result of the comparison is stored in \<open>offset\<close>, so the block that is read is
  always \<open>idx * per_block_num + 1\<close>; \<open>num\<close> is never increased. \<open>read_buffer\<close> is declared as
  \<open>char***\<close> and \<open>read_index\<close> as \<open>int**\<close>: adding \<open>idx * 512\<close> skips as many pointers.\<close>

fun redirect_read_loop ::
    "nat \<Rightarrow> nat \<Rightarrow> metadata \<Rightarrow> nvm_state \<Rightarrow> u64 \<Rightarrow> nat \<Rightarrow> u8 list \<times> u8 list \<Rightarrow> (u8 list \<times> u8 list) option" where
  "redirect_read_loop 0 i md nvm offset idx (rb, ri) = Some (rb, ri)"
| "redirect_read_loop (Suc n) i md nvm offset idx (rb, ri) = do {
     t \<leftarrow> mix_buffer_block_test md (ucast (offset + of_nat i * SSD_BLOCK_SIZE)) (int idx);
     if t \<noteq> -1
     then do {
       bytes \<leftarrow> mix_buffer_read nvm (segment_block md (int idx) 1);
       rb \<leftarrow> mem_write rb (idx * 512 * 8) bytes;
       ri \<leftarrow> mem_write ri (idx * 512 * 8) (le_bytes 4 (ucast (offset + of_nat i * BUFFER_QUEUE_NUM) :: u32));
       redirect_read_loop n (Suc i) md nvm offset idx (rb, ri)
     }
     else redirect_read_loop n (Suc i) md nvm offset idx (rb, ri)
   }"

text \<open>The worker waits until both pointers of the original task are set. \<open>None\<close> stands for a null pointer
  \<open>original_task\<close>, for this wait when one of them is null, and for a store outside of an array. No public
  function posts a task that leads here: in \<open>mix_post_task_to_data\<close> the line that posts the subtasks of a
  read is commented out.\<close>

definition redirect_read :: "io_task \<Rightarrow> nat \<Rightarrow> 's system \<Rightarrow> 's system option" where
  "redirect_read task idx sys = do {
     original \<leftarrow> task_original task;
     (read_buffer, read_index) \<leftarrow> arr_get (sys_read_ptrs sys) (int original);
     if \<not> read_buffer \<or> \<not> read_index then None
     else do {
       (rb, ri) \<leftarrow> redirect_read_loop (unat (task_len task)) 0 (sys_meta sys) (sys_nvm sys) (task_offset task) idx
                     (sys_read_buffer sys, sys_read_index sys);
       fetch_sub (sys\<lparr>sys_read_buffer := rb, sys_read_index := ri\<rparr>) original (uint (task_len task))
     }
   }"

section \<open>The worker\<close>

text \<open>What the worker \<open>idx\<close> does with a task it took from a queue.\<close>

definition nvm_worker_task :: "'s environment \<Rightarrow> nat list \<Rightarrow> nat \<Rightarrow> io_task \<Rightarrow> 's system \<Rightarrow> 's system option" where
  "nvm_worker_task env ts idx task sys =
     (let op_code = task_opcode task AND (MIX_READ OR MIX_WRITE OR MIX_CLEAR)
      in if task_type task = NVM_TASK then
           if op_code = MIX_READ then do {
             (bytes, ret) \<leftarrow> mix_nvm_read (sys_nvm sys) (task_len task) (task_offset task);
             out \<leftarrow> arr_set (sys_out sys) (int (task_inflight task)) bytes;
             fetch_sub (sys\<lparr>sys_out := out\<rparr>) (task_inflight task) (sint (ucast ret :: u32))
           }
           else if op_code = MIX_WRITE then do {
             (nvm, ret) \<leftarrow> mix_nvm_write (env_cpy env) (sys_nvm sys) (task_buf task) (task_len task) (task_offset task);
             fetch_sub (sys\<lparr>sys_nvm := nvm\<rparr>) (task_inflight task) (sint (ucast ret :: u32))
           }
           else Some sys
         else if task_type task = SSD_TASK then
           if op_code = MIX_CLEAR then do {
             (md, nvm) \<leftarrow> mix_clear_block env (task_len task) (task_offset task) (int idx) (sys_meta sys, sys_nvm sys);
             Some (sys\<lparr>sys_meta := md, sys_nvm := nvm\<rparr>)
           }
           else if op_code = MIX_READ then redirect_read task idx sys
           else if op_code = MIX_WRITE then do {
             (((md, nvm, ssd), completed), ret) \<leftarrow>
               redirect_write env ts task (int idx) ((sys_meta sys, sys_nvm sys, sys_ssd sys), sys_completed sys);
             fetch_sub (sys\<lparr>sys_meta := md, sys_nvm := nvm, sys_ssd := ssd, sys_completed := completed\<rparr>)
               (task_inflight task) ret
           }
           else Some sys
         else Some sys)"

text \<open>Taking the oldest task of a queue.\<close>

fun take_task :: "io_task list list \<Rightarrow> nat \<Rightarrow> (io_task \<times> io_task list list) option" where
  "take_task qs idx = (case qs ! idx of [] \<Rightarrow> None | t # q \<Rightarrow> Some (t, qs[idx := q]))"

definition get_task_from_nvm_queue :: "'s system \<Rightarrow> nat \<Rightarrow> (io_task \<times> 's system) option" where
  "get_task_from_nvm_queue sys idx =
     map_option (\<lambda>(t, qs). (t, sys\<lparr>sys_nvm_queue := qs\<rparr>)) (take_task (sys_nvm_queue sys) idx)"

definition get_task_from_buffer_queue :: "'s system \<Rightarrow> nat \<Rightarrow> (io_task \<times> 's system) option" where
  "get_task_from_buffer_queue sys idx =
     map_option (\<lambda>(t, qs). (t, sys\<lparr>sys_buffer_queue := qs\<rparr>)) (take_task (sys_buffer_queue sys) idx)"

text \<open>One iteration of the loop of worker \<open>idx\<close>: the queues take turns.\<close>

definition nvm_worker_poll :: "'s environment \<Rightarrow> nat list \<Rightarrow> nat \<Rightarrow> 's system \<Rightarrow> 's system option" where
  "nvm_worker_poll env ts idx sys =
     (let seq = sys_seq sys ! idx;
          taken = (if seq AND 1 \<noteq> 0 then get_task_from_nvm_queue sys idx
                   else get_task_from_buffer_queue sys idx)
      in case taken of
           None \<Rightarrow> Some (sys\<lparr>sys_seq := (sys_seq sys)[idx := seq + 1]\<rparr>)
         | Some (task, sys) \<Rightarrow>
             nvm_worker_task env ts idx task (sys\<lparr>sys_seq := (sys_seq sys)[idx := seq + 1]\<rparr>))"

section \<open>Posting tasks\<close>

text \<open>\<open>mix_enqueue\<close> of one task on queue \<open>idx\<close>; the flag says whether there was room.\<close>

definition put_task :: "nat \<Rightarrow> io_task list list \<Rightarrow> nat \<Rightarrow> io_task \<Rightarrow> io_task list list \<times> bool" where
  "put_task cap qs idx task = (if length (qs ! idx) < cap then (qs[idx := qs ! idx @ [task]], True) else (qs, False))"

text \<open>\<open>mix_wait_for_task_completed\<close>: the caller spins until its counter is down to 0, while the workers
  poll in the order given by the schedule; \<open>None\<close> when it still waits at the end of the schedule.\<close>

fun mix_wait_for_task_completed ::
    "'s environment \<Rightarrow> nat list \<Rightarrow> nat list \<Rightarrow> nat \<Rightarrow> 's system \<Rightarrow> 's system option" where
  "mix_wait_for_task_completed env ts [] slot sys =
     (if 0 < sys_inflight sys ! slot then None else Some sys)"
| "mix_wait_for_task_completed env ts (w # ws) slot sys =
     (if 0 < sys_inflight sys ! slot
      then nvm_worker_poll env ts w sys \<bind> mix_wait_for_task_completed env ts ws slot
      else Some sys)"

text \<open>\<open>mix_post_task_to_metadata\<close> ignores whether the queue took the task.\<close>

definition mix_post_task_to_metadata ::
    "'s environment \<Rightarrow> nat list \<Rightarrow> nat list \<Rightarrow> io_task \<Rightarrow> 's system \<Rightarrow> 's system option" where
  "mix_post_task_to_metadata env ts ws task sys =
     (let idx = unat (task_offset task AND (of_nat NVM_QUEUE_NUM - 1));
          (qs, _) = put_task (sys_queue_size sys) (sys_nvm_queue sys) idx task
      in mix_wait_for_task_completed env ts ws (task_inflight task) (sys\<lparr>sys_nvm_queue := qs\<rparr>))"

text \<open>The subtasks of \<open>mix_post_task_to_buffer\<close> with their queues, \<open>i\<close> of them being posted; the integers
  are computed in \<open>int\<close>. \<open>junk\<close> is the uninitialised \<open>post_task\<close>.\<close>

fun stripe_tasks :: "io_task \<Rightarrow> io_task \<Rightarrow> int \<Rightarrow> int \<Rightarrow> nat \<Rightarrow> int \<Rightarrow> nat \<Rightarrow> (nat \<times> io_task) list" where
  "stripe_tasks junk task offset end0 i idx 0 = []"
| "stripe_tasks junk task offset end0 i idx (Suc n) =
     (let len = (end0 - offset) sdiv 4;
          post_len = word_of_int (len + (if int i < (end0 - offset) AND 3 then 1 else 0)) :: u64
      in if post_len = 0 then []
         else (nat idx, junk\<lparr>task_inflight := task_inflight task, task_opcode := task_opcode task,
                task_type := task_type task, task_offset := word_of_int (offset + int i), task_len := post_len,
                task_original := Some (task_inflight task)\<rparr>)
              # stripe_tasks junk task offset end0 (Suc i) ((idx + 1) AND 3) n)"

definition mix_post_task_to_buffer_tasks :: "io_task \<Rightarrow> io_task \<Rightarrow> (nat \<times> io_task) list" where
  "mix_post_task_to_buffer_tasks junk task =
     (let offset = sint (ucast (task_offset task) :: u32);
          end0 = sint (ucast (task_offset task + task_len task) :: u32);
          idx = uint ((task_offset task div stripe_size) mod BUFFER_QUEUE_NUM)
      in stripe_tasks junk task offset end0 0 idx 4)"

fun post_subtasks :: "nat \<Rightarrow> (nat \<times> io_task) list \<Rightarrow> io_task list list \<Rightarrow> io_task list list option" where
  "post_subtasks cap [] qs = Some qs"
| "post_subtasks cap ((idx, t) # ps) qs =
     (case put_task cap qs idx t of (qs', posted) \<Rightarrow> if posted then post_subtasks cap ps qs' else None)"

definition mix_post_task_to_buffer :: "io_task \<Rightarrow> io_task \<Rightarrow> 's system \<Rightarrow> 's system option" where
  "mix_post_task_to_buffer junk task sys =
     map_option (\<lambda>qs. sys\<lparr>sys_buffer_queue := qs\<rparr>)
       (post_subtasks (sys_queue_size sys) (mix_post_task_to_buffer_tasks junk task) (sys_buffer_queue sys))"

definition mix_post_small_task_to_buffer ::
    "'s environment \<Rightarrow> nat list \<Rightarrow> nat list \<Rightarrow> io_task \<Rightarrow> 's system \<Rightarrow> 's system option" where
  "mix_post_small_task_to_buffer env ts ws task sys =
     (let idx = unat (task_offset task AND 3);
          (qs, posted) = put_task (sys_queue_size sys) (sys_buffer_queue sys) idx task
      in if posted then mix_wait_for_task_completed env ts ws (task_inflight task) (sys\<lparr>sys_buffer_queue := qs\<rparr>)
         else None)"


section \<open>Migrating a segment\<close>

lemma migrate_segment_spec:
  assumes env: "pmem_copies (env_cpy env)" "ssd_stores env blk"
    and ok: "segment_ok md i" "layout_ok nvm" "all_movable (seg_hash md i) nvm" "threads_ok md"
    and ts: "distinct ts" "set ts = {..<8}" and i: "i < length c"
    and js: "js = lanes ts (length (mh_nodes (seg_hash md i)))"
  obtains md' nvm' ssd' where
    "mix_migrate_segment env ts (int i) ((md, nvm, ssd), c) = Some ((md', nvm', ssd'), c[i := 0])"
    "segment_ok md' i" "segment_empty md' i" "threads_ok md'" "same_other_segments i md md'" "same_data nvm nvm'"
    "hash_room (seg_hash md' i) = hash_room (seg_hash md i) + hash_count (seg_hash md i)"
    "sg_used_block_num (md_segments md' ! i) = sg_used_block_num (md_segments md ! i) - int (hash_count (seg_hash md i))"
    "blk ssd' = fold (move_entry nvm) (entries_of (seg_hash md i) js) (blk ssd)"
proof -
  define md1 where "md1 = md\<lparr>md_migrate_segment_idx := int i, md_migration := replicate 8 True\<rparr>"
  obtain md2 nvm' ssd' where p:
    "migrate_passes env ts ((md1, nvm, ssd), c[i := 0]) = Some ((md2, nvm', ssd'), c[i := 8])"
    "segment_ok md2 i" "hash_stack (seg_hash md2 i) = (\<lambda>_. [])" "hash_count (seg_hash md2 i) = 0"
    "threads_ok md2" "same_other_segments i md md2" "same_data nvm nvm'"
    "hash_room (seg_hash md2 i) = hash_room (seg_hash md i) + hash_count (seg_hash md i)"
    "sg_used_block_num (md_segments md2 ! i) = sg_used_block_num (md_segments md ! i) - int (hash_count (seg_hash md i))"
    "blk ssd' = fold (move_entry nvm) (entries_of (seg_hash md i) js) (blk ssd)"
    by (rule migrate_all_passes [OF env ok ts i md1_def js]) blast
  have "i < length (c[i := 8])" "c[i := 8] ! i = uint (md_migrate_thread_num md2)"
    using i p(5) by (simp_all add: threads_ok_def)
  from migration_end [OF p(2) this] obtain b where
    e: "mix_segment_migration_end md2 (c[i := 8]) (int i) =
      Some (md2\<lparr>md_segments := (md_segments md2)[i := (md_segments md2 ! i)\<lparr>sg_bitmap := b\<rparr>]\<rparr>, c[i := 0])"
    "bitmap_ok b" "bm_bits b = unat (md_per_block_num md2)" "bm_next_bit b = 0"
    "\<And>k. k < unat (md_per_block_num md2) \<Longrightarrow> \<not> bit_at b k" by (metis list_update_overwrite)
  define md' where "md' = md2\<lparr>md_segments := (md_segments md2)[i := (md_segments md2 ! i)\<lparr>sg_bitmap := b\<rparr>]\<rparr>"
  have run: "mix_migrate_segment env ts (int i) ((md, nvm, ssd), c) = Some ((md', nvm', ssd'), c[i := 0])"
    using migration_begin [OF ok(4) i] p(1) e(1) by (simp add: mix_migrate_segment_def md'_def flip: md1_def)
  have i2: "i < length (md_segments md2)" using p(2) by (simp add: segment_ok_def)
  have "segment_ok md' i" using p(2) e(2,3) by (simp add: md'_def segment_ok_def)
  moreover have "segment_empty md' i" using p(3,4) e(3-5) i2 by (simp add: md'_def segment_empty_def)
  moreover have "threads_ok md'" "same_other_segments i md md'"
    using p(5,6) i2 by (simp_all add: md'_def threads_ok_def same_other_segments_def)
  ultimately show thesis using that [OF run] p(7-10) i2 by (simp add: md'_def)
qed

text \<open>The segment of the invariant \<open>filled\<close>: afterwards it is empty, and the SSD block of every address
  that was indexed holds the buffer block with the number of the index entry.\<close>

lemma filled_movable:
  assumes "filled md i n" "hash_stack (seg_hash md i) (-1) = []" "unat (md_per_block_num md) \<le> buffer_blocks nvm"
  shows "all_movable (seg_hash md i) nvm"
proof -
  have "hash_ok (seg_hash md i)" "n \<le> unat (md_per_block_num md)" "unat (md_per_block_num md) < 2 ^ 29"
    using assms(1) by (simp_all add: filled_def segment_ok_def)
  moreover have "movable nvm (k, v)" if v: "v \<in> set (hash_stack (seg_hash md i) k)" for k v
  proof -
    have "unat v < n" "k \<noteq> -1" using v assms(1,2) by (auto simp: filled_def)
    moreover have "v \<noteq> -1"
    proof
      assume "v = -1"
      then have "unat v = 2 ^ 32 - 1" by (simp add: unsigned_minus_1_eq_mask mask_eq_exp_minus_1)
      then show False using \<open>unat v < n\<close> \<open>n \<le> _\<close> \<open>_ < 2 ^ 29\<close> by simp
    qed
    ultimately show ?thesis using \<open>n \<le> _\<close> assms(3) by (simp add: movable_def)
  qed
  ultimately show ?thesis by (simp add: all_movable_stack)
qed

lemma migrate_filled:
  assumes env: "pmem_copies (env_cpy env)" "ssd_stores env blk"
    and f: "filled md i n" "hash_stack (seg_hash md i) (-1) = []" and ok: "layout_ok nvm" "threads_ok md"
    and fit: "unat (md_per_block_num md) \<le> buffer_blocks nvm" and ts: "distinct ts" "set ts = {..<8}" and i: "i < length c"
  obtains md' nvm' ssd' where
    "mix_migrate_segment env ts (int i) ((md, nvm, ssd), c) = Some ((md', nvm', ssd'), c[i := 0])"
    "filled md' i 0" "threads_ok md'" "same_other_segments i md md'" "same_data nvm nvm'"
    "\<And>k. blk ssd' (ucast k) = (case hash_stack (seg_hash md i) k of [] \<Rightarrow> blk ssd (ucast k)
       | v # _ \<Rightarrow> the (buffer_data nvm (unat v)))"
    "\<And>off. 2 ^ 32 \<le> unat off \<Longrightarrow> blk ssd' off = blk ssd off"
proof -
  define js where "js = lanes ts (length (mh_nodes (seg_hash md i)))"
  have s: "segment_ok md i" and h: "hash_ok (seg_hash md i)" and one: "\<And>k. length (hash_stack (seg_hash md i) k) \<le> 1"
    and room: "hash_room (seg_hash md i) + n = unat (md_per_block_num md)" "hash_count (seg_hash md i) = n"
      "sg_used_block_num (md_segments md ! i) = int n"
    using f(1) by (simp_all add: filled_def segment_ok_def)
  obtain md' nvm' ssd' where m:
    "mix_migrate_segment env ts (int i) ((md, nvm, ssd), c) = Some ((md', nvm', ssd'), c[i := 0])"
    "segment_ok md' i" "segment_empty md' i" "threads_ok md'" "same_other_segments i md md'" "same_data nvm nvm'"
    "hash_room (seg_hash md' i) = hash_room (seg_hash md i) + hash_count (seg_hash md i)"
    "sg_used_block_num (md_segments md' ! i) = sg_used_block_num (md_segments md ! i) - int (hash_count (seg_hash md i))"
    "blk ssd' = fold (move_entry nvm) (entries_of (seg_hash md i) js) (blk ssd)"
    by (rule migrate_segment_spec [OF env s ok(1) filled_movable [OF f fit] ok(2) ts i js_def]) blast
  have "md_per_block_num md' = md_per_block_num md" using m(5) by (simp add: same_other_segments_def)
  then have "filled md' i 0"
    using m(2,3,7,8) room by (simp add: filled_def segment_empty_def)
  moreover have "set js = {..<length (mh_nodes (seg_hash md i))}" using lanes_all [OF ts] by (simp add: js_def)
  then have "blk ssd' (ucast k) = (case hash_stack (seg_hash md i) k of [] \<Rightarrow> blk ssd (ucast k)
       | v # _ \<Rightarrow> the (buffer_data nvm (unat v)))" for k
    unfolding m(9) by (rule moved_disk [OF h _ one])
  moreover have "blk ssd' off = blk ssd off" if "2 ^ 32 \<le> unat off" for off
    unfolding m(9) using that by (rule moved_disk_above)
  ultimately show thesis using that m(1,4,5,6) by blast
qed


section \<open>The disk behind the buffer\<close>

text \<open>The content of the SSD as the buffer of segment \<open>i\<close> is meant to show it: a buffered address has the
  content of its buffer block, any other that of the SSD.\<close>

definition seg_view :: "('s \<Rightarrow> u64 \<Rightarrow> u8 list) \<Rightarrow> nat \<Rightarrow> metadata \<times> nvm_state \<times> 's \<Rightarrow> u32 \<Rightarrow> u8 list" where
  "seg_view blk i = (\<lambda>(md, nvm, ssd) k.
     case hash_stack (seg_hash md i) k of [] \<Rightarrow> blk ssd (ucast k)
     | v # _ \<Rightarrow> the (buffer_data nvm (i * unat (md_per_block_num md) + unat v)))"

definition seg_inv :: "nat \<Rightarrow> nat \<Rightarrow> (metadata \<times> nvm_state \<times> 's) \<times> int list \<Rightarrow> bool" where
  "seg_inv i n = (\<lambda>((md, nvm, ssd), c). filled md i n \<and> hash_stack (seg_hash md i) (-1) = [] \<and>
     layout_ok nvm \<and> threads_ok md \<and> i < length c \<and> buffer_blocks nvm < 2 ^ 32 \<and>
     i * unat (md_per_block_num md) + unat (md_per_block_num md) \<le> buffer_blocks nvm)"

lemma migrate_seg_inv:
  assumes "pmem_copies (env_cpy env)" "ssd_stores env blk" "seg_inv i n ((md, nvm, ssd), c)"
    "distinct ts" "set ts = {..<8}"
  shows "\<exists>md' nvm' ssd'. mix_migrate_segment env ts (int i) ((md, nvm, ssd), c) = Some ((md', nvm', ssd'), c[i := 0]) \<and>
    seg_inv i 0 ((md', nvm', ssd'), c[i := 0]) \<and> same_other_segments i md md' \<and> same_data nvm nvm' \<and>
    (\<forall>k. blk ssd' (ucast k) = (case hash_stack (seg_hash md i) k of [] \<Rightarrow> blk ssd (ucast k)
       | v # _ \<Rightarrow> the (buffer_data nvm (unat v)))) \<and>
    (\<forall>off. 2 ^ 32 \<le> unat off \<longrightarrow> blk ssd' off = blk ssd off)"
proof -
  have i: "filled md i n" "hash_stack (seg_hash md i) (-1) = []" "layout_ok nvm" "threads_ok md"
    "unat (md_per_block_num md) \<le> buffer_blocks nvm" "i < length c"
    using assms(3) by (simp_all add: seg_inv_def)
  obtain md' nvm' ssd' where m:
    "mix_migrate_segment env ts (int i) ((md, nvm, ssd), c) = Some ((md', nvm', ssd'), c[i := 0])"
    "filled md' i 0" "threads_ok md'" "same_other_segments i md md'" "same_data nvm nvm'"
    "\<And>k. blk ssd' (ucast k) = (case hash_stack (seg_hash md i) k of [] \<Rightarrow> blk ssd (ucast k)
       | v # _ \<Rightarrow> the (buffer_data nvm (unat v)))"
    "\<And>off. 2 ^ 32 \<le> unat off \<Longrightarrow> blk ssd' off = blk ssd off"
    by (rule migrate_filled [OF assms(1,2) i(1-5) assms(4,5) i(6)]) blast
  have "seg_inv i 0 ((md', nvm', ssd'), c[i := 0])"
    using assms(3) m(2-5) filled_0_none [OF m(2)] by (simp add: seg_inv_def same_other_segments_def same_data_def)
  then show ?thesis using m by blast
qed

text \<open>In segment 0 the blocks that a migration moves are those of the index, and the view is kept.\<close>

lemma migrate_view:
  assumes env: "pmem_copies (env_cpy env)" "ssd_stores env blk"
    and inv: "seg_inv 0 n ((md, nvm, ssd), c)" and ts: "distinct ts" "set ts = {..<8}"
  obtains md' nvm' ssd' where "mix_migrate_segment env ts 0 ((md, nvm, ssd), c) = Some ((md', nvm', ssd'), c[0 := 0])"
    "seg_inv 0 0 ((md', nvm', ssd'), c[0 := 0])" "seg_view blk 0 (md', nvm', ssd') = seg_view blk 0 (md, nvm, ssd)"
    "md_per_block_num md' = md_per_block_num md"
proof -
  have i: "filled md 0 n" "hash_stack (seg_hash md 0) (-1) = []" "layout_ok nvm" "threads_ok md"
    "unat (md_per_block_num md) \<le> buffer_blocks nvm" "0 < length c" "buffer_blocks nvm < 2 ^ 32"
    using inv by (simp_all add: seg_inv_def)
  obtain md' nvm' ssd' where m:
    "mix_migrate_segment env ts (int 0) ((md, nvm, ssd), c) = Some ((md', nvm', ssd'), c[0 := 0])"
    "filled md' 0 0" "threads_ok md'" "same_other_segments 0 md md'" "same_data nvm nvm'"
    "\<And>k. blk ssd' (ucast k) = (case hash_stack (seg_hash md 0) k of [] \<Rightarrow> blk ssd (ucast k)
       | v # _ \<Rightarrow> the (buffer_data nvm (unat v)))"
    by (rule migrate_filled [OF env i(1-5) ts i(6)]) blast
  have per: "md_per_block_num md' = md_per_block_num md" using m(4) by (simp add: same_other_segments_def)
  have "seg_inv 0 0 ((md', nvm', ssd'), c[0 := 0])"
    using m(2,3,5) i(5-7) filled_0_none [OF m(2)] by (simp add: seg_inv_def per same_data_def)
  moreover have "seg_view blk 0 (md', nvm', ssd') = seg_view blk 0 (md, nvm, ssd)"
    by (simp add: seg_view_def fun_eq_iff filled_0_none [OF m(2)] m(6) split: list.split)
  ultimately show thesis using that m(1) per by simp
qed

lemma allocate_view:
  assumes inv: "seg_inv i n ((md, nvm, ssd), c)" and n: "n < unat (md_per_block_num md)"
    and k: "hash_stack (seg_hash md i) k = []" "k \<noteq> -1"
  obtains md1 md2 where "mix_get_next_free_block md (int i) = Some (md1, int n)"
    "mix_write_redirect_blockmeta md1 (int i) k (int n) = Some (md2, False)"
    "seg_inv i (Suc n) ((md2, nvm, ssd), c)" "hash_stack (seg_hash md2 i) k = [of_nat n]"
    "\<And>k'. k' \<noteq> k \<Longrightarrow> seg_view blk i (md2, nvm, ssd) k' = seg_view blk i (md, nvm, ssd) k'"
    "md_per_block_num md2 = md_per_block_num md" "same_other_segments i md md2"
    "hash_stack (seg_hash md2 i) = (hash_stack (seg_hash md i))(k := [of_nat n])"
proof -
  have f: "filled md i n" using inv by (simp add: seg_inv_def)
  obtain md1 md2 where a: "mix_get_next_free_block md (int i) = Some (md1, int n)"
    "mix_write_redirect_blockmeta md1 (int i) k (int n) = Some (md2, False)"
    "filled md2 i (Suc n)" "hash_stack (seg_hash md2 i) = (hash_stack (seg_hash md i))(k := [of_nat n])"
    "same_other_segments i md md2" "threads_ok md2 \<longleftrightarrow> threads_ok md"
    by (rule allocate_filled [OF f n k(1)])
  have per: "md_per_block_num md2 = md_per_block_num md" using a(5) by (simp add: same_other_segments_def)
  have "seg_inv i (Suc n) ((md2, nvm, ssd), c)"
    using inv a(3,4,6) k(2) by (simp add: seg_inv_def per)
  moreover have "seg_view blk i (md2, nvm, ssd) k' = seg_view blk i (md, nvm, ssd) k'" if "k' \<noteq> k" for k'
    using that by (simp add: seg_view_def a(4) per split: list.split)
  ultimately show thesis using that a(1,2,4,5) per by simp
qed

text \<open>The block of a write: afterwards the address is indexed, and no other address shows a change. A
  migration is harmless in segment 0 only.\<close>

lemma redirect_block_view:
  assumes env: "pmem_copies (env_cpy env)" "ssd_stores env blk"
    and inv: "seg_inv i n ((md, nvm, ssd), c)" and ts: "distinct ts" "set ts = {..<8}" and k: "k \<noteq> -1"
    and safe: "i = 0 \<or> hash_stack (seg_hash md i) k \<noteq> [] \<or> n < unat (md_per_block_num md)"
  obtains md' nvm' ssd' c' n' v where
    "redirect_block env ts k (int i) ((md, nvm, ssd), c) = Some (((md', nvm', ssd'), c'), int (unat v))"
    "seg_inv i n' ((md', nvm', ssd'), c')" "hash_stack (seg_hash md' i) k = [v]" "length c' = length c"
    "\<And>k'. k' \<noteq> k \<Longrightarrow> seg_view blk i (md', nvm', ssd') k' = seg_view blk i (md, nvm, ssd) k'"
    "md_per_block_num md' = md_per_block_num md"
proof (cases "hash_stack (seg_hash md i) k")
  case (Cons v vs)
  have f: "filled md i n" using inv by (simp add: seg_inv_def)
  then have "vs = []" using Cons by (auto simp: filled_def dest!: spec [of _ k])
  moreover have "redirect_block env ts k (int i) ((md, nvm, ssd), c) = Some (((md, nvm, ssd), c), int (unat v))"
  proof -
    have "int (unat v) \<noteq> -1" by linarith
    then show ?thesis using Cons by (simp add: redirect_block_def block_test_filled [OF f] del: of_nat_unat)
  qed
  ultimately show thesis using that inv Cons by blast
next
  case Nil
  have f: "filled md i n" using inv by (simp add: seg_inv_def)
  have test: "mix_buffer_block_test md k (int i) = Some (-1)" using Nil by (simp add: block_test_none [OF f])
  have le: "n \<le> unat (md_per_block_num md)" "0 < unat (md_per_block_num md)" "unat (md_per_block_num md) < 2 ^ 29"
    using f by (simp_all add: filled_def segment_ok_def)
  have un: "unat (of_nat m :: u32) = m" if "m < unat (md_per_block_num md)" for m
    using that le(3) by (simp add: unsigned_of_nat take_bit_nat_eq_self)
  show thesis
  proof (cases "n < unat (md_per_block_num md)")
    case True
    obtain md1 md2 where a: "mix_get_next_free_block md (int i) = Some (md1, int n)"
      "mix_write_redirect_blockmeta md1 (int i) k (int n) = Some (md2, False)"
      "seg_inv i (Suc n) ((md2, nvm, ssd), c)" "hash_stack (seg_hash md2 i) k = [of_nat n]"
      "\<And>k'. k' \<noteq> k \<Longrightarrow> seg_view blk i (md2, nvm, ssd) k' = seg_view blk i (md, nvm, ssd) k'"
      "md_per_block_num md2 = md_per_block_num md"
      by (rule allocate_view [OF inv True Nil k]) blast
    have "int n \<noteq> -1" by simp
    then have "redirect_block env ts k (int i) ((md, nvm, ssd), c) = Some (((md2, nvm, ssd), c), int n)"
      using test a(1,2) by (simp add: redirect_block_def)
    then show thesis using that [of md2 nvm ssd c "of_nat n"] a(3-6) un [OF True] by simp
  next
    case False
    then have n: "n = unat (md_per_block_num md)" and i: "i = 0" using le(1) safe Nil by auto
    obtain md1 nvm1 ssd1 where m: "mix_migrate_segment env ts 0 ((md, nvm, ssd), c) = Some ((md1, nvm1, ssd1), c[0 := 0])"
      "seg_inv 0 0 ((md1, nvm1, ssd1), c[0 := 0])" "seg_view blk 0 (md1, nvm1, ssd1) = seg_view blk 0 (md, nvm, ssd)"
      "md_per_block_num md1 = md_per_block_num md"
      by (rule migrate_view [OF env inv [unfolded i] ts]) blast
    have p: "0 < unat (md_per_block_num md1)" "hash_stack (seg_hash md1 0) k = []"
      using le(2) m(2,4) filled_0_none by (simp_all add: seg_inv_def)
    obtain md2 md3 where a: "mix_get_next_free_block md1 (int 0) = Some (md2, int 0)"
      "mix_write_redirect_blockmeta md2 (int 0) k (int 0) = Some (md3, False)"
      "seg_inv 0 (Suc 0) ((md3, nvm1, ssd1), c[0 := 0])" "hash_stack (seg_hash md3 0) k = [of_nat 0]"
      "\<And>k'. k' \<noteq> k \<Longrightarrow> seg_view blk 0 (md3, nvm1, ssd1) k' = seg_view blk 0 (md1, nvm1, ssd1) k'"
      "md_per_block_num md3 = md_per_block_num md1"
      by (rule allocate_view [OF m(2) p k]) blast
    have "mix_get_next_free_block md (int 0) = Some (md, -1)"
      using f n next_free_block_full [of md 0] unfolding i by simp
    then have "redirect_block env ts k (int i) ((md, nvm, ssd), c) = Some (((md3, nvm1, ssd1), c[0 := 0]), 0)"
      using test m(1) a(1,2) unfolding i by (simp add: redirect_block_def)
    then show thesis using that [of md3 nvm1 ssd1 "c[0 := 0]" 0 "Suc 0"] a(3-6) m(3,4) unfolding i by simp
  qed
qed

lemma buffer_write_view:
  assumes cpy: "pmem_copies (env_cpy env)" and inv: "seg_inv i n ((md, nvm, ssd), c)"
    and k: "hash_stack (seg_hash md i) k = [v]" and src: "4096 \<le> length src"
  obtains nvm' where "mix_buffer_write (env_cpy env) nvm src lba (segment_block md (int i) (int (unat v))) flags = Some nvm'"
    "seg_inv i n ((md, nvm', ssd), c)"
    "seg_view blk i (md, nvm', ssd) = (seg_view blk i (md, nvm, ssd))(k := take 4096 src)"
    "same_buffer_data nvm nvm' (\<lambda>j. j \<noteq> i * unat (md_per_block_num md) + unat v)" "ns_buffer nvm' = ns_buffer nvm"
    "ns_nvm nvm' = ns_nvm nvm" "same_nvm_data nvm nvm' (\<lambda>_. True)"
    "buffer_data nvm' (i * unat (md_per_block_num md) + unat v) = Some (take 4096 src)"
proof -
  define per where "per = unat (md_per_block_num md)"
  have inv': "filled md i n" "layout_ok nvm" "buffer_blocks nvm < 2 ^ 32" "i * per + per \<le> buffer_blocks nvm"
    using inv by (simp_all add: seg_inv_def per_def)
  have vals: "v' \<in> set (hash_stack (seg_hash md i) k') \<Longrightarrow> unat v' < per" for k' v'
    using inv'(1) by (fastforce simp: filled_def per_def)
  have b: "i * per + unat v < buffer_blocks nvm" using vals [of v k] k inv'(4) by simp
  then have blk: "segment_block md (int i) (int (unat v)) = of_nat (i * per + unat v)"
    using inv'(3) by (subst segment_block_eq) (simp_all add: per_def)
  obtain nvm' where w: "mix_buffer_write (env_cpy env) nvm src lba (of_nat (i * per + unat v)) flags = Some nvm'" "layout_ok nvm'"
    "ns_buffer nvm' = ns_buffer nvm" "buffer_data nvm' (i * per + unat v) = Some (take 4096 src)"
    "same_buffer_data nvm nvm' (\<lambda>j. j \<noteq> i * per + unat v)" "ns_nvm nvm' = ns_nvm nvm" "same_nvm_data nvm nvm' (\<lambda>_. True)"
    by (rule mix_buffer_write_spec [OF cpy inv'(2) b src]) blast
  have bb: "buffer_blocks nvm' = buffer_blocks nvm" using w(3) by (simp add: buffer_blocks_def)
  have "seg_view blk i (md, nvm', ssd) k' = seg_view blk i (md, nvm, ssd) k'" if "k' \<noteq> k" for k'
  proof (cases "hash_stack (seg_hash md i) k'")
    case (Cons v' vs)
    have "unat v' \<noteq> unat v"
      using Cons k that inv'(1) by (force simp: filled_def word_unat_eq_iff [symmetric])
    moreover have "i * per + unat v' < buffer_blocks nvm" using vals [of v' k'] Cons inv'(4) by simp
    ultimately show ?thesis using Cons w(5) by (simp add: seg_view_def same_buffer_data_def per_def)
  qed (simp add: seg_view_def)
  then have "seg_view blk i (md, nvm', ssd) = (seg_view blk i (md, nvm, ssd))(k := take 4096 src)"
    using k w(4) by (auto simp: fun_eq_iff seg_view_def per_def)
  moreover have "seg_inv i n ((md, nvm', ssd), c)" using inv w(2) bb by (simp add: seg_inv_def)
  ultimately show thesis using that w(1,3-7) blk by (simp add: per_def)
qed


lemma redirect_write_view:
  assumes env: "pmem_copies (env_cpy env)" "ssd_stores env blk"
    and inv: "seg_inv i n ((md, nvm, ssd), c)" and ts: "distinct ts" "set ts = {..<8}"
    and k: "k = ucast (task_offset task)" "k \<noteq> -1" and buf: "4096 \<le> length (task_buf task)"
    and safe: "i = 0 \<or> hash_stack (seg_hash md i) k \<noteq> [] \<or> n < unat (md_per_block_num md)"
  obtains st' c' n' where
    "redirect_write env ts task (int i) ((md, nvm, ssd), c) = Some ((st', c'), sint (ucast (task_len task) :: u32))"
    "seg_inv i n' (st', c')" "seg_view blk i st' = (seg_view blk i (md, nvm, ssd))(k := take 4096 (task_buf task))"
    "length c' = length c"
proof -
  obtain md1 nvm1 ssd1 c1 n1 v where b:
    "redirect_block env ts k (int i) ((md, nvm, ssd), c) = Some (((md1, nvm1, ssd1), c1), int (unat v))"
    "seg_inv i n1 ((md1, nvm1, ssd1), c1)" "hash_stack (seg_hash md1 i) k = [v]" "length c1 = length c"
    "\<And>k'. k' \<noteq> k \<Longrightarrow> seg_view blk i (md1, nvm1, ssd1) k' = seg_view blk i (md, nvm, ssd) k'"
    by (rule redirect_block_view [OF env inv ts k(2) safe]) blast
  obtain nvm' where w: "mix_buffer_write (env_cpy env) nvm1 (task_buf task) (task_offset task)
        (segment_block md1 (int i) (int (unat v))) (task_opcode task) = Some nvm'"
    "seg_inv i n1 ((md1, nvm', ssd1), c1)"
    "seg_view blk i (md1, nvm', ssd1) = (seg_view blk i (md1, nvm1, ssd1))(k := take 4096 (task_buf task))"
    by (rule buffer_write_view [OF env(1) b(2,3) buf]) blast
  have "redirect_write env ts task (int i) ((md, nvm, ssd), c) =
      Some (((md1, nvm', ssd1), c1), sint (ucast (task_len task) :: u32))"
    using b(1) w(1) by (simp add: redirect_write_def flip: k(1))
  moreover have "seg_view blk i (md1, nvm', ssd1) = (seg_view blk i (md, nvm, ssd))(k := take 4096 (task_buf task))"
    using w(3) b(5) by (auto simp: fun_eq_iff)
  ultimately show thesis using that w(2) b(4) by blast
qed

text \<open>A write of a new address to a segment with a free block: the block with the next number is taken,
  and the SSD is not touched.\<close>

lemma redirect_write_new:
  assumes cpy: "pmem_copies (env_cpy env)" and inv: "seg_inv i n ((md, nvm, ssd), c)"
    and n: "n < unat (md_per_block_num md)" and k: "hash_stack (seg_hash md i) k = []" "k = ucast (task_offset task)" "k \<noteq> -1"
    and buf: "4096 \<le> length (task_buf task)"
  obtains md' nvm' where
    "redirect_write env ts task (int i) ((md, nvm, ssd), c) = Some (((md', nvm', ssd), c), sint (ucast (task_len task) :: u32))"
    "seg_inv i (Suc n) ((md', nvm', ssd), c)" "hash_stack (seg_hash md' i) k = [of_nat n]" "same_other_segments i md md'"
    "seg_view blk i (md', nvm', ssd) = (seg_view blk i (md, nvm, ssd))(k := take 4096 (task_buf task))"
    "same_buffer_data nvm nvm' (\<lambda>j. j \<noteq> i * unat (md_per_block_num md) + n)" "ns_buffer nvm' = ns_buffer nvm"
    "ns_nvm nvm' = ns_nvm nvm" "same_nvm_data nvm nvm' (\<lambda>_. True)"
    "hash_stack (seg_hash md' i) = (hash_stack (seg_hash md i))(k := [of_nat n])"
    "buffer_data nvm' (i * unat (md_per_block_num md) + n) = Some (take 4096 (task_buf task))"
proof -
  define per where "per = unat (md_per_block_num md)"
  have f: "filled md i n" and l: "layout_ok nvm" "i * per + n < buffer_blocks nvm" "buffer_blocks nvm < 2 ^ 32" "per < 2 ^ 29"
    using inv n by (simp_all add: seg_inv_def per_def filled_def segment_ok_def)
  obtain md1 md2 where a: "mix_get_next_free_block md (int i) = Some (md1, int n)"
      "mix_write_redirect_blockmeta md1 (int i) k (int n) = Some (md2, False)"
      "seg_inv i (Suc n) ((md2, nvm, ssd), c)" "hash_stack (seg_hash md2 i) k = [of_nat n]"
      "\<And>k'. k' \<noteq> k \<Longrightarrow> seg_view blk i (md2, nvm, ssd) k' = seg_view blk i (md, nvm, ssd) k'"
      "md_per_block_num md2 = md_per_block_num md" "same_other_segments i md md2"
      "hash_stack (seg_hash md2 i) = (hash_stack (seg_hash md i))(k := [of_nat n])"
    by (rule allocate_view [OF inv n k(1,3)]) blast
  have un: "unat (of_nat n :: u32) = n" using n l(4) by (simp add: unsigned_of_nat take_bit_nat_eq_self per_def)
  have "int n \<noteq> -1" by simp
  then have rb: "redirect_block env ts k (int i) ((md, nvm, ssd), c) = Some (((md2, nvm, ssd), c), int n)"
    using a(1,2) iffD2 [OF block_test_none [OF f] k(1)] by (simp add: redirect_block_def)
  obtain nvm' where b: "mix_buffer_write (env_cpy env) nvm (task_buf task) (task_offset task)
        (segment_block md2 (int i) (int (unat (of_nat n :: u32)))) (task_opcode task) = Some nvm'"
    "seg_inv i (Suc n) ((md2, nvm', ssd), c)"
    "seg_view blk i (md2, nvm', ssd) = (seg_view blk i (md2, nvm, ssd))(k := take 4096 (task_buf task))"
    "same_buffer_data nvm nvm' (\<lambda>j. j \<noteq> i * unat (md_per_block_num md2) + unat (of_nat n :: u32))" "ns_buffer nvm' = ns_buffer nvm"
    "ns_nvm nvm' = ns_nvm nvm" "same_nvm_data nvm nvm' (\<lambda>_. True)"
    "buffer_data nvm' (i * unat (md_per_block_num md2) + unat (of_nat n :: u32)) = Some (take 4096 (task_buf task))"
    by (rule buffer_write_view [OF cpy a(3,4) buf]) blast
  have "redirect_write env ts task (int i) ((md, nvm, ssd), c) =
      Some (((md2, nvm', ssd), c), sint (ucast (task_len task) :: u32))"
    using rb b(1) by (simp add: redirect_write_def un flip: k(2))
  moreover have "seg_view blk i (md2, nvm', ssd) = (seg_view blk i (md, nvm, ssd))(k := take 4096 (task_buf task))"
    using a(5) b(3) by (auto simp: fun_eq_iff)
  ultimately show thesis using that [of md2 nvm'] a(4,7,8) b(2,4-8) by (simp add: un a(6))
qed

text \<open>A write in general: \<open>b\<close> is the block it goes to, and \<open>full\<close> says that the segment is migrated first.\<close>

lemma redirect_write_spec:
  assumes env: "pmem_copies (env_cpy env)" "ssd_stores env blk" and inv: "seg_inv i n ((md, nvm, ssd), c)"
    and ts: "distinct ts" "set ts = {..<8}" and k: "k = ucast (task_offset task)" "k \<noteq> -1" and buf: "4096 \<le> length (task_buf task)"
    and per: "per = unat (md_per_block_num md)" and st: "st = hash_stack (seg_hash md i)"
    and full: "full \<longleftrightarrow> st k = [] \<and> n = per" and b: "b = (case st k of [] \<Rightarrow> if full then 0 else n | v # _ \<Rightarrow> unat v)"
  obtains md' nvm' ssd' c' where
    "redirect_write env ts task (int i) ((md, nvm, ssd), c) = Some (((md', nvm', ssd'), c'), sint (ucast (task_len task) :: u32))"
    "seg_inv i (if st k = [] then Suc b else n) ((md', nvm', ssd'), c')" "length c' = length c" "same_other_segments i md md'" "b < per"
    "hash_stack (seg_hash md' i) = (if full then (\<lambda>_. []) else st)(k := [of_nat b])"
    "buffer_blocks nvm' = buffer_blocks nvm" "nvm_blocks nvm' = nvm_blocks nvm" "same_nvm_data nvm nvm' (\<lambda>_. True)"
    "same_buffer_data nvm nvm' (\<lambda>j. j \<noteq> i * per + b)" "buffer_data nvm' (i * per + b) = Some (take 4096 (task_buf task))"
    "\<And>k'. blk ssd' (ucast k') = (case if full then st k' else [] of [] \<Rightarrow> blk ssd (ucast k') | v # _ \<Rightarrow> the (buffer_data nvm (unat v)))"
    "\<And>off. 2 ^ 32 \<le> unat off \<Longrightarrow> blk ssd' off = blk ssd off"
proof -
  have f: "filled md i n" and le: "n \<le> per" "0 < per" "per < 2 ^ 29"
    using inv by (simp_all add: seg_inv_def filled_def segment_ok_def per)
  consider (indexed) v vs where "st k = v # vs" | (fresh) "st k = []" "n < per" | (full) "st k = []" "n = per"
    using le_neq_implies_less [OF le(1)] by (cases "st k") auto
  then show thesis
  proof cases
    case indexed
    then have v: "hash_stack (seg_hash md i) k = [v]" "unat v < n" using f by (force simp: filled_def st dest!: spec [of _ k])+
    then have bv: "b = unat v" "\<not> full" using indexed by (simp_all add: b full)
    obtain nvm' where w: "mix_buffer_write (env_cpy env) nvm (task_buf task) (task_offset task)
          (segment_block md (int i) (int (unat v))) (task_opcode task) = Some nvm'"
      "seg_inv i n ((md, nvm', ssd), c)"
      "same_buffer_data nvm nvm' (\<lambda>j. j \<noteq> i * unat (md_per_block_num md) + unat v)" "ns_buffer nvm' = ns_buffer nvm"
      "ns_nvm nvm' = ns_nvm nvm" "same_nvm_data nvm nvm' (\<lambda>_. True)"
      "buffer_data nvm' (i * unat (md_per_block_num md) + unat v) = Some (take 4096 (task_buf task))"
      by (rule buffer_write_view [OF env(1) inv v(1) buf, where blk = blk]) blast
    have "int (unat v) \<noteq> -1" by linarith
    then have "redirect_write env ts task (int i) ((md, nvm, ssd), c) =
        Some (((md, nvm', ssd), c), sint (ucast (task_len task) :: u32))"
      using v(1) w(1) by (simp add: redirect_write_def redirect_block_def block_test_filled [OF f] del: of_nat_unat flip: k(1))
    moreover have "st = st(k := [of_nat b])" using v(1) by (auto simp: bv st fun_eq_iff)
    ultimately show thesis
      using that [of md nvm' ssd c] w(2-7) v bv(2) indexed le(1) by (simp add: same_other_segments_def per buffer_blocks_def nvm_blocks_def flip: bv(1) st)
  next
    case fresh
    then have bn: "b = n" "\<not> full" by (simp_all add: b full)
    obtain md' nvm' where w:
      "redirect_write env ts task (int i) ((md, nvm, ssd), c) = Some (((md', nvm', ssd), c), sint (ucast (task_len task) :: u32))"
      "seg_inv i (Suc n) ((md', nvm', ssd), c)" "same_other_segments i md md'"
      "same_buffer_data nvm nvm' (\<lambda>j. j \<noteq> i * unat (md_per_block_num md) + n)" "ns_buffer nvm' = ns_buffer nvm"
      "ns_nvm nvm' = ns_nvm nvm" "same_nvm_data nvm nvm' (\<lambda>_. True)"
      "hash_stack (seg_hash md' i) = (hash_stack (seg_hash md i))(k := [of_nat n])"
      "buffer_data nvm' (i * unat (md_per_block_num md) + n) = Some (take 4096 (task_buf task))"
      by (rule redirect_write_new [OF env(1) inv fresh(2) [unfolded per] fresh(1) [unfolded st] k buf, where ts = ts and blk = blk]) blast
    show thesis using that [OF w(1)] w(2-9) fresh bn by (simp add: per st buffer_blocks_def nvm_blocks_def)
  next
    case full
    then have bn: "b = 0" "full" using assms by (simp_all add: b)
    obtain md1 nvm1 ssd1 where m:
      "mix_migrate_segment env ts (int i) ((md, nvm, ssd), c) = Some ((md1, nvm1, ssd1), c[i := 0])"
      "seg_inv i 0 ((md1, nvm1, ssd1), c[i := 0])" "same_other_segments i md md1" "same_data nvm nvm1"
      "\<forall>k. blk ssd1 (ucast k) = (case st k of [] \<Rightarrow> blk ssd (ucast k) | v # _ \<Rightarrow> the (buffer_data nvm (unat v)))"
      "\<forall>off. 2 ^ 32 \<le> unat off \<longrightarrow> blk ssd1 off = blk ssd off"
      using migrate_seg_inv [OF env inv ts] unfolding st by blast
    have f1: "filled md1 i 0" using m(2) by (simp add: seg_inv_def)
    have none: "hash_stack (seg_hash md1 i) = (\<lambda>_. [])" using filled_0_none [OF f1] by (simp add: fun_eq_iff)
    have per1: "unat (md_per_block_num md1) = per" using m(3) by (simp add: same_other_segments_def per)
    have p: "0 < unat (md_per_block_num md1)" "hash_stack (seg_hash md1 i) k = []" using le(2) by (simp_all add: per1 none)
    obtain md2 where nf: "mix_get_next_free_block md1 (int i) = Some (md2, int 0)"
      by (rule allocate_view [OF m(2) p k(2), where blk = blk]) blast
    obtain md' nvm' where w:
      "redirect_write env ts task (int i) ((md1, nvm1, ssd1), c[i := 0]) =
        Some (((md', nvm', ssd1), c[i := 0]), sint (ucast (task_len task) :: u32))"
      "seg_inv i (Suc 0) ((md', nvm', ssd1), c[i := 0])" "same_other_segments i md1 md'"
      "same_buffer_data nvm1 nvm' (\<lambda>j. j \<noteq> i * unat (md_per_block_num md1) + 0)" "ns_buffer nvm' = ns_buffer nvm1"
      "ns_nvm nvm' = ns_nvm nvm1" "same_nvm_data nvm1 nvm' (\<lambda>_. True)"
      "hash_stack (seg_hash md' i) = (hash_stack (seg_hash md1 i))(k := [of_nat 0])"
      "buffer_data nvm' (i * unat (md_per_block_num md1) + 0) = Some (take 4096 (task_buf task))"
      by (rule redirect_write_new [OF env(1) m(2) p k buf, where ts = ts and blk = blk]) blast
    have "redirect_block env ts k (int i) ((md, nvm, ssd), c) = redirect_block env ts k (int i) ((md1, nvm1, ssd1), c[i := 0])"
      using iffD2 [OF block_test_none [OF f] full(1) [unfolded st]] iffD2 [OF block_test_none [OF f1] p(2)] m(1) nf f full(2)
        next_free_block_full [of md i] by (simp add: redirect_block_def per)
    then have "redirect_write env ts task (int i) ((md, nvm, ssd), c) =
        Some (((md', nvm', ssd1), c[i := 0]), sint (ucast (task_len task) :: u32))"
      using w(1) by (simp add: redirect_write_def flip: k(1))
    moreover have "same_nvm_data nvm nvm' (\<lambda>_. True)" "same_buffer_data nvm nvm' (\<lambda>j. j \<noteq> i * per + b)"
        "buffer_blocks nvm' = buffer_blocks nvm" "nvm_blocks nvm' = nvm_blocks nvm"
      using m(4) w(4-7) by (simp_all add: same_data_def same_nvm_data_def same_buffer_data_def per1 bn nvm_blocks_def buffer_blocks_def)
    ultimately show thesis
      using that [of md' nvm' ssd1 "c[i := 0]"] w(2,8,9) same_other_trans [OF m(3) w(3)] m(5,6) le(2) full bn
      by (simp add: none per1)
  qed
qed

text \<open>What a write does not touch: the other segments, and the buffer when the NVM area is written.\<close>

lemma seg_inv_other:
  assumes "seg_inv j m ((md, nvm, ssd), c)" "same_other_segments i md md'" "j \<noteq> i" "threads_ok md'" "layout_ok nvm'"
    "buffer_blocks nvm' = buffer_blocks nvm" "length c' = length c"
  shows "seg_inv j m ((md', nvm', ssd'), c')"
proof -
  have "filled md' j m" using assms(1-3) by (auto simp: seg_inv_def filled_def segment_ok_def same_other_segments_def)
  then show ?thesis using assms by (simp add: seg_inv_def same_other_segments_def)
qed

text \<open>A change of the NVM area leaves the buffer and its segments alone.\<close>

lemma nvm_area_frame:
  assumes "seg_inv i n ((md, nvm, ssd), c)" "layout_ok nvm'" "ns_buffer nvm' = ns_buffer nvm" "same_buffer_data nvm nvm' (\<lambda>_. True)"
  shows "seg_inv i n ((md, nvm', ssd), c)" "seg_view blk i (md, nvm', ssd) = seg_view blk i (md, nvm, ssd)"
proof -
  show "seg_inv i n ((md, nvm', ssd), c)" using assms(1-3) by (simp add: seg_inv_def buffer_blocks_def)
  have vals: "unat v < unat (md_per_block_num md)" if "v \<in> set (hash_stack (seg_hash md i) k)" for k v
    using that assms(1) by (fastforce simp: seg_inv_def filled_def)
  have fit: "i * unat (md_per_block_num md) + unat (md_per_block_num md) \<le> buffer_blocks nvm"
    using assms(1) by (simp add: seg_inv_def)
  have "buffer_data nvm' (i * unat (md_per_block_num md) + unat v) = buffer_data nvm (i * unat (md_per_block_num md) + unat v)"
    if "hash_stack (seg_hash md i) k = v # vs" for k v vs
  proof -
    have "v \<in> set (hash_stack (seg_hash md i) k)" using that by simp
    note vals [OF this]
    then show ?thesis using fit assms(4) by (simp add: same_buffer_data_def)
  qed
  then show "seg_view blk i (md, nvm', ssd) = seg_view blk i (md, nvm, ssd)"
    by (auto simp: seg_view_def fun_eq_iff split: list.split)
qed

section \<open>Segment 0 as a block device\<close>

text \<open>A write of one block as \<open>mixdk_write\<close> posts it.\<close>

definition small_write :: "nat \<Rightarrow> u8 list \<Rightarrow> io_task" where
  "small_write k data = \<lparr>task_buf = data, task_len = 1, task_offset = of_nat k, task_inflight = 0,
     task_opcode = MIX_WRITE, task_type = SSD_TASK, task_queue_idx = 0, task_original = None\<rparr>"

fun redirect_writes ::
    "'s environment \<Rightarrow> nat list \<Rightarrow> int \<Rightarrow> (nat \<times> u8 list) list \<Rightarrow> (metadata \<times> nvm_state \<times> 's) \<times> int list \<Rightarrow>
       ((metadata \<times> nvm_state \<times> 's) \<times> int list) option" where
  "redirect_writes env ts idx [] st = Some st"
| "redirect_writes env ts idx ((k, x) # ws) st =
     redirect_write env ts (small_write k x) idx st \<bind> (\<lambda>(st, _). redirect_writes env ts idx ws st)"

type_synonym 's segment_device =
  "('s environment \<times> nat list \<times> ('s \<Rightarrow> u64 \<Rightarrow> u8 list)) \<times> (metadata \<times> nvm_state \<times> 's) \<times> int list"

definition seg_dev_write :: "'s segment_device \<Rightarrow> nat \<Rightarrow> u8 list \<Rightarrow> 's segment_device option" where
  "seg_dev_write = (\<lambda>((env, ts, blk), st) k x.
     map_option (\<lambda>(st', _). ((env, ts, blk), st')) (redirect_write env ts (small_write k x) 0 st))"

definition seg_dev_read :: "'s segment_device \<Rightarrow> nat \<Rightarrow> u8 list option" where
  "seg_dev_read = (\<lambda>((env, ts, blk), (st, c)) k. Some (seg_view blk 0 st (of_nat k)))"

definition seg_dev_ok :: "'s segment_device \<Rightarrow> bool" where
  "seg_dev_ok = (\<lambda>((env, ts, blk), st). pmem_copies (env_cpy env) \<and> ssd_stores env blk \<and>
     distinct ts \<and> set ts = {..<8} \<and> (\<exists>n. seg_inv 0 n st))"

lemma small_key:
  assumes "k < 2 ^ 32 - 1"
  shows "(ucast (of_nat k :: u64) :: u32) = of_nat k" "(of_nat k :: u32) \<noteq> -1"
proof -
  have "unat (of_nat k :: u64) = k" "unat (of_nat k :: u32) = k"
    using assms by (simp_all add: unsigned_of_nat take_bit_nat_eq_self)
  then show "(ucast (of_nat k :: u64) :: u32) = of_nat k" by (metis of_nat_unat)
  show "(of_nat k :: u32) \<noteq> -1"
  proof
    assume "(of_nat k :: u32) = -1"
    then have "k = 2 ^ 32 - 1" using \<open>unat (of_nat k :: u32) = k\<close> by (simp add: unsigned_minus_1_eq_mask mask_eq_exp_minus_1)
    then show False using assms by simp
  qed
qed

interpretation seg_dev: block_device seg_dev_write seg_dev_read "\<lambda>_. 2 ^ 32 - 1" "\<lambda>x. length x = 4096" seg_dev_ok
proof (unfold_locales, goal_cases)
  case (1 d k x)
  obtain env ts blk md nvm ssd c where d: "d = ((env, ts, blk), ((md, nvm, ssd), c))" by (cases d) auto
  obtain n where ok: "pmem_copies (env_cpy env)" "ssd_stores env blk" "distinct ts" "set ts = {..<8}"
      "seg_inv 0 n ((md, nvm, ssd), c)"
    using 1(1) by (auto simp: d seg_dev_ok_def)
  note key = small_key [OF 1(2)]
  have t: "of_nat k = (ucast (task_offset (small_write k x)) :: u32)" "4096 \<le> length (task_buf (small_write k x))"
    using key(1) 1(3) by (simp_all add: small_write_def)
  obtain st' c' n' where w: "redirect_write env ts (small_write k x) (int 0) ((md, nvm, ssd), c) =
        Some ((st', c'), sint (ucast (task_len (small_write k x)) :: u32))"
      "seg_inv 0 n' (st', c')"
      "seg_view blk 0 st' = (seg_view blk 0 (md, nvm, ssd))(of_nat k := take 4096 (task_buf (small_write k x)))"
    by (rule redirect_write_view [OF ok(1,2,5,3,4) t(1) key(2) t(2)]) blast+
  have inj: "(of_nat j :: u32) \<noteq> of_nat k" if "j < 2 ^ 32 - 1" "j \<noteq> k" for j
  proof -
    have "unat (of_nat j :: u32) = j" "unat (of_nat k :: u32) = k"
      using that(1) 1(2) by (simp_all add: unsigned_of_nat take_bit_nat_eq_self)
    then show ?thesis using that(2) by metis
  qed
  have "seg_dev_write d k x = Some ((env, ts, blk), (st', c'))" using w(1) by (simp add: d seg_dev_write_def)
  moreover have "seg_dev_ok ((env, ts, blk), (st', c'))" using ok w(2) by (auto simp: seg_dev_ok_def)
  moreover have "seg_dev_read ((env, ts, blk), (st', c')) k = Some x"
    using w(3) 1(3) by (simp add: seg_dev_read_def small_write_def)
  moreover have "seg_dev_read ((env, ts, blk), (st', c')) j = seg_dev_read d j" if "j < 2 ^ 32 - 1" "j \<noteq> k" for j
    using w(3) inj [OF that] by (simp add: seg_dev_read_def d)
  ultimately show ?case by blast
qed

lemma seg_dev_write_all:
  "write_all seg_dev_write ws ((env, ts, blk), st) = map_option (Pair (env, ts, blk)) (redirect_writes env ts 0 ws st)"
proof (induction ws arbitrary: st)
  case (Cons w ws)
  obtain k x where w: "w = (k, x)" by (cases w)
  have "seg_dev_write ((env, ts, blk), st) k x = map_option (\<lambda>(st', _). ((env, ts, blk), st')) (redirect_write env ts (small_write k x) 0 st)"
    by (simp add: seg_dev_write_def)
  then show ?case
    by (cases "redirect_write env ts (small_write k x) 0 st") (auto simp: w Cons.IH)
qed simp


section \<open>Striping\<close>

text \<open>The blocks of a subtask as \<open>mix_clear_block\<close> walks them.\<close>

definition task_blocks :: "io_task \<Rightarrow> nat list" where
  "task_blocks t = map (\<lambda>j. unat (task_offset t) + 4 * j) [0..<unat (task_len t)]"

lemma and_3: "(x :: int) AND 3 = x mod 4"
  using take_bit_eq_mask [of 2 x] by (simp add: mask_eq_exp_minus_1 take_bit_eq_mod)

lemma stripe_len:
  fixes len i :: nat
  assumes "i < 4"
  shows "len div 4 + (if i < len mod 4 then 1 else 0) = (len + 3 - i) div 4"
proof -
  define q r where "q = len div 4" and "r = len mod 4"
  have r: "r < 4" and len: "len = 4 * q + r" by (simp_all add: q_def r_def)
  have "(r + 3 - i) div 4 = (if i < r then 1 else 0)"
    using r assms by (auto intro: div_nat_eqI)
  moreover have "len + 3 - i = (r + 3 - i) + 4 * q" using assms len by simp
  ultimately show ?thesis by (simp flip: q_def r_def)
qed

lemma stripe_tasks_eq:
  assumes "off + len < 2 ^ 31" "0 \<le> idx" "idx < 4"
  shows "i + n = 4 \<Longrightarrow> stripe_tasks junk task (int off) (int (off + len)) i ((idx + int i) mod 4) n =
    map (\<lambda>i. (nat ((idx + int i) mod 4), junk\<lparr>task_inflight := task_inflight task, task_opcode := task_opcode task,
                task_type := task_type task, task_offset := of_nat (off + i), task_len := of_nat ((len + 3 - i) div 4),
                task_original := Some (task_inflight task)\<rparr>))
      (filter (\<lambda>i. i < len) [i..<4])"
proof (induction n arbitrary: i)
  case 0
  then show ?case by simp
next
  case (Suc n)
  then have i: "i < 4" and upt: "[i..<4] = i # [Suc i..<4]" by (simp_all add: upt_conv_Cons)
  have diff: "int (off + len) - int off = int len" by simp
  have len: "int len sdiv 4 + (if int i < int len AND 3 then 1 else 0) = int ((len + 3 - i) div 4)"
  proof -
    have "int len sdiv 4 = int (len div 4)" by (simp add: sdiv_nonneg zdiv_int)
    moreover have "int i < int len AND 3 \<longleftrightarrow> i < len mod 4" by (simp add: and_3 flip: of_nat_mod [of len 4, simplified])
    moreover have "int ((len + 3 - i) div 4) = int (len div 4) + (if i < len mod 4 then 1 else 0)"
      unfolding stripe_len [OF i, symmetric] by simp
    ultimately show ?thesis by simp
  qed
  have un: "unat (of_nat ((len + 3 - i) div 4) :: u64) = (len + 3 - i) div 4"
    using assms(1) by (simp add: unsigned_of_nat take_bit_nat_eq_self)
  have zero: "(of_nat ((len + 3 - i) div 4) :: u64) = 0 \<longleftrightarrow> \<not> i < len"
  proof -
    have "(of_nat ((len + 3 - i) div 4) :: u64) = 0 \<longleftrightarrow> (len + 3 - i) div 4 = 0"
      using un by (simp only: unat_eq_zero [symmetric])
    also have "\<dots> \<longleftrightarrow> len + 3 - i < 4" by (simp add: div_eq_0_iff)
    finally show ?thesis using i by linarith
  qed
  have next_idx: "((idx + int i) mod 4 + 1) AND 3 = (idx + int (Suc i)) mod 4"
    by (simp add: and_3 mod_add_left_eq add.assoc [symmetric]) (simp add: ac_simps)
  show ?case
  proof (cases "i < len")
    case True
    then show ?thesis
      using zero Suc.IH [of "Suc i"] Suc.prems next_idx
      by (simp only: stripe_tasks.simps Let_def diff len upt) simp
  next
    case False
    then have "filter (\<lambda>i. i < len) [i..<4] = []" by (auto simp: filter_empty_conv)
    then show ?thesis using False zero by (simp only: stripe_tasks.simps Let_def diff len) simp
  qed
qed


lemma stripe_blocks:
  assumes "off + len < 2 ^ 31" "i < 4"
  shows "unat (of_nat (off + i) :: u64) = off + i" "unat (of_nat ((len + 3 - i) div 4) :: u64) = (len + 3 - i) div 4"
  using assms by (simp_all add: unsigned_of_nat take_bit_nat_eq_self del: of_nat_add)

lemma stripe_tasks_of_request:
  assumes "unat (task_offset task) + unat (task_len task) < 2 ^ 31"
    and o: "off = unat (task_offset task)" and l: "len = unat (task_len task)"
  shows "mix_post_task_to_buffer_tasks junk task =
    map (\<lambda>i. ((off div 4 + i) mod 4, junk\<lparr>task_inflight := task_inflight task, task_opcode := task_opcode task,
                task_type := task_type task, task_offset := of_nat (off + i), task_len := of_nat ((len + 3 - i) div 4),
                task_original := Some (task_inflight task)\<rparr>))
      (filter (\<lambda>i. i < len) [0..<4])"
proof -
  have lt: "off + len < 2 ^ 31" using assms by simp
  have un: "unat (task_offset task + task_len task) = off + len"
    using assms by (subst unat_add_bounded) simp_all
  have s: "sint (ucast (task_offset task) :: u32) = int off"
    using lt o by (subst sint_small; subst unat_ucast_down) simp_all
  have e: "sint (ucast (task_offset task + task_len task) :: u32) = int (off + len)"
    using lt un by (subst sint_small; subst unat_ucast_down) simp_all
  have q: "uint (task_offset task div stripe_size mod BUFFER_QUEUE_NUM) = int (off div 4) mod 4"
  proof -
    have "unat (task_offset task div stripe_size mod BUFFER_QUEUE_NUM) = off div 4 mod 4"
      by (simp add: unat_mod unat_div o stripe_size_def BUFFER_QUEUE_NUM_def)
    then show ?thesis by (metis of_nat_mod of_nat_numeral uint_nat)
  qed
  define idx where "idx = int (off div 4) mod 4"
  have idx: "0 \<le> idx" "idx < 4" "(idx + int 0) mod 4 = idx" by (simp_all add: idx_def)
  have nat_idx: "nat ((idx + int i) mod 4) = (off div 4 + i) mod 4" for i
    by (simp add: idx_def mod_simps flip: of_nat_add of_nat_mod [of _ 4, simplified])
  show ?thesis
    unfolding mix_post_task_to_buffer_tasks_def Let_def s e q
    using stripe_tasks_eq [OF lt idx(1,2), of 0 4 junk task] unfolding idx_def [symmetric] idx(3) nat_idx by simp
qed

text \<open>The blocks of subtask \<open>i\<close> are those of the request at distance \<open>i\<close> modulo 4.\<close>

definition stripe :: "nat \<Rightarrow> nat \<Rightarrow> nat \<Rightarrow> nat list" where
  "stripe off len i = map (\<lambda>j. off + i + 4 * j) [0..<(len + 3 - i) div 4]"

lemma set_stripe:
  assumes "i < 4"
  shows "b \<in> set (stripe off len i) \<longleftrightarrow> off + i \<le> b \<and> b < off + len \<and> (b - off) mod 4 = i"
proof
  assume "b \<in> set (stripe off len i)"
  then obtain j where j: "b = off + i + 4 * j" "j < (len + 3 - i) div 4" by (auto simp: stripe_def)
  then have "4 * j + 4 \<le> len + 3 - i" by simp
  then show "off + i \<le> b \<and> b < off + len \<and> (b - off) mod 4 = i" using j(1) assms by auto
next
  assume b: "off + i \<le> b \<and> b < off + len \<and> (b - off) mod 4 = i"
  define j where "j = (b - off) div 4"
  have "b = off + i + 4 * j" using b mult_div_mod_eq [of 4 "b - off"] unfolding j_def by linarith
  moreover from this have "j < (len + 3 - i) div 4" using b assms by (simp add: less_eq_Suc_le)
  ultimately show "b \<in> set (stripe off len i)" by (auto simp: stripe_def)
qed

lemma stripes_partition:
  assumes ns: "ns = filter (\<lambda>i. i < len) [0..<4]"
  shows "distinct (concat (map (stripe off len) ns))" "set (concat (map (stripe off len) ns)) = {off..<off + len}"
proof -
  show "distinct (concat (map (stripe off len) ns))"
  proof (rule distinct_concat_map)
    show "set (stripe off len x) \<inter> set (stripe off len y) = {}" if "x \<in> set ns" "y \<in> set ns" "x \<noteq> y" for x y
      using that set_stripe [of x] set_stripe [of y] by (auto simp: ns)
  qed (simp_all add: ns stripe_def distinct_map inj_on_def)
  have "(\<exists>i < 4. i < len \<and> b \<in> set (stripe off len i)) \<longleftrightarrow> b \<in> {off..<off + len}" for b
  proof
    assume "b \<in> {off..<off + len}"
    then have "(b - off) mod 4 < 4 \<and> (b - off) mod 4 < len \<and> off + (b - off) mod 4 \<le> b \<and> b < off + len"
      using mod_less_eq_dividend [of "b - off" 4] by auto
    then show "\<exists>i < 4. i < len \<and> b \<in> set (stripe off len i)" using set_stripe by blast
  qed (use set_stripe in auto)
  moreover have "b \<in> set (concat (map (stripe off len) ns)) \<longleftrightarrow> (\<exists>i < 4. i < len \<and> b \<in> set (stripe off len i))" for b
    by (auto simp: ns)
  ultimately show "set (concat (map (stripe off len) ns)) = {off..<off + len}" by blast
qed

section \<open>Properties\<close>

text \<open>C23. \<open>mix_post_task_to_buffer\<close> splits a request into at most four subtasks whose blocks are together
  exactly the blocks of the request, each once. Subtask \<open>j\<close> goes to queue \<open>(offset / 4 + j) mod 4\<close>, whereas
  a single block is kept in the segment \<open>offset mod 4\<close>.\<close>

theorem stripes_partition_request:
  assumes "unat (task_offset task) + unat (task_len task) < 2 ^ 31"
  shows "let ps = mix_post_task_to_buffer_tasks junk task; blocks = concat (map (task_blocks \<circ> snd) ps)
    in length ps \<le> 4 \<and> distinct blocks \<and>
      set blocks = {unat (task_offset task)..<unat (task_offset task) + unat (task_len task)} \<and>
      map fst ps = map (\<lambda>j. (unat (task_offset task) div 4 + j) mod 4) [0..<length ps]"
proof -
  define off len where "off = unat (task_offset task)" and "len = unat (task_len task)"
  define ns where "ns = filter (\<lambda>i. i < len) [0..<4]"
  define t where "t i = junk\<lparr>task_inflight := task_inflight task, task_opcode := task_opcode task, task_type := task_type task,
    task_offset := of_nat (off + i), task_len := of_nat ((len + 3 - i) div 4),
                task_original := Some (task_inflight task)\<rparr>" for i
  have lt: "off + len < 2 ^ 31" using assms by (simp add: off_def len_def)
  have ps: "mix_post_task_to_buffer_tasks junk task = map (\<lambda>i. ((off div 4 + i) mod 4, t i)) ns"
    using stripe_tasks_of_request [OF assms off_def len_def] by (simp add: ns_def t_def)
  have "task_blocks (t i) = stripe off len i" if "i \<in> set ns" for i
    using stripe_blocks [OF lt, of i] that by (simp add: ns_def task_blocks_def t_def stripe_def del: of_nat_add)
  then have blocks: "map (task_blocks \<circ> snd) (map (\<lambda>i. ((off div 4 + i) mod 4, t i)) ns) = map (stripe off len) ns"
    by simp
  have "ns = [0..<min len 4]"
    unfolding ns_def by (cases "len < 4") (auto simp: numeral_eq_Suc less_Suc_eq upt_rec)
  then have "length ns \<le> 4" "map (\<lambda>j. (off div 4 + j) mod 4) ns = map (\<lambda>j. (off div 4 + j) mod 4) [0..<length ns]" by simp_all
  then show ?thesis
    unfolding ps Let_def blocks using stripes_partition [OF ns_def, of off]
    by (simp add: comp_def flip: off_def len_def)
qed

theorem stripes_partition_request_witness:
  "set (concat (map (task_blocks \<circ> snd)
     (mix_post_task_to_buffer_tasks (small_write 0 []) ((small_write 6 [])\<lparr>task_len := 7\<rparr>)))) = {6..<13}"
  using stripes_partition_request [of "(small_write 6 [])\<lparr>task_len := 7\<rparr>" "small_write 0 []"]
  by (simp add: Let_def small_write_def)


text \<open>A disk in memory: the SSD of the witnesses.\<close>

definition ram_env :: "(u64 \<Rightarrow> u8 list) environment" where
  "ram_env = \<lparr>env_cpy = mem_write,
     env_ssd_write = (\<lambda>s buf n off _. Some (\<lambda>b. if unat off \<le> unat b \<and> unat b < unat off + unat n
       then chunk 4096 buf (unat b - unat off) else s b)),
     env_ssd_read = (\<lambda>s n off _. Some (concat (map (\<lambda>j. s (off + of_nat j)) [0..<unat n])))\<rparr>"

lemma ram_env_ok: "pmem_copies (env_cpy ram_env)" "ssd_stores ram_env id"
proof -
  show "pmem_copies (env_cpy ram_env)" using mem_write_copies by (simp add: ram_env_def)
  have "(\<lambda>b. if unat off \<le> unat b \<and> unat b < unat off + unat (1 :: u64) then chunk 4096 buf (unat b - unat off) else s b) = s(off := buf)"
    if "length buf = 4096" for off buf and s :: "u64 \<Rightarrow> u8 list"
  proof
    fix b
    have "unat off \<le> unat b \<and> unat b < unat off + 1 \<longleftrightarrow> b = off" by (auto simp: word_unat_eq_iff)
    then show "(if unat off \<le> unat b \<and> unat b < unat off + unat (1 :: u64) then chunk 4096 buf (unat b - unat off) else s b) = (s(off := buf)) b"
      using that by (simp add: chunk_def)
  qed
  then show "ssd_stores ram_env id" by (simp add: ssd_stores_def ram_env_def)
qed

text \<open>The state of the program after its start, with empty counters.\<close>

lemma sample_segment:
  obtains md nvm where "init_2048 = Some md" "\<And>i ssd. i < 4 \<Longrightarrow> seg_inv i 0 ((md, nvm, ssd), [0, 0, 0, 0])"
    "unat (md_per_block_num md) = 512" "layout_ok nvm" "buffer_blocks nvm = 2048"
proof -
  obtain md where md: "init_2048 = Some md" "unat (md_per_block_num md) = 512" "\<forall>i < 4. filled md i 0" "threads_ok md"
    using sample_metadata by blast
  obtain nvm where nvm: "layout_ok nvm" "buffer_blocks nvm = 2048" using program_state by blast
  have "seg_inv i 0 ((md, nvm, ssd), [0, 0, 0, 0])" if "i < 4" for i and ssd :: 's
    using md(2-4) nvm filled_0_none that by (auto simp: seg_inv_def)
  then show thesis using that md nvm by blast
qed

text \<open>C7. A migration of a segment terminates for every order in which the eight threads run. It empties
  the index and the bitmap of the segment and returns all nodes of the index to the pool; the SSD block
  of every address that was indexed then holds the buffer block whose number is the value of the entry,
  every other address of the SSD what it held.\<close>

theorem migrate_segment_moves_entries:
  assumes "pmem_copies (env_cpy env)" "ssd_stores env blk" "seg_inv i n ((md, nvm, ssd), c)"
    "distinct ts" "set ts = {..<8}"
  shows "\<exists>md' nvm' ssd'. mix_migrate_segment env ts (int i) ((md, nvm, ssd), c) = Some ((md', nvm', ssd'), c[i := 0]) \<and>
    seg_inv i 0 ((md', nvm', ssd'), c[i := 0]) \<and> same_other_segments i md md' \<and> same_data nvm nvm' \<and>
    (\<forall>k. blk ssd' (ucast k) = (case hash_stack (seg_hash md i) k of [] \<Rightarrow> blk ssd (ucast k)
       | v # _ \<Rightarrow> the (buffer_data nvm (unat v)))) \<and>
    (\<forall>off. 2 ^ 32 \<le> unat off \<longrightarrow> blk ssd' off = blk ssd off)"
  by (rule migrate_seg_inv [OF assms])

theorem migrate_segment_moves_entries_witness:
  "\<exists>md nvm md' nvm' ssd'. init_2048 = Some md \<and>
     mix_migrate_segment ram_env [7, 6, 5, 4, 3, 2, 1, 0] 2 ((md, nvm, \<lambda>_. []), [0, 0, 0, 0]) = Some ((md', nvm', ssd'), [0, 0, 0, 0])"
proof -
  obtain md nvm where s: "init_2048 = Some md" "\<And>i (ssd :: u64 \<Rightarrow> u8 list). i < 4 \<Longrightarrow> seg_inv i 0 ((md, nvm, ssd), [0, 0, 0, 0])"
    by (rule sample_segment) blast
  have "distinct [7, 6, 5, 4, 3, 2, 1, 0 :: nat]" "set [7, 6, 5, 4, 3, 2, 1, 0 :: nat] = {..<8}" by auto
  from migrate_segment_moves_entries [OF ram_env_ok s(2) this, of 2 "\<lambda>_. []"] obtain md' nvm' ssd' where
    "mix_migrate_segment ram_env [7, 6, 5, 4, 3, 2, 1, 0] (int 2) ((md, nvm, \<lambda>_. []), [0, 0, 0, 0]) =
       Some ((md', nvm', ssd'), [0, 0, 0, 0][2 := 0])" by auto
  then have "mix_migrate_segment ram_env [7, 6, 5, 4, 3, 2, 1, 0] 2 ((md, nvm, \<lambda>_. []), [0, 0, 0, 0]) =
       Some ((md', nvm', ssd'), [0, 0, 0, 0])" by simp
  then show ?thesis using s(1) by blast
qed

text \<open>C3. Segment 0 of the buffer behaves as a disk: after any sequence of one-block writes, migrations
  included, every address shows the last block written to it, and an address that was not written
  shows what it showed before.\<close>

theorem segment0_last_write_wins:
  assumes "pmem_copies (env_cpy env)" "ssd_stores env blk" "seg_inv 0 n st" "distinct ts" "set ts = {..<8}"
    "\<forall>(k, x) \<in> set ws. k < 2 ^ 32 - 1 \<and> length x = 4096"
  shows "\<exists>st' n'. redirect_writes env ts 0 ws st = Some st' \<and> seg_inv 0 n' st' \<and>
    (\<forall>k < 2 ^ 32 - 1. seg_view blk 0 (fst st') (of_nat k) =
       (case map_of (rev ws) k of None \<Rightarrow> seg_view blk 0 (fst st) (of_nat k) | Some x \<Rightarrow> x))"
proof -
  have "seg_dev_ok ((env, ts, blk), st)" using assms(1-5) by (auto simp: seg_dev_ok_def)
  from seg_dev.write_all_reads [OF this, of ws] assms(6) obtain d where
    d: "write_all seg_dev_write ws ((env, ts, blk), st) = Some d" "seg_dev_ok d"
      "\<forall>k < 2 ^ 32 - 1. seg_dev_read d k =
         (case map_of (rev ws) k of None \<Rightarrow> seg_dev_read ((env, ts, blk), st) k | Some x \<Rightarrow> Some x)"
    by auto
  then obtain st' where st': "redirect_writes env ts 0 ws st = Some st'" "d = ((env, ts, blk), st')"
    by (auto simp: seg_dev_write_all)
  have rd: "seg_dev_read ((env, ts, blk), s) k = Some (seg_view blk 0 (fst s) (of_nat k))" for s k
    by (cases s) (simp add: seg_dev_read_def)
  have "seg_view blk 0 (fst st') (of_nat k) =
       (case map_of (rev ws) k of None \<Rightarrow> seg_view blk 0 (fst st) (of_nat k) | Some x \<Rightarrow> x)" if "k < 2 ^ 32 - 1" for k
    using d(3) [rule_format, OF that] by (auto simp: st'(2) rd split: option.splits)
  then show ?thesis using st' d(2) by (auto simp: seg_dev_ok_def)
qed

theorem segment0_last_write_wins_witness:
  "\<exists>md nvm st'. init_2048 = Some md \<and>
     redirect_writes ram_env [0..<8] 0 [(4, replicate 4096 1), (8, replicate 4096 2), (4, replicate 4096 3)]
       ((md, nvm, \<lambda>_. []), [0, 0, 0, 0]) = Some st' \<and> seg_view id 0 (fst st') 4 = replicate 4096 3"
proof -
  obtain md nvm where s: "init_2048 = Some md" "\<And>i (ssd :: u64 \<Rightarrow> u8 list). i < 4 \<Longrightarrow> seg_inv i 0 ((md, nvm, ssd), [0, 0, 0, 0])"
    by (rule sample_segment) blast
  let ?ws = "[(4, replicate 4096 1), (8, replicate 4096 2), (4, replicate 4096 3)] :: (nat \<times> u8 list) list"
  have t: "distinct [0..<8 :: nat]" "set [0..<8] = {..<8 :: nat}" "\<forall>(k, x) \<in> set ?ws. k < 2 ^ 32 - 1 \<and> length x = 4096"
    by auto
  have "seg_inv 0 0 ((md, nvm, (\<lambda>_. []) :: u64 \<Rightarrow> u8 list), [0, 0, 0, 0])" by (rule s(2)) simp
  from segment0_last_write_wins [OF ram_env_ok this t] obtain st' where
    "redirect_writes ram_env [0..<8] 0 ?ws ((md, nvm, \<lambda>_. []), [0, 0, 0, 0]) = Some st'"
    and v: "\<forall>k < 2 ^ 32 - 1. seg_view id 0 (fst st') (of_nat k) = (case map_of (rev ?ws) k of
      None \<Rightarrow> seg_view id 0 (fst ((md, nvm, \<lambda>_. []), [0, 0, 0, 0 :: int])) (of_nat k) | Some x \<Rightarrow> x)" by blast
  moreover have "seg_view id 0 (fst st') 4 = replicate 4096 3" using v [rule_format, of 4] by simp
  ultimately show ?thesis using s(1) by blast
qed


text \<open>C14. In the segments 1 to 3 a migration loses data: the entry of a new block holds its number within
  the segment, the block is written at \<open>idx * per_block_num + n\<close>, but the migration copies the buffer
  block \<open>n\<close>, which belongs to segment 0, to the SSD.\<close>

theorem migration_copies_wrong_block:
  assumes "pmem_copies (env_cpy env)" "ssd_stores env blk" "seg_inv i n ((md, nvm, ssd), c)" "0 < i"
    "distinct ts" "set ts = {..<8}" "n < unat (md_per_block_num md)" "mix_buffer_block_test md k (int i) = Some (-1)"
    "k = ucast (task_offset task)" "k \<noteq> -1" "4096 \<le> length (task_buf task)"
  shows "\<exists>st1 ret md2 nvm2 ssd2 c2. redirect_write env ts task (int i) ((md, nvm, ssd), c) = Some (st1, ret) \<and>
    seg_view blk i (fst st1) k = take 4096 (task_buf task) \<and>
    mix_migrate_segment env ts (int i) st1 = Some ((md2, nvm2, ssd2), c2) \<and>
    seg_view blk i (md2, nvm2, ssd2) k = the (buffer_data nvm n)"
proof -
  define per where "per = unat (md_per_block_num md)"
  have f: "filled md i n" and b: "i * per + n < buffer_blocks nvm" "per < 2 ^ 29"
    using assms(3,7) by (simp_all add: seg_inv_def per_def filled_def segment_ok_def)
  have h: "hash_stack (seg_hash md i) k = []" using assms(8) block_test_none [OF f] by simp
  obtain md1 nvm1 where w:
      "redirect_write env ts task (int i) ((md, nvm, ssd), c) = Some (((md1, nvm1, ssd), c), sint (ucast (task_len task) :: u32))"
      "seg_inv i (Suc n) ((md1, nvm1, ssd), c)" "hash_stack (seg_hash md1 i) k = [of_nat n]" "same_other_segments i md md1"
      "seg_view blk i (md1, nvm1, ssd) = (seg_view blk i (md, nvm, ssd))(k := take 4096 (task_buf task))"
      "same_buffer_data nvm nvm1 (\<lambda>j. j \<noteq> i * per + n)"
    unfolding per_def by (rule redirect_write_new [OF assms(1,3,7) h assms(9-11)]) blast
  have un: "unat (of_nat n :: u32) = n" using assms(7) b(2) by (simp add: unsigned_of_nat take_bit_nat_eq_self per_def)
  obtain md3 nvm3 ssd3 where m: "mix_migrate_segment env ts (int i) ((md1, nvm1, ssd), c) = Some ((md3, nvm3, ssd3), c[i := 0])"
      "seg_inv i 0 ((md3, nvm3, ssd3), c[i := 0])" "blk ssd3 (ucast k) = the (buffer_data nvm1 n)"
    using migrate_seg_inv [OF assms(1,2) w(2) assms(5,6)] w(3) un by auto
  have "n \<noteq> i * per + n" "n < buffer_blocks nvm" using assms(4,7) b(1) by (simp_all add: per_def)
  then have "buffer_data nvm1 n = buffer_data nvm n" using w(6) by (simp add: same_buffer_data_def)
  moreover have "hash_stack (seg_hash md3 i) k = []" using m(2) filled_0_none by (simp add: seg_inv_def)
  ultimately have "seg_view blk i (md3, nvm3, ssd3) k = the (buffer_data nvm n)" using m(3) by (simp add: seg_view_def)
  moreover have "seg_view blk i (md1, nvm1, ssd) k = take 4096 (task_buf task)" using w(5) by simp
  ultimately show ?thesis using w(1) m(1) by (metis fst_conv)
qed

theorem migration_copies_wrong_block_witness:
  "\<exists>md nvm st1 ret md2 nvm2 ssd2 c2. init_2048 = Some md \<and>
     redirect_write ram_env [0..<8] (small_write 5 (replicate 4096 7)) 1 ((md, nvm, \<lambda>_. []), [0, 0, 0, 0]) = Some (st1, ret) \<and>
     seg_view id 1 (fst st1) 5 = replicate 4096 7 \<and>
     mix_migrate_segment ram_env [0..<8] 1 st1 = Some ((md2, nvm2, ssd2), c2) \<and>
     seg_view id 1 (md2, nvm2, ssd2) 5 = the (buffer_data nvm 0)"
proof -
  obtain md nvm where s: "init_2048 = Some md" "\<And>i (ssd :: u64 \<Rightarrow> u8 list). i < 4 \<Longrightarrow> seg_inv i 0 ((md, nvm, ssd), [0, 0, 0, 0])"
      "unat (md_per_block_num md) = 512"
    by (rule sample_segment) blast
  have inv: "seg_inv 1 0 ((md, nvm, (\<lambda>_. []) :: u64 \<Rightarrow> u8 list), [0, 0, 0, 0])" by (rule s(2)) simp
  then have f: "filled md 1 0" by (simp add: seg_inv_def)
  have "mix_buffer_block_test md 5 (int 1) = Some (-1)" using block_test_none [OF f] filled_0_none [OF f] by simp
  note t = this
  let ?t = "small_write 5 (replicate 4096 7)"
  have p: "(0 :: nat) < 1" "distinct [0..<8 :: nat]" "set [0..<8] = {..<8 :: nat}" "0 < unat (md_per_block_num md)"
    "(5 :: u32) = ucast (task_offset ?t)" "(5 :: u32) \<noteq> -1" "4096 \<le> length (task_buf ?t)"
    using s(3) by (auto simp: small_write_def)
  have buf: "take 4096 (task_buf ?t) = replicate 4096 7" by (simp add: small_write_def)
  show ?thesis
    using s(1) migration_copies_wrong_block [OF ram_env_ok inv p(1-4) t p(5-7)] unfolding buf of_nat_1 by blast
qed

text \<open>A large write does not clear the buffered copies of its blocks: the subtasks it posts carry the
  flags \<open>MIX_WRITE\<close> and \<open>MIX_CLEAR\<close> together, and the worker, which compares with single flags, does
  nothing for them.\<close>

theorem clear_subtasks_are_ignored:
  assumes "unat (task_offset task) + unat (task_len task) < 2 ^ 31" "task_type task = SSD_TASK"
    "task_opcode task AND (MIX_READ OR MIX_WRITE) = MIX_WRITE" "task' = task\<lparr>task_opcode := task_opcode task OR MIX_CLEAR\<rparr>"
  shows "\<forall>(q, t) \<in> set (mix_post_task_to_buffer_tasks junk task'). nvm_worker_task env ts q t sys = Some sys"
proof -
  have "(task_opcode task OR MIX_CLEAR) AND (MIX_READ OR MIX_WRITE OR MIX_CLEAR) =
      (task_opcode task AND (MIX_READ OR MIX_WRITE)) OR MIX_CLEAR"
    by (rule bit_word_eqI) (auto simp: bit_or_iff bit_and_iff)
  then have op: "(task_opcode task OR MIX_CLEAR) AND (MIX_READ OR MIX_WRITE OR MIX_CLEAR) = 68"
    using assms(3) by (simp add: MIX_WRITE_def MIX_CLEAR_def)
  have "nvm_worker_task env ts q t sys = Some sys"
    if "task_type t = SSD_TASK" "task_opcode t = task_opcode task OR MIX_CLEAR" for q t
    using that op by (simp add: nvm_worker_task_def Let_def SSD_TASK_def NVM_TASK_def MIX_READ_def MIX_WRITE_def MIX_CLEAR_def)
  moreover have "task_type t = SSD_TASK \<and> task_opcode t = task_opcode task OR MIX_CLEAR"
    if "(q, t) \<in> set (mix_post_task_to_buffer_tasks junk task')" for q t
    using that assms(1,2,4) stripe_tasks_of_request [of task' _ _ junk, OF _ refl refl] by auto
  ultimately show ?thesis by auto
qed

theorem clear_subtasks_are_ignored_witness:
  "let ps = mix_post_task_to_buffer_tasks (small_write 0 []) ((small_write 6 [])\<lparr>task_len := 7, task_opcode := 68\<rparr>)
   in map (\<lambda>(q, t). nvm_worker_task ram_env [0..<8] q t) ps = map (\<lambda>_. Some) ps"
proof -
  have "nvm_worker_task ram_env [0..<8] q t = Some"
    if "(q, t) \<in> set (mix_post_task_to_buffer_tasks (small_write 0 []) ((small_write 6 [])\<lparr>task_len := 7, task_opcode := 68\<rparr>))" for q t
    using that clear_subtasks_are_ignored [of "(small_write 6 [])\<lparr>task_len := 7\<rparr>" "(small_write 6 [])\<lparr>task_len := 7, task_opcode := 68\<rparr>"
        "small_write 0 []" ram_env "[0..<8]"]
    by (auto simp: small_write_def MIX_READ_def MIX_WRITE_def MIX_CLEAR_def fun_eq_iff)
  then show ?thesis by (auto simp: Let_def)
qed

text \<open>The loop of \<open>redirect_read\<close> on an indexed segment, while the blocks fit into \<open>read_buffer\<close>: it goes wrong
  exactly at a block that is found, when the address does not fit into \<open>read_index\<close>.\<close>

lemma redirect_read_loop_fits:
  assumes f: "filled md idx n" "idx < 4" and ok: "layout_ok nvm" and b: "idx * unat (md_per_block_num md) + 1 < buffer_blocks nvm"
    and fit: "idx * 4096 + 4096 \<le> length rb" "idx * 4096 + 4 \<le> length ri"
  shows "\<exists>rb' ri'. redirect_read_loop m i md nvm off idx (rb, ri) = Some (rb', ri')"
  using fit
proof (induction m arbitrary: i rb ri)
  case (Suc m)
  have "unat (md_per_block_num md) < 536870912" using f(1) by (simp add: filled_def segment_ok_def)
  moreover have "idx \<le> 3" using f(2) by simp
  then have "idx * unat (md_per_block_num md) \<le> 3 * unat (md_per_block_num md)" by (rule mult_le_mono1)
  ultimately have "idx * unat (md_per_block_num md) + 1 < 4294967296" by linarith
  then have sb: "segment_block md (int idx) (int 1) = of_nat (idx * unat (md_per_block_num md) + 1)"
    by (intro segment_block_eq) simp
  obtain bytes where bytes: "mix_buffer_read nvm (segment_block md (int idx) 1) = Some bytes" "length bytes = 4096"
    using buffer_data_length [OF ok b] sb by (auto simp: buffer_data_def)
  obtain rb1 where rb1: "mem_write rb (idx * 512 * 8) bytes = Some rb1"
    using mem_write_ok [of "idx * 512 * 8" bytes rb] bytes(2) Suc.prems(1) by auto
  let ?addr = "le_bytes 4 (ucast (off + of_nat i * BUFFER_QUEUE_NUM) :: u32)"
  obtain ri1 where ri1: "mem_write ri (idx * 512 * 8) ?addr = Some ri1"
    using mem_write_ok [of "idx * 512 * 8" ?addr ri] Suc.prems(2) by auto
  have "length rb1 = length rb" "length ri1 = length ri" using mem_write_length rb1 ri1 by blast+
  then show ?case
    using Suc.IH [of rb ri "Suc i"] Suc.IH [of rb1 ri1 "Suc i"] Suc.prems bytes(1) rb1 ri1 by (simp add: block_test_filled [OF f(1)])
qed simp

lemma redirect_read_loop_overruns:
  assumes f: "filled md idx n" and fit: "length ri < idx * 4096 + 4" and j: "j < m"
    and found: "mix_buffer_block_test md (ucast (off + of_nat (i + j) * SSD_BLOCK_SIZE)) (int idx) = Some v" "v \<noteq> -1"
  shows "redirect_read_loop m i md nvm off idx (rb, ri) = None"
  using j found(1)
proof (induction m arbitrary: i j)
  case (Suc m)
  have over: "mem_write ri (idx * 512 * 8) (le_bytes 4 w) = None" for w :: u32 using fit by (simp add: mem_write_def)
  show ?case
  proof (cases j)
    case 0
    then show ?thesis using Suc.prems(2) found(2) over by (auto split: bind_splits)
  next
    case (Suc j')
    then have "redirect_read_loop m (Suc i) md nvm off idx (rb, ri) = None" using Suc.IH [of j' "Suc i"] Suc.prems by simp
    then show ?thesis using over by (simp add: block_test_filled [OF f] split: bind_split)
  qed
qed simp

text \<open>C24. \<open>redirect_read\<close> counts in pointers where \<open>read_index\<close> has integers. When a block of the request is
  found in the segment, the original task is there and both of its pointers are set, the workers 0 and 1
  finish; the workers 2 and 3 store the address of the block behind the end of \<open>read_index\<close>, an array of
  \<open>4 * 512\<close> integers. This store is the only one that goes wrong: with an array of as many pointers, every
  worker finishes.\<close>

theorem redirect_read_overruns_index:
  assumes "layout_ok (sys_nvm sys)" "filled (sys_meta sys) idx n" "idx < 4"
    "idx * unat (md_per_block_num (sys_meta sys)) + 1 < buffer_blocks (sys_nvm sys)"
    "task_original task = Some slot" "slot < length (sys_read_ptrs sys)" "sys_read_ptrs sys ! slot = (True, True)"
    "slot < length (sys_inflight sys)" "length (sys_read_buffer sys) = 4 * 512 * 8" "length (sys_read_index sys) = 4 * 512 * 4"
    "j < unat (task_len task)" "v \<noteq> -1"
    "mix_buffer_block_test (sys_meta sys) (ucast (task_offset task + of_nat j * SSD_BLOCK_SIZE)) (int idx) = Some v"
  shows "(redirect_read task idx sys = None \<longleftrightarrow> 2 \<le> idx) \<and>
    redirect_read task idx (sys\<lparr>sys_read_index := replicate (4 * 512 * 8) x\<rparr>) \<noteq> None"
proof -
  have ptrs: "arr_get (sys_read_ptrs sys) (int slot) = Some (True, True)" using assms(6,7) by (simp add: arr_get_def)
  have fits: "redirect_read task idx (sys\<lparr>sys_read_index := ri\<rparr>) \<noteq> None" if "idx * 4096 + 4 \<le> length ri" for ri
  proof -
    have "idx * 4096 + 4096 \<le> length (sys_read_buffer sys)" using assms(3,9) by simp
    from redirect_read_loop_fits [OF assms(2,3,1,4) this that] obtain rb' ri' where
      "redirect_read_loop (unat (task_len task)) 0 (sys_meta sys) (sys_nvm sys) (task_offset task) idx (sys_read_buffer sys, ri) =
        Some (rb', ri')" by blast
    then show ?thesis using assms(5,8) ptrs by (simp add: redirect_read_def fetch_sub_def)
  qed
  have "redirect_read task idx sys = None" if "2 \<le> idx"
  proof -
    have "length (sys_read_index sys) < idx * 4096 + 4" using assms(10) that by simp
    from redirect_read_loop_overruns [OF assms(2) this assms(11), of "task_offset task" 0] show ?thesis
      using assms(5,12,13) ptrs by (simp add: redirect_read_def)
  qed
  moreover have "redirect_read task idx sys \<noteq> None" if "\<not> 2 \<le> idx" using fits [of "sys_read_index sys"] assms(10) that by simp
  moreover have "redirect_read task idx (sys\<lparr>sys_read_index := replicate (4 * 512 * 8) x\<rparr>) \<noteq> None"
    using assms(3) by (intro fits) simp
  ultimately show ?thesis by blast
qed

theorem redirect_read_overruns_index_witness:
  "\<exists>sys :: (u64 \<Rightarrow> u8 list) system. length (sys_read_index sys) = 8192 \<and> sys_read_ptrs sys = [(True, True)] \<and>
     mix_buffer_block_test (sys_meta sys) 7 3 = Some 0 \<and>
     redirect_read ((small_write 7 [])\<lparr>task_original := Some 0\<rparr>) 3 sys = None \<and>
     redirect_read ((small_write 7 [])\<lparr>task_original := Some 0\<rparr>) 3 (sys\<lparr>sys_read_index := replicate 16384 0\<rparr>) \<noteq> None"
proof -
  obtain md where md: "unat (md_per_block_num md) = 512" "filled md 3 0" using sample_metadata by force
  have n: "0 < unat (md_per_block_num md)" using md(1) by simp
  obtain md1 md2 where a: "filled md2 3 (Suc 0)" "hash_stack (seg_hash md2 3) = (hash_stack (seg_hash md 3))(7 := [of_nat 0])"
    "same_other_segments 3 md md2"
    by (rule allocate_filled [OF md(2) n filled_0_none [OF md(2)], of 7])
  have t: "mix_buffer_block_test md2 7 (int 3) = Some 0" using block_test_filled [OF a(1), of 7] a(2) by simp
  obtain nvm where nvm: "layout_ok nvm" "buffer_blocks nvm = 2048" using program_state by blast
  define sys :: "(u64 \<Rightarrow> u8 list) system" where "sys = \<lparr>sys_meta = md2, sys_nvm = nvm, sys_ssd = \<lambda>_. [], sys_completed = [],
    sys_nvm_queue = [], sys_buffer_queue = [], sys_queue_size = 4096, sys_seq = [], sys_inflight = [1], sys_out = [],
    sys_read_ptrs = [(True, True)], sys_read_buffer = replicate 16384 0, sys_read_index = replicate 8192 0\<rparr>"
  let ?t = "(small_write 7 [])\<lparr>task_original := Some 0\<rparr>"
  have p: "layout_ok (sys_nvm sys)" "filled (sys_meta sys) 3 (Suc 0)" "3 < (4 :: nat)"
    "3 * unat (md_per_block_num (sys_meta sys)) + 1 < buffer_blocks (sys_nvm sys)"
    "task_original ?t = Some 0" "0 < length (sys_read_ptrs sys)" "sys_read_ptrs sys ! 0 = (True, True)"
    "0 < length (sys_inflight sys)" "length (sys_read_buffer sys) = 4 * 512 * 8" "length (sys_read_index sys) = 4 * 512 * 4"
    "0 < unat (task_len ?t)" "(0 :: int) \<noteq> -1"
    "mix_buffer_block_test (sys_meta sys) (ucast (task_offset ?t + of_nat 0 * SSD_BLOCK_SIZE)) (int 3) = Some 0"
    using nvm a(1,3) md(1) t by (simp_all add: sys_def small_write_def same_other_segments_def)
  show ?thesis using redirect_read_overruns_index [OF p, of 0] t by (intro exI [of _ sys]) (simp add: sys_def)
qed


end
