(* ===== verification/Scheduler.thy ===== *)
theory Scheduler
  imports Nvm_Worker
begin

text \<open>
  From the public interface to the workers: \<open>mixdk_write\<close> and \<open>mixdk_read\<close> of \<open>src/src/mixdk.c\<close>,
  the choice between the NVM area and the SSD in \<open>src/src/scheduler.c\<close>, the choice between the buffer
  and the SSD in \<open>src/src/nvm_worker.cpp\<close>, and the SSD worker of \<open>src/src/ssd_worker.c\<close>.

  The lemmas follow one request through the system: a schedule of worker polls stands for the
  interleaving of the four worker threads with the caller that waits for its counter.
\<close>

section \<open>The SSD worker\<close>

text \<open>\<open>mix_post_task_to_ssd\<close>: the caller spins as long as all four segments are flagged as migrating, and
  no code resets such a flag. The pointers of a task that reads are set to the arrays \<open>read_buffer\<close> and
  \<open>read_index\<close>. The result of \<open>pread\<close> and \<open>pwrite\<close> is not looked at. What the first call of a thread stores in
  the two arrays (pointers to new memory, and -1) is left out: \<open>redirect_read\<close> overwrites parts of the
  arrays, and nothing reads them.\<close>

definition mix_post_task_to_ssd :: "'s environment \<Rightarrow> io_task \<Rightarrow> 's system \<Rightarrow> 's system option" where
  "mix_post_task_to_ssd env task sys = do {
     migrating \<leftarrow> mix_buffer_migrating (sys_meta sys);
     if migrating then None
     else let op_code = task_opcode task AND (MIX_READ OR MIX_WRITE)
          in if op_code = MIX_READ then do {
               bytes \<leftarrow> env_ssd_read env (sys_ssd sys) (task_len task) (task_offset task) (task_opcode task);
               out \<leftarrow> arr_set (sys_out sys) (int (task_inflight task)) bytes;
               Some (sys\<lparr>sys_out := out, sys_read_ptrs := (sys_read_ptrs sys)[task_inflight task := (True, True)]\<rparr>)
             }
             else if op_code = MIX_WRITE then do {
               ssd \<leftarrow> env_ssd_write env (sys_ssd sys) (task_buf task) (task_len task) (task_offset task) (task_opcode task);
               Some (sys\<lparr>sys_ssd := ssd\<rparr>)
             }
             else Some sys
   }"

section \<open>Dispatch\<close>

text \<open>\<open>mix_post_task_to_data\<close>: one block goes to the buffer, more go to the SSD, and so does every read.\<close>

definition mix_post_task_to_data ::
    "'s environment \<Rightarrow> nat list \<Rightarrow> nat list \<Rightarrow> io_task \<Rightarrow> io_task \<Rightarrow> 's system \<Rightarrow> 's system option" where
  "mix_post_task_to_data env ts ws junk task sys =
     (let op_code = task_opcode task AND (MIX_READ OR MIX_WRITE)
      in if op_code = MIX_WRITE \<and> task_len task \<le> small_threshold
         then mix_post_small_task_to_buffer env ts ws task sys
         else if op_code = MIX_WRITE \<and> small_threshold < task_len task
         then let task = task\<lparr>task_opcode := task_opcode task OR MIX_CLEAR\<rparr>
              in mix_post_task_to_buffer junk task sys \<bind> mix_post_task_to_ssd env task
         else if op_code = MIX_READ then mix_post_task_to_ssd env task sys
         else Some sys)"

definition sched_threshold :: u64 where "sched_threshold = 1928765"

text \<open>\<open>mix_post_task_to_io\<close>: the length is returned as an \<open>int\<close>.\<close>

definition mix_post_task_to_io ::
    "'s environment \<Rightarrow> nat list \<Rightarrow> nat list \<Rightarrow> io_task \<Rightarrow> io_task \<Rightarrow> 's system \<Rightarrow> ('s system \<times> u64) option" where
  "mix_post_task_to_io env ts ws junk task sys =
     (if task_offset task + task_len task < sched_threshold
      then let task = task\<lparr>task_type := NVM_TASK, task_queue_idx := ucast (task_offset task mod of_nat NVM_QUEUE_NUM)\<rparr>
           in map_option (\<lambda>sys. (sys, scast (ucast (task_len task) :: u32))) (mix_post_task_to_metadata env ts ws task sys)
      else let task = task\<lparr>task_offset := task_offset task - sched_threshold, task_type := SSD_TASK\<rparr>
           in map_option (\<lambda>sys. (sys, scast (ucast (task_len task) :: u32))) (mix_post_task_to_data env ts ws junk task sys))"

section \<open>The public interface\<close>

text \<open>\<open>init_io_task\<close>: the task of slot \<open>idx\<close>, its counter of blocks in flight, and its pointers \<open>read_buffer\<close>
  and \<open>read_index\<close>, which become null; the arrays of slots have the same length.\<close>

definition init_io_task :: "u8 list \<Rightarrow> u64 \<Rightarrow> u64 \<Rightarrow> u64 \<Rightarrow> nat \<Rightarrow> 's system \<Rightarrow> (io_task \<times> 's system) option" where
  "init_io_task buf len0 offset opcode idx sys = do {
     cs \<leftarrow> arr_set (sys_inflight sys) (int idx) (sint len0);
     Some (\<lparr>task_buf = buf, task_len = len0, task_offset = offset, task_inflight = idx, task_opcode = opcode,
            task_type = 0, task_queue_idx = of_nat idx, task_original = None\<rparr>,
           sys\<lparr>sys_inflight := cs, sys_read_ptrs := (sys_read_ptrs sys)[idx := (False, False)]\<rparr>)
   }"

definition mixdk_write ::
    "'s environment \<Rightarrow> nat list \<Rightarrow> nat list \<Rightarrow> io_task \<Rightarrow> u8 list \<Rightarrow> u64 \<Rightarrow> u64 \<Rightarrow> u64 \<Rightarrow> nat \<Rightarrow> 's system \<Rightarrow>
       ('s system \<times> u64) option" where
  "mixdk_write env ts ws junk src len0 offset flags idx sys = do {
     (task, sys) \<leftarrow> init_io_task src len0 offset (flags OR MIX_WRITE) idx sys;
     mix_post_task_to_io env ts ws junk task sys
   }"

definition mixdk_read ::
    "'s environment \<Rightarrow> nat list \<Rightarrow> nat list \<Rightarrow> io_task \<Rightarrow> u64 \<Rightarrow> u64 \<Rightarrow> u64 \<Rightarrow> nat \<Rightarrow> 's system \<Rightarrow>
       ('s system \<times> u64) option" where
  "mixdk_read env ts ws junk len0 offset flags idx sys = do {
     dst \<leftarrow> arr_get (sys_out sys) (int idx);
     (task, sys) \<leftarrow> init_io_task dst len0 offset (MIX_READ OR flags) idx sys;
     mix_post_task_to_io env ts ws junk task sys
   }"


section \<open>Waiting for the workers\<close>

text \<open>A system whose only task is \<open>t\<close>, in the queue of worker \<open>w\<close> to the NVM area (\<open>side\<close>) or to the buffer.\<close>

definition no_tasks :: "'s system \<Rightarrow> 's system" where
  "no_tasks sys = sys\<lparr>sys_nvm_queue := replicate 4 [], sys_buffer_queue := replicate 4 []\<rparr>"

definition one_task :: "bool \<Rightarrow> nat \<Rightarrow> io_task \<Rightarrow> 's system \<Rightarrow> 's system" where
  "one_task side w t sys =
     (if side then (no_tasks sys)\<lparr>sys_nvm_queue := (replicate 4 [])[w := [t]]\<rparr>
      else (no_tasks sys)\<lparr>sys_buffer_queue := (replicate 4 [])[w := [t]]\<rparr>)"

definition bump_seq :: "nat \<Rightarrow> u8 list \<Rightarrow> u8 list" where
  "bump_seq v s = s[v := s ! v + 1]"

lemma length_bump [simp]: "length (bump_seq v s) = length s"
  by (simp add: bump_seq_def)

lemma bump_parity: "v < length s \<Longrightarrow> (bump_seq v s ! w AND 1 \<noteq> 0) = (if w = v then s ! w AND 1 = 0 else s ! w AND 1 \<noteq> 0)"
proof -
  have "(x + 1 :: u8) AND 1 \<noteq> 0 \<longleftrightarrow> x AND 1 = 0" for x
    by (simp add: and_one_eq even_iff_mod_2_eq_zero [symmetric])
  then show "v < length s \<Longrightarrow> ?thesis" by (simp add: bump_seq_def)
qed

lemma poll_one_task:
  assumes "v < 4" "w < 4"
  shows "nvm_worker_poll env ts v (one_task side w t (sys\<lparr>sys_seq := s\<rparr>)) =
    (if v = w \<and> (s ! v AND 1 \<noteq> 0) = side then nvm_worker_task env ts w t (no_tasks (sys\<lparr>sys_seq := bump_seq v s\<rparr>))
     else Some (one_task side w t (sys\<lparr>sys_seq := bump_seq v s\<rparr>)))"
proof -
  have r: "(replicate 4 ([] :: io_task list))[w := [t], w := []] = replicate 4 []" by (simp add: list_update_same_conv assms(2))
  have n: "(replicate 4 ([] :: io_task list))[w := [t]] ! v = (if v = w then [t] else [])" "replicate 4 ([] :: io_task list) ! v = []"
    using assms by (simp_all add: nth_list_update)
  show ?thesis
    using r n
    by (cases sys; cases side) (auto simp: nvm_worker_poll_def one_task_def no_tasks_def get_task_from_nvm_queue_def
        get_task_from_buffer_queue_def bump_seq_def Let_def)
qed

text \<open>Under every schedule in which worker \<open>w\<close> polls twice the task is executed and the caller returns.\<close>

lemma wait_one_task:
  assumes w: "w < 4" and run: "\<And>s. length s = 4 \<Longrightarrow>
      nvm_worker_task env ts w t (no_tasks (sys\<lparr>sys_seq := s\<rparr>)) = Some (done\<lparr>sys_seq := s\<rparr>)"
    and fl: "0 < sys_inflight sys ! slot" "sys_inflight done ! slot \<le> 0"
  shows "length s = 4 \<Longrightarrow> set ws \<subseteq> {..<4} \<Longrightarrow>
    (if (s ! w AND 1 \<noteq> 0) = side then 1 else 2) \<le> count_list ws w \<Longrightarrow>
    \<exists>s'. length s' = 4 \<and> mix_wait_for_task_completed env ts ws slot (one_task side w t (sys\<lparr>sys_seq := s\<rparr>)) = Some (done\<lparr>sys_seq := s'\<rparr>)"
proof (induction ws arbitrary: s)
  case Nil
  then show ?case by (simp split: if_splits)
next
  case (Cons v ws)
  have v: "v < 4" using Cons.prems by simp
  have fl1: "0 < sys_inflight (one_task side w t (sys\<lparr>sys_seq := s\<rparr>)) ! slot" using fl(1) by (simp add: one_task_def no_tasks_def)
  show ?case
  proof (cases "v = w \<and> (s ! v AND 1 \<noteq> 0) = side")
    case True
    have ready: "mix_wait_for_task_completed env ts ws slot (done\<lparr>sys_seq := bump_seq v s\<rparr>) = Some (done\<lparr>sys_seq := bump_seq v s\<rparr>)"
      using fl(2) by (cases ws) simp_all
    have "nvm_worker_poll env ts v (one_task side w t (sys\<lparr>sys_seq := s\<rparr>)) = Some (done\<lparr>sys_seq := bump_seq v s\<rparr>)"
      unfolding poll_one_task [OF v w] if_P [OF True] using run [of "bump_seq v s"] Cons.prems(1) by simp
    then show ?thesis
      using fl1 Cons.prems(1) ready by (intro exI [of _ "bump_seq v s"]) simp
  next
    case False
    have "(if (bump_seq v s ! w AND 1 \<noteq> 0) = side then 1 else 2) \<le> count_list ws w"
      using False Cons.prems(1,3) v bump_parity [of v s w] by (auto split: if_splits)
    then obtain s' where "length s' = 4"
        "mix_wait_for_task_completed env ts ws slot (one_task side w t (sys\<lparr>sys_seq := bump_seq v s\<rparr>)) = Some (done\<lparr>sys_seq := s'\<rparr>)"
      using Cons.IH [of "bump_seq v s"] Cons.prems(1,2) by auto
    moreover have "nvm_worker_poll env ts v (one_task side w t (sys\<lparr>sys_seq := s\<rparr>)) = Some (one_task side w t (sys\<lparr>sys_seq := bump_seq v s\<rparr>))"
      unfolding poll_one_task [OF v w] if_not_P [OF False] by (rule refl)
    ultimately show ?thesis using fl1 by (intro exI [of _ s']) simp
  qed
qed

section \<open>Several blocks of the NVM area\<close>

lemma nvm_pos_word:
  assumes "layout_ok st" "off + n \<le> nvm_blocks st" "0 < n"
  shows "unat (ni_nvm_addr (ns_nvm st) + of_nat off * BLOCK_SIZE) = nvm_pos st off"
    "nvm_pos st off + n * 4096 \<le> unat (bi_meta_addr (ns_buffer st))" "n * 4096 < 2 ^ 64"
proof -
  show "unat (ni_nvm_addr (ns_nvm st) + of_nat off * BLOCK_SIZE) = nvm_pos st off"
    using positions(1) [OF assms(1), of off] assms(2,3) by simp
  have "(off + n) * 4096 \<le> nvm_blocks st * 4096" using assms(2) by (rule mult_le_mono1)
  then show l: "nvm_pos st off + n * 4096 \<le> unat (bi_meta_addr (ns_buffer st))"
    using assms(1) by (simp add: layout_ok_def nvm_pos_def algebra_simps)
  show "n * 4096 < 2 ^ 64" using l unat_less_exp [of "bi_meta_addr (ns_buffer st)"] by simp
qed

text \<open>The persistent memory when \<open>bytes\<close> have been stored from NVM block \<open>off\<close> on: no other byte differs.\<close>

definition nvm_written :: "nvm_state \<Rightarrow> nat \<Rightarrow> u8 list \<Rightarrow> nvm_state" where
  "nvm_written st off bytes = st\<lparr>ns_mem := take (nvm_pos st off) (ns_mem st) @ bytes @
     drop (nvm_pos st off + length bytes) (ns_mem st)\<rparr>"

lemma nvm_written_areas [simp]:
  "ns_nvm (nvm_written st off bytes) = ns_nvm st" "ns_buffer (nvm_written st off bytes) = ns_buffer st"
  by (simp_all add: nvm_written_def)

lemma nvm_write_blocks:
  assumes cpy: "pmem_copies cpy" and ok: "layout_ok st" and n: "off + n \<le> nvm_blocks st" "0 < n"
    and src: "n * 4096 \<le> length src"
  obtains st' where "mix_nvm_write cpy st src (of_nat n) (of_nat off) = Some (st', of_nat n)" "layout_ok st'"
    "ns_nvm st' = ns_nvm st" "ns_buffer st' = ns_buffer st"
    "mix_nvm_read st' (of_nat n) (of_nat off) = Some (take (n * 4096) src, of_nat n)"
    "same_nvm_data st st' (\<lambda>j. j < off \<or> off + n \<le> j)" "same_buffer_data st st' (\<lambda>_. True)" "same_buffer_desc st st' (\<lambda>_. True)"
    "st' = nvm_written st off (take (n * 4096) src)"
proof -
  note p = nvm_pos_word [OF ok n]
  have "n < 2 ^ 64" using p(3) by simp
  then have un: "unat (of_nat n * BLOCK_SIZE :: u64) = n * 4096"
    using p(3) by (subst unat_mult_bounded) (simp_all add: unsigned_of_nat take_bit_nat_eq_self)
  have len: "length (take (n * 4096) src) = n * 4096" using src by simp
  have end0: "nvm_pos st off + n * 4096 \<le> length (ns_mem st)" using p(2) areas [OF ok] by linarith
  then obtain m where m: "mem_write (ns_mem st) (nvm_pos st off) (take (n * 4096) src) = Some m"
    using mem_write_ok [of "nvm_pos st off" "take (n * 4096) src"] len by auto
  let ?st = "st\<lparr>ns_mem := m\<rparr>"
  have ok': "layout_ok ?st" using layout_frame [OF ok mem_write_length [OF m]] .
  note eqs = data_eq [OF ok] data_eq [OF ok', simplified]
  note frame = mem_read_write_disjoint [OF m, unfolded len]
  have "mix_nvm_write cpy st src (of_nat n) (of_nat off) = Some (?st, of_nat n)"
    using cpy m src un p(1) by (simp add: mix_nvm_write_def pmem_copies_def mem_read_def)
  moreover have "mix_nvm_read ?st (of_nat n) (of_nat off) = Some (take (n * 4096) src, of_nat n)"
    using mem_read_write_same [OF m] un p(1) len by (simp add: mix_nvm_read_def)
  moreover have "nvm_pos st j + 4096 \<le> nvm_pos st off \<or> nvm_pos st off + n * 4096 \<le> nvm_pos st j" if "j < off \<or> off + n \<le> j" for j
  proof (cases "j < off")
    case True
    then have "Suc j * 4096 \<le> off * 4096" by (intro mult_le_mono1) simp
    then show ?thesis by (simp add: nvm_pos_def)
  next
    case False
    then have "(off + n) * 4096 \<le> j * 4096" using that by (intro mult_le_mono1) simp
    then show ?thesis by (simp add: nvm_pos_def algebra_simps)
  qed
  then have "same_nvm_data st ?st (\<lambda>j. j < off \<or> off + n \<le> j)"
    unfolding same_defs by (auto simp: eqs intro!: frame)
  moreover have "nvm_pos st off + n * 4096 \<le> buffer_pos st j \<and> nvm_pos st off + n * 4096 \<le> meta_pos st j"
    if "j < buffer_blocks st" for j
    using p(2) buffer_range [OF ok that] meta_range [OF ok that] areas(1) [OF ok] by linarith
  then have "same_buffer_data st ?st (\<lambda>_. True)" "same_buffer_desc st ?st (\<lambda>_. True)"
    unfolding same_defs by (auto simp: eqs intro!: frame arg_cong [of _ _ "map_option meta_of_bytes"])
  moreover have "?st = nvm_written st off (take (n * 4096) src)"
    using m len end0 by (simp add: nvm_written_def mem_write_def)
  ultimately show thesis using that [of ?st] ok' by simp
qed

text \<open>The same block by block.\<close>

definition nvm_area :: "nvm_state \<Rightarrow> u8 list" where
  "nvm_area st = drop (unat (ni_nvm_addr (ns_nvm st))) (ns_mem st)"

lemma nvm_data_area:
  assumes "layout_ok st" "j < nvm_blocks st"
  shows "nvm_data st j = Some (chunk 4096 (nvm_area st) j)"
proof -
  have "nvm_pos st j + 4096 \<le> length (ns_mem st)"
    using nvm_pos_word(2) [OF assms(1), of j 1] areas [OF assms(1)] assms(2) by simp
  then show ?thesis
    using data_eq(3) [OF assms] by (simp add: mem_read_def chunk_def nvm_area_def nvm_pos_def add.commute)
qed

lemma nvm_read_area:
  assumes "layout_ok st" "off + n \<le> nvm_blocks st" "0 < n"
  shows "mix_nvm_read st (of_nat n) (of_nat off) = Some (take (n * 4096) (drop (off * 4096) (nvm_area st)), of_nat n)"
    "(off + n) * 4096 \<le> length (nvm_area st)"
proof -
  note p = nvm_pos_word [OF assms]
  have n: "n < 2 ^ 64" using p(3) by simp
  have un: "unat (of_nat n * BLOCK_SIZE :: u64) = n * 4096"
    using p(3) n by (subst unat_mult_bounded) (simp_all add: unsigned_of_nat take_bit_nat_eq_self)
  have end0: "nvm_pos st off + n * 4096 \<le> length (ns_mem st)" using p(2) areas [OF assms(1)] by linarith
  then show "mix_nvm_read st (of_nat n) (of_nat off) = Some (take (n * 4096) (drop (off * 4096) (nvm_area st)), of_nat n)"
    using un p(1) by (simp add: mix_nvm_read_def mem_read_def nvm_area_def nvm_pos_def add.commute)
  show "(off + n) * 4096 \<le> length (nvm_area st)"
    using end0 by (simp add: nvm_area_def nvm_pos_def algebra_simps)
qed

lemma nvm_read_blocks:
  assumes "layout_ok st" "off + n \<le> nvm_blocks st" "0 < n"
  shows "mix_nvm_read st (of_nat n) (of_nat off) = Some (concat (map (\<lambda>j. the (nvm_data st j)) [off..<off + n]), of_nat n)"
proof -
  have "take (n * 4096) (drop (off * 4096) (nvm_area st)) = concat (map (\<lambda>i. chunk 4096 (nvm_area st) (off + i)) [0..<n])"
    by (rule concat_chunks [OF nvm_read_area(2) [OF assms]])
  also have "map (\<lambda>i. chunk 4096 (nvm_area st) (off + i)) [0..<n] = map (\<lambda>j. the (nvm_data st j)) [off..<off + n]"
    using assms(2) by (intro nth_equalityI) (simp_all add: nvm_data_area [OF assms(1)])
  finally show ?thesis using nvm_read_area(1) [OF assms] by simp
qed

lemma nvm_written_block:
  assumes "layout_ok st" "off + n \<le> nvm_blocks st" "i < n"
    "mix_nvm_read st (of_nat n) (of_nat off) = Some (take (n * 4096) src, of_nat n)"
  shows "nvm_data st (off + i) = Some (chunk 4096 src i)"
proof -
  have n: "0 < n" using assms(3) by simp
  have "take (n * 4096) (drop (off * 4096) (nvm_area st)) = take (n * 4096) src"
    using nvm_read_area(1) [OF assms(1,2) n] assms(4) by simp
  then have "chunk 4096 (nvm_area st) (off + i) = chunk 4096 src i"
    using chunk_take [OF assms(3), of 4096] by (metis chunk_drop)
  then show ?thesis using nvm_data_area [OF assms(1), of "off + i"] assms(2,3) by simp
qed

section \<open>Idle systems and fair schedules\<close>

definition idle :: "'s system \<Rightarrow> bool" where
  "idle sys \<longleftrightarrow> sys_nvm_queue sys = replicate 4 [] \<and> sys_buffer_queue sys = replicate 4 [] \<and>
     0 < sys_queue_size sys \<and> length (sys_seq sys) = 4"

text \<open>Every worker polls at least twice, so each of its queues has its turn.\<close>

definition fair :: "nat list \<Rightarrow> bool" where
  "fair ws \<longleftrightarrow> set ws \<subseteq> {..<4} \<and> (\<forall>w < 4. 2 \<le> count_list ws w)"

lemma idle_no_tasks: "idle sys \<Longrightarrow> no_tasks (sys\<lparr>sys_seq := s\<rparr>) = sys\<lparr>sys_seq := s\<rparr>"
  by (cases sys) (simp add: idle_def no_tasks_def)

text \<open>A task that finishes its request in one step: the caller returns from its loop.\<close>

lemma post_and_wait:
  assumes i: "idle sys" and f: "fair ws" and w: "w < 4"
    and run: "\<And>s. length s = 4 \<Longrightarrow> nvm_worker_task env ts w t (sys\<lparr>sys_seq := s\<rparr>) = Some (done\<lparr>sys_seq := s\<rparr>)"
    and fl: "0 < sys_inflight sys ! slot" "sys_inflight done ! slot \<le> 0"
  obtains s' where "length s' = 4"
    "mix_wait_for_task_completed env ts ws slot
       (if side then sys\<lparr>sys_nvm_queue := fst (put_task (sys_queue_size sys) (sys_nvm_queue sys) w t)\<rparr>
        else sys\<lparr>sys_buffer_queue := fst (put_task (sys_queue_size sys) (sys_buffer_queue sys) w t)\<rparr>) =
     Some (done\<lparr>sys_seq := s'\<rparr>)"
proof -
  have q: "(if side then sys\<lparr>sys_nvm_queue := fst (put_task (sys_queue_size sys) (sys_nvm_queue sys) w t)\<rparr>
      else sys\<lparr>sys_buffer_queue := fst (put_task (sys_queue_size sys) (sys_buffer_queue sys) w t)\<rparr>) =
      one_task side w t (sys\<lparr>sys_seq := sys_seq sys\<rparr>)"
    using i w by (cases sys) (simp add: idle_def put_task_def one_task_def no_tasks_def)
  have s: "length (sys_seq sys) = 4" using i by (simp add: idle_def)
  have c: "(if (sys_seq sys ! w AND 1 \<noteq> 0) = side then 1 else 2) \<le> count_list ws w" "set ws \<subseteq> {..<4}"
    using f w by (fastforce simp: fair_def)+
  have r: "nvm_worker_task env ts w t (no_tasks (sys\<lparr>sys_seq := s\<rparr>)) = Some (done\<lparr>sys_seq := s\<rparr>)" if "length s = 4" for s
    using run [OF that] idle_no_tasks [OF i] by simp
  from wait_one_task [OF w r fl s c(2,1)] show thesis using that unfolding q by blast
qed

lemma put_task_idle: "idle sys \<Longrightarrow> w < 4 \<Longrightarrow> snd (put_task (sys_queue_size sys) (sys_buffer_queue sys) w t)"
  by (simp add: idle_def put_task_def)

section \<open>Requests to the NVM area\<close>

text \<open>The operation of a request: the flags of the caller must not name a second one.\<close>

definition plain_flags :: "u64 \<Rightarrow> bool" where
  "plain_flags flags \<longleftrightarrow> flags AND (MIX_READ OR MIX_WRITE OR MIX_CLEAR) = 0"

lemma plain_opcode:
  assumes "plain_flags flags" "op = MIX_READ \<or> op = MIX_WRITE"
  shows "(flags OR op) AND (MIX_READ OR MIX_WRITE OR MIX_CLEAR) = op" "(op OR flags) AND (MIX_READ OR MIX_WRITE OR MIX_CLEAR) = op"
    "(flags OR op) AND (MIX_READ OR MIX_WRITE) = op" "(op OR flags) AND (MIX_READ OR MIX_WRITE) = op"
    "op = MIX_WRITE \<Longrightarrow> ((flags OR op) OR MIX_CLEAR) AND (MIX_READ OR MIX_WRITE) = op"
proof -
  let ?m = "MIX_READ OR MIX_WRITE OR MIX_CLEAR"
  have f: "flags AND ?m = 0" using assms(1) by (simp add: plain_flags_def)
  have "flags AND (MIX_READ OR MIX_WRITE) = (flags AND ?m) AND (MIX_READ OR MIX_WRITE)"
    by (rule bit_word_eqI) (auto simp: bit_and_iff bit_or_iff)
  then have g: "flags AND (MIX_READ OR MIX_WRITE) = 0" using f by simp
  have "op AND ?m = op" "op AND (MIX_READ OR MIX_WRITE) = op" "MIX_CLEAR AND (MIX_READ OR MIX_WRITE) = 0"
    using assms(2) by (auto simp: MIX_READ_def MIX_WRITE_def MIX_CLEAR_def)
  with f g show "(flags OR op) AND ?m = op" "(op OR flags) AND ?m = op"
    "(flags OR op) AND (MIX_READ OR MIX_WRITE) = op" "(op OR flags) AND (MIX_READ OR MIX_WRITE) = op"
    "((flags OR op) OR MIX_CLEAR) AND (MIX_READ OR MIX_WRITE) = op"
    by (simp_all add: bit.conj_disj_distrib2)
qed

lemma flags_distinct [simp]:
  "MIX_WRITE \<noteq> MIX_READ" "MIX_READ \<noteq> MIX_WRITE" "MIX_WRITE \<noteq> MIX_CLEAR" "MIX_READ \<noteq> MIX_CLEAR" "SSD_TASK \<noteq> NVM_TASK" "NVM_TASK \<noteq> SSD_TASK"
  by (simp_all add: MIX_READ_def MIX_WRITE_def MIX_CLEAR_def SSD_TASK_def NVM_TASK_def)

lemma small_words:
  assumes "n < 2 ^ 31"
  shows "unat (of_nat n :: u64) = n" "sint (of_nat n :: u64) = int n" "sint (ucast (of_nat n :: u64) :: u32) = int n"
    "scast (ucast (of_nat n :: u64) :: u32) = (of_nat n :: u64)"
proof -
  show u: "unat (of_nat n :: u64) = n" using assms by (simp add: unsigned_of_nat take_bit_nat_eq_self)
  have v: "unat (ucast (of_nat n :: u64) :: u32) = n"
    using assms by (simp add: unsigned_ucast_eq unsigned_of_nat take_bit_nat_eq_self)
  show s: "sint (ucast (of_nat n :: u64) :: u32) = int n" using assms v by (subst sint_small) simp_all
  have "int n < 2 ^ 63" using assms by simp
  then have "signed_take_bit 63 (int n) = int n" by (intro signed_take_bit_int_eq_self) simp_all
  then show "sint (of_nat n :: u64) = int n" by (simp add: signed_of_nat)
  show "scast (ucast (of_nat n :: u64) :: u32) = (of_nat n :: u64)" using s by (metis of_int_of_nat_eq of_int_sint)
qed

text \<open>A request that ends below the threshold is one of the NVM area.\<close>

definition nvm_request :: "nvm_state \<Rightarrow> nat \<Rightarrow> nat \<Rightarrow> bool" where
  "nvm_request nvm off n \<longleftrightarrow> 0 < n \<and> off + n < 1928765 \<and> off + n \<le> nvm_blocks nvm"

lemma nvm_request_words:
  assumes "nvm_request nvm off n"
  shows "(of_nat off + of_nat n :: u64) < sched_threshold" "n < 2 ^ 31" "unat ((of_nat off :: u64) AND (of_nat NVM_QUEUE_NUM - 1)) < 4"
proof -
  have "off + n < 1928765" using assms by (simp add: nvm_request_def)
  then show "(of_nat off + of_nat n :: u64) < sched_threshold" "n < 2 ^ 31"
    by (simp_all add: sched_threshold_def word_less_nat_alt unsigned_of_nat take_bit_nat_eq_self flip: of_nat_add)
  show "unat ((of_nat off :: u64) AND (of_nat NVM_QUEUE_NUM - 1)) < 4"
    using unat_and_mask [of "of_nat off :: u64" 2] by (simp add: NVM_QUEUE_NUM_def)
qed

text \<open>A write of \<open>n\<close> blocks is executed and the caller returns, whatever the order of the polls.\<close>

lemma nvm_write_completes:
  assumes cpy: "pmem_copies (env_cpy env)" and ok: "layout_ok (sys_nvm sys)" and i: "idle sys" and f: "fair ws"
    and slot: "slot < length (sys_inflight sys)" and r: "nvm_request (sys_nvm sys) off n" and src: "n * 4096 \<le> length src"
    and fl: "plain_flags flags"
  obtains sys' where "mixdk_write env ts ws junk src (of_nat n) (of_nat off) flags slot sys = Some (sys', of_nat n)"
    "idle sys'" "layout_ok (sys_nvm sys')" "nvm_blocks (sys_nvm sys') = nvm_blocks (sys_nvm sys)"
    "length (sys_inflight sys') = length (sys_inflight sys)" "sys_out sys' = sys_out sys" "sys_inflight sys' ! slot = 0"
    "mix_nvm_read (sys_nvm sys') (of_nat n) (of_nat off) = Some (take (n * 4096) src, of_nat n)"
    "same_nvm_data (sys_nvm sys) (sys_nvm sys') (\<lambda>j. j < off \<or> off + n \<le> j)"
    "same_buffer_data (sys_nvm sys) (sys_nvm sys') (\<lambda>_. True)" "same_buffer_desc (sys_nvm sys) (sys_nvm sys') (\<lambda>_. True)"
    "sys' = sys\<lparr>sys_nvm := nvm_written (sys_nvm sys) off (take (n * 4096) src), sys_inflight := (sys_inflight sys)[slot := 0],
       sys_read_ptrs := (sys_read_ptrs sys)[slot := (False, False)], sys_seq := sys_seq sys'\<rparr>"
proof -
  have n: "0 < n" "off + n \<le> nvm_blocks (sys_nvm sys)" using r by (simp_all add: nvm_request_def)
  note w = nvm_request_words [OF r]
  note sw = small_words [OF w(2)]
  obtain nvm' where m: "mix_nvm_write (env_cpy env) (sys_nvm sys) src (of_nat n) (of_nat off) = Some (nvm', of_nat n)"
      "layout_ok nvm'" "ns_nvm nvm' = ns_nvm (sys_nvm sys)"
      "mix_nvm_read nvm' (of_nat n) (of_nat off) = Some (take (n * 4096) src, of_nat n)"
      "same_nvm_data (sys_nvm sys) nvm' (\<lambda>j. j < off \<or> off + n \<le> j)" "same_buffer_data (sys_nvm sys) nvm' (\<lambda>_. True)"
      "same_buffer_desc (sys_nvm sys) nvm' (\<lambda>_. True)" "nvm' = nvm_written (sys_nvm sys) off (take (n * 4096) src)"
    by (rule nvm_write_blocks [OF cpy ok n(2,1) src]) blast
  let ?w = "unat ((of_nat off :: u64) AND (of_nat NVM_QUEUE_NUM - 1))"
  define t where "t = \<lparr>task_buf = src, task_len = of_nat n, task_offset = of_nat off, task_inflight = slot, task_opcode = flags OR MIX_WRITE,
            task_type = NVM_TASK, task_queue_idx = ucast (of_nat off mod of_nat NVM_QUEUE_NUM :: u64), task_original = None\<rparr>"
  have tf: "task_inflight t = slot" "task_offset t = of_nat off" "task_len t = of_nat n" by (simp_all add: t_def)
  define sys0 where "sys0 = sys\<lparr>sys_inflight := (sys_inflight sys)[slot := int n],
    sys_read_ptrs := (sys_read_ptrs sys)[slot := (False, False)]\<rparr>"
  define sys1 where "sys1 = sys\<lparr>sys_nvm := nvm', sys_inflight := (sys_inflight sys)[slot := 0],
    sys_read_ptrs := (sys_read_ptrs sys)[slot := (False, False)]\<rparr>"
  have "nvm_worker_task env ts ?w t (sys0\<lparr>sys_seq := s\<rparr>) = Some (sys1\<lparr>sys_seq := s\<rparr>)" for s
    using m(1) slot sw plain_opcode [OF fl, of MIX_WRITE]
    by (cases sys) (simp add: nvm_worker_task_def t_def sys0_def sys1_def fetch_sub_def arr_get_def arr_set_def Let_def)
  moreover have "idle sys0" "0 < sys_inflight sys0 ! slot" "sys_inflight sys1 ! slot \<le> 0"
    using i n slot by (simp_all add: sys0_def sys1_def idle_def)
  ultimately obtain s' where s': "length s' = 4"
    "mix_wait_for_task_completed env ts ws slot (sys0\<lparr>sys_nvm_queue := fst (put_task (sys_queue_size sys0) (sys_nvm_queue sys0) ?w t)\<rparr>) =
      Some (sys1\<lparr>sys_seq := s'\<rparr>)"
    using post_and_wait [of sys0 ws ?w env ts t sys1 slot True] f w(3) by auto
  then have "mixdk_write env ts ws junk src (of_nat n) (of_nat off) flags slot sys = Some (sys1\<lparr>sys_seq := s'\<rparr>, of_nat n)"
    using slot w(1) sw tf
    by (simp add: mixdk_write_def init_io_task_def mix_post_task_to_io_def mix_post_task_to_metadata_def arr_set_def Let_def
        split_beta flip: t_def sys0_def)
  then show thesis
    using that [of "sys1\<lparr>sys_seq := s'\<rparr>"] m(2-7) s'(1) i slot by (simp add: sys1_def idle_def nvm_blocks_def flip: m(8))
qed

lemma nvm_read_completes:
  assumes i: "idle sys" and f: "fair ws" and slot: "slot < length (sys_inflight sys)" "slot < length (sys_out sys)"
    and r: "nvm_request (sys_nvm sys) off n" and fl: "plain_flags flags"
    and data: "mix_nvm_read (sys_nvm sys) (of_nat n) (of_nat off) = Some (bytes, of_nat n)"
  obtains sys' where "mixdk_read env ts ws junk (of_nat n) (of_nat off) flags slot sys = Some (sys', of_nat n)"
    "idle sys'" "sys' = sys\<lparr>sys_inflight := (sys_inflight sys)[slot := 0], sys_out := (sys_out sys)[slot := bytes],
       sys_read_ptrs := (sys_read_ptrs sys)[slot := (False, False)], sys_seq := sys_seq sys'\<rparr>"
proof -
  have n: "0 < n" using r by (simp add: nvm_request_def)
  note w = nvm_request_words [OF r]
  note sw = small_words [OF w(2)]
  let ?w = "unat ((of_nat off :: u64) AND (of_nat NVM_QUEUE_NUM - 1))"
  define t where "t = \<lparr>task_buf = sys_out sys ! slot, task_len = of_nat n, task_offset = of_nat off, task_inflight = slot, task_opcode = MIX_READ OR flags,
            task_type = NVM_TASK, task_queue_idx = ucast (of_nat off mod of_nat NVM_QUEUE_NUM :: u64), task_original = None\<rparr>"
  have tf: "task_inflight t = slot" "task_offset t = of_nat off" "task_len t = of_nat n" by (simp_all add: t_def)
  define sys0 where "sys0 = sys\<lparr>sys_inflight := (sys_inflight sys)[slot := int n],
    sys_read_ptrs := (sys_read_ptrs sys)[slot := (False, False)]\<rparr>"
  define sys1 where "sys1 = sys\<lparr>sys_inflight := (sys_inflight sys)[slot := 0], sys_out := (sys_out sys)[slot := bytes],
    sys_read_ptrs := (sys_read_ptrs sys)[slot := (False, False)]\<rparr>"
  have "nvm_worker_task env ts ?w t (sys0\<lparr>sys_seq := s\<rparr>) = Some (sys1\<lparr>sys_seq := s\<rparr>)" for s
    using data slot sw plain_opcode [OF fl, of MIX_READ]
    by (cases sys) (simp add: nvm_worker_task_def t_def sys0_def sys1_def fetch_sub_def arr_get_def arr_set_def Let_def)
  moreover have "idle sys0" "0 < sys_inflight sys0 ! slot" "sys_inflight sys1 ! slot \<le> 0"
    using i n slot by (simp_all add: sys0_def sys1_def idle_def)
  ultimately obtain s' where s': "length s' = 4"
    "mix_wait_for_task_completed env ts ws slot (sys0\<lparr>sys_nvm_queue := fst (put_task (sys_queue_size sys0) (sys_nvm_queue sys0) ?w t)\<rparr>) =
      Some (sys1\<lparr>sys_seq := s'\<rparr>)"
    using post_and_wait [of sys0 ws ?w env ts t sys1 slot True] f w(3) by auto
  then have "mixdk_read env ts ws junk (of_nat n) (of_nat off) flags slot sys = Some (sys1\<lparr>sys_seq := s'\<rparr>, of_nat n)"
    using slot w(1) sw tf
    by (simp add: mixdk_read_def init_io_task_def mix_post_task_to_io_def mix_post_task_to_metadata_def arr_get_def arr_set_def Let_def
        split_beta flip: t_def sys0_def)
  then show thesis
    using that [of "sys1\<lparr>sys_seq := s'\<rparr>"] s'(1) i by (simp add: sys1_def idle_def)
qed

section \<open>Requests to the SSD\<close>

text \<open>The contract of \<open>mix_ssd_write\<close> and \<open>mix_ssd_read\<close> for requests within the \<open>cap\<close> blocks of the SSD,
  whose content is \<open>blk\<close>.\<close>

definition ssd_device :: "'s environment \<Rightarrow> ('s \<Rightarrow> u64 \<Rightarrow> u8 list) \<Rightarrow> nat \<Rightarrow> bool" where
  "ssd_device env blk cap \<longleftrightarrow>
     (\<forall>s buf n off flags. off + n \<le> cap \<and> n * 4096 \<le> length buf \<longrightarrow>
        (\<exists>s'. env_ssd_write env s buf (of_nat n) (of_nat off) flags = Some s' \<and>
           (\<forall>b < 2 ^ 64. blk s' (of_nat b) = (if off \<le> b \<and> b < off + n then chunk 4096 buf (b - off) else blk s (of_nat b))))) \<and>
     (\<forall>s n off flags. off + n \<le> cap \<longrightarrow>
        env_ssd_read env s (of_nat n) (of_nat off) flags = Some (concat (map (\<lambda>j. blk s (of_nat (off + j))) [0..<n])))"

lemma ram_env_device: "cap < 2 ^ 64 \<Longrightarrow> ssd_device ram_env id cap"
  by (auto simp: ssd_device_def ram_env_def unsigned_of_nat take_bit_nat_eq_self)

text \<open>\<open>mix_buffer_migrating\<close> is false as long as one segment is not flagged; a write to the buffer
  touches its own segment only.\<close>

definition ssd_open :: "metadata \<Rightarrow> nat \<Rightarrow> bool" where
  "ssd_open md i \<longleftrightarrow> length (md_segments md) = 4 \<and> (\<exists>j < 4. j \<noteq> i \<and> \<not> sg_migration (md_segments md ! j))"

lemma ssd_open_migrating: "ssd_open md i \<Longrightarrow> mix_buffer_migrating md = Some False"
  by (auto simp: ssd_open_def mix_buffer_migrating_def mix_segment_migrating_def arr_get_def less_Suc_eq numeral_eq_Suc)

lemma ssd_open_other: "ssd_open md i \<Longrightarrow> same_other_segments i md md' \<Longrightarrow> ssd_open md' i"
  by (auto simp: ssd_open_def same_other_segments_def)

lemma ssd_range:
  assumes "k + n < 2 ^ 63"
  shows "\<not> (of_nat (k + 1928765) + of_nat n :: u64) < sched_threshold" "of_nat (k + 1928765) - sched_threshold = (of_nat k :: u64)"
proof -
  have "unat (of_nat (k + 1928765 + n) :: u64) = k + 1928765 + n"
    using assms by (simp only: unsigned_of_nat) (simp add: take_bit_nat_eq_self)
  then show "\<not> (of_nat (k + 1928765) + of_nat n :: u64) < sched_threshold"
    by (simp add: sched_threshold_def word_less_nat_alt flip: of_nat_add)
  show "of_nat (k + 1928765) - sched_threshold = (of_nat k :: u64)" by (simp add: sched_threshold_def)
qed

abbreviation sys_store :: "'s system \<Rightarrow> (metadata \<times> nvm_state \<times> 's) \<times> int list" where
  "sys_store sys \<equiv> ((sys_meta sys, sys_nvm sys, sys_ssd sys), sys_completed sys)"

text \<open>A write of one block goes to the segment of the address modulo 4, and the caller returns.\<close>

lemma buffered_write_completes:
  assumes cpy: "pmem_copies (env_cpy env)" and i: "idle sys" and f: "fair ws"
    and slot: "slot < length (sys_inflight sys)" and fl: "plain_flags flags" and src: "4096 \<le> length src"
    and k: "k < 2 ^ 32 - 1" "i = k mod 4" and inv: "seg_inv i n (sys_store sys)" "n < unat (md_per_block_num (sys_meta sys))"
    and new: "hash_stack (seg_hash (sys_meta sys) i) (of_nat k) = []"
  obtains sys' where "mixdk_write env ts ws junk src 1 (of_nat (k + 1928765)) flags slot sys = Some (sys', 1)"
    "idle sys'" "sys_ssd sys' = sys_ssd sys" "sys_completed sys' = sys_completed sys" "sys_out sys' = sys_out sys"
    "length (sys_inflight sys') = length (sys_inflight sys)" "sys_queue_size sys' = sys_queue_size sys"
    "seg_inv i (Suc n) (sys_store sys')" "same_other_segments i (sys_meta sys) (sys_meta sys')"
    "seg_view blk i (fst (sys_store sys')) = (seg_view blk i (fst (sys_store sys)))(of_nat k := take 4096 src)"
    "hash_stack (seg_hash (sys_meta sys') i) (of_nat k) = [of_nat n]"
proof -
  have kw: "k + 1 < 2 ^ 63" using k(1) by simp
  note r = ssd_range [OF kw]
  have w: "unat (of_nat k AND 3 :: u64) = i"
    using unat_and_mask [of "of_nat k :: u64" 2] k by (simp add: unsigned_of_nat take_bit_nat_eq_self)
  have key: "(ucast (of_nat k :: u64) :: u32) = of_nat k" "(of_nat k :: u32) \<noteq> -1"
  proof -
    have u: "unat (of_nat k :: u32) = k" "unat (of_nat k :: u64) = k" using k(1) by (simp_all add: unsigned_of_nat take_bit_nat_eq_self)
    then show "(of_nat k :: u32) \<noteq> -1" using k(1) by (auto simp: unsigned_minus_1_eq_mask mask_eq_exp_minus_1)
    show "(ucast (of_nat k :: u64) :: u32) = of_nat k" using u k(1) by (simp add: word_unat_eq_iff unat_ucast_down)
  qed
  define t where "t = \<lparr>task_buf = src, task_len = 1, task_offset = of_nat k, task_inflight = slot, task_opcode = flags OR MIX_WRITE,
            task_type = SSD_TASK, task_queue_idx = of_nat slot, task_original = None\<rparr>"
  have tf: "task_inflight t = slot" "task_offset t = of_nat k" "task_len t = 1" "task_buf t = src" "task_opcode t = flags OR MIX_WRITE"
    by (simp_all add: t_def)
  have p: "of_nat k = (ucast (task_offset t) :: u32)" "4096 \<le> length (task_buf t)" using tf key src by simp_all
  obtain md' nvm' where m:
    "redirect_write env ts t (int i) (sys_store sys) = Some (((md', nvm', sys_ssd sys), sys_completed sys), sint (ucast (task_len t) :: u32))"
    "seg_inv i (Suc n) ((md', nvm', sys_ssd sys), sys_completed sys)" "hash_stack (seg_hash md' i) (of_nat k) = [of_nat n]"
    "same_other_segments i (sys_meta sys) md'"
    "seg_view blk i (md', nvm', sys_ssd sys) = (seg_view blk i (sys_meta sys, sys_nvm sys, sys_ssd sys))(of_nat k := take 4096 (task_buf t))"
    by (rule redirect_write_new [OF cpy inv new p(1) key(2) p(2)]) blast
  define sys0 where "sys0 = sys\<lparr>sys_inflight := (sys_inflight sys)[slot := 1],
    sys_read_ptrs := (sys_read_ptrs sys)[slot := (False, False)]\<rparr>"
  define sys1 where "sys1 = sys\<lparr>sys_meta := md', sys_nvm := nvm', sys_inflight := (sys_inflight sys)[slot := 0],
    sys_read_ptrs := (sys_read_ptrs sys)[slot := (False, False)]\<rparr>"
  have "nvm_worker_task env ts i t (sys0\<lparr>sys_seq := s\<rparr>) = Some (sys1\<lparr>sys_seq := s\<rparr>)" for s
    using m(1) slot plain_opcode [OF fl, of MIX_WRITE] small_words(3) [of 1] 
    by (cases sys) (simp add: nvm_worker_task_def t_def sys0_def sys1_def fetch_sub_def arr_get_def arr_set_def Let_def)
  moreover have i0: "idle sys0" "0 < sys_inflight sys0 ! slot" "sys_inflight sys1 ! slot \<le> 0"
    using i slot by (simp_all add: sys0_def sys1_def idle_def)
  ultimately obtain s' where s': "length s' = 4"
    "mix_wait_for_task_completed env ts ws slot (sys0\<lparr>sys_buffer_queue := fst (put_task (sys_queue_size sys0) (sys_buffer_queue sys0) i t)\<rparr>) =
      Some (sys1\<lparr>sys_seq := s'\<rparr>)"
    using post_and_wait [of sys0 ws i env ts t sys1 slot False] f k(2) by auto
  moreover have "snd (put_task (sys_queue_size sys0) (sys_buffer_queue sys0) i t)" using put_task_idle [OF i0(1)] k(2) by simp
  ultimately have "mixdk_write env ts ws junk src 1 (of_nat (k + 1928765)) flags slot sys = Some (sys1\<lparr>sys_seq := s'\<rparr>, 1)"
    using slot r tf w plain_opcode [OF fl, of MIX_WRITE] small_words [of 1]
    by (simp add: mixdk_write_def init_io_task_def mix_post_task_to_io_def mix_post_task_to_data_def small_threshold_def
        mix_post_small_task_to_buffer_def arr_set_def Let_def split_beta flip: t_def sys0_def of_nat_add)
  then show thesis
    using that [of "sys1\<lparr>sys_seq := s'\<rparr>"] m(2-5) s'(1) i by (simp add: sys1_def idle_def tf)
qed

text \<open>A read above the threshold is one of the SSD.\<close>

lemma ssd_read_completes:
  assumes dev: "ssd_device env blk cap" and o: "mix_buffer_migrating (sys_meta sys) = Some False"
    and slot: "slot < length (sys_inflight sys)" "slot < length (sys_out sys)" and fl: "plain_flags flags"
    and k: "k + n \<le> cap" "k + n < 2 ^ 63" "n < 2 ^ 31"
  shows "mixdk_read env ts ws junk (of_nat n) (of_nat (k + 1928765)) flags slot sys =
    Some (sys\<lparr>sys_inflight := (sys_inflight sys)[slot := int n],
      sys_out := (sys_out sys)[slot := concat (map (\<lambda>j. blk (sys_ssd sys) (of_nat (k + j))) [0..<n])],
      sys_read_ptrs := (sys_read_ptrs sys)[slot := (True, True)]\<rparr>, of_nat n)"
proof -
  have "env_ssd_read env (sys_ssd sys) (of_nat n) (of_nat k) fl = Some (concat (map (\<lambda>j. blk (sys_ssd sys) (of_nat (k + j))) [0..<n]))" for fl
    using dev k(1) by (simp add: ssd_device_def)
  then show ?thesis
    using ssd_range [OF k(2)] slot o plain_opcode [OF fl, of MIX_READ] small_words [OF k(3)]
    by (simp add: mixdk_read_def init_io_task_def mix_post_task_to_io_def mix_post_task_to_data_def mix_post_task_to_ssd_def
        arr_set_def arr_get_def Let_def flip: of_nat_add)
qed

section \<open>Large writes\<close>

text \<open>The subtasks a large write leaves in the queues.\<close>

definition clearing :: "io_task \<Rightarrow> bool" where
  "clearing t \<longleftrightarrow> task_type t = SSD_TASK \<and> task_opcode t AND (MIX_READ OR MIX_WRITE OR MIX_CLEAR) = MIX_WRITE OR MIX_CLEAR"

lemma clearing_ignored: "clearing t \<Longrightarrow> nvm_worker_task env ts q t sys = Some sys"
  by (simp add: clearing_def nvm_worker_task_def Let_def SSD_TASK_def NVM_TASK_def MIX_READ_def MIX_WRITE_def MIX_CLEAR_def)

definition only_clearing :: "'s system \<Rightarrow> bool" where
  "only_clearing sys \<longleftrightarrow> sys_nvm_queue sys = replicate 4 [] \<and> length (sys_buffer_queue sys) = 4 \<and>
     (\<forall>q \<in> set (sys_buffer_queue sys). \<forall>t \<in> set q. clearing t)"

text \<open>The workers poll in the order of the schedule while no caller waits.\<close>

fun run_polls :: "'s environment \<Rightarrow> nat list \<Rightarrow> nat list \<Rightarrow> 's system \<Rightarrow> 's system option" where
  "run_polls env ts [] sys = Some sys"
| "run_polls env ts (w # ws) sys = nvm_worker_poll env ts w sys \<bind> run_polls env ts ws"

lemma poll_clearing:
  assumes "only_clearing sys" "w < 4"
  obtains sys' where "nvm_worker_poll env ts w sys = Some sys'" "only_clearing sys'" "sys_store sys' = sys_store sys"
proof (cases "sys_seq sys ! w AND 1 = 0 \<and> sys_buffer_queue sys ! w \<noteq> []")
  case True
  then obtain t q where q: "sys_buffer_queue sys ! w = t # q" by (cases "sys_buffer_queue sys ! w") auto
  have "t # q \<in> set (sys_buffer_queue sys)" using assms q by (metis nth_mem only_clearing_def)
  then have c: "clearing t" "\<forall>t \<in> set q. clearing t" using assms(1) by (auto simp: only_clearing_def)
  let ?sys = "sys\<lparr>sys_buffer_queue := (sys_buffer_queue sys)[w := q], sys_seq := (sys_seq sys)[w := sys_seq sys ! w + 1]\<rparr>"
  have "nvm_worker_poll env ts w sys = Some ?sys"
    using True q clearing_ignored [OF c(1)] by (simp add: nvm_worker_poll_def get_task_from_buffer_queue_def Let_def)
  moreover have "only_clearing ?sys"
    using assms(1) c(2) by (auto simp: only_clearing_def dest: subsetD [OF set_update_subset_insert])
  ultimately show thesis using that by simp
next
  case False
  let ?sys = "sys\<lparr>sys_seq := (sys_seq sys)[w := sys_seq sys ! w + 1]\<rparr>"
  have "sys_nvm_queue sys ! w = []" using assms by (simp add: only_clearing_def)
  then have "nvm_worker_poll env ts w sys = Some ?sys"
    using False by (auto simp: nvm_worker_poll_def get_task_from_buffer_queue_def get_task_from_nvm_queue_def Let_def)
  moreover have "only_clearing ?sys" using assms(1) by (simp add: only_clearing_def)
  ultimately show thesis using that by simp
qed

lemma run_polls_clearing:
  assumes "only_clearing sys" "set vs \<subseteq> {..<4}"
  shows "\<exists>sys'. run_polls env ts vs sys = Some sys' \<and> sys_store sys' = sys_store sys"
  using assms
proof (induction vs arbitrary: sys)
  case (Cons v vs)
  then obtain sys1 where 1: "nvm_worker_poll env ts v sys = Some sys1" "only_clearing sys1" "sys_store sys1 = sys_store sys"
    using poll_clearing [of sys v env ts] by auto
  then show ?case using Cons.IH [OF 1(2)] Cons.prems(2) by auto
qed simp

lemma post_subtasks_room:
  assumes "\<And>q. q < length qs \<Longrightarrow> length (qs ! q) + length ps \<le> cap" "\<forall>(q, t) \<in> set ps. q < length qs \<and> P t"
    "\<forall>q \<in> set qs. \<forall>t \<in> set q. P t"
  shows "\<exists>qs'. post_subtasks cap ps qs = Some qs' \<and> length qs' = length qs \<and> (\<forall>q \<in> set qs'. \<forall>t \<in> set q. P t)"
  using assms
proof (induction ps arbitrary: qs)
  case (Cons p ps)
  obtain q t where p: "p = (q, t)" by (cases p)
  let ?qs = "qs[q := qs ! q @ [t]]"
  have q: "q < length qs" "length (qs ! q) < cap" using Cons.prems(1) [of q] Cons.prems(2) p by auto
  have "length (?qs ! r) + length ps \<le> cap" if "r < length ?qs" for r
    using that Cons.prems(1) [of r] q by (cases "r = q") simp_all
  moreover have "\<forall>t \<in> set (qs ! q @ [t]). P t" using Cons.prems(2,3) q(1) p by auto
  then have "\<forall>q \<in> set ?qs. \<forall>t \<in> set q. P t" using Cons.prems(3) set_update_subset_insert [of qs q "qs ! q @ [t]"] by blast
  ultimately obtain qs' where "post_subtasks cap ps ?qs = Some qs'" "length qs' = length qs" "\<forall>q \<in> set qs'. \<forall>t \<in> set q. P t"
    using Cons.IH [of ?qs] Cons.prems(2) by auto
  then show ?case using q(2) p by (auto simp: put_task_def)
qed auto

lemma large_write_completes:
  assumes dev: "ssd_device env blk cap" and o: "mix_buffer_migrating (sys_meta sys) = Some False"
    and i: "idle sys" "4 \<le> sys_queue_size sys" and slot: "slot < length (sys_inflight sys)" and fl: "plain_flags flags"
    and k: "k + m \<le> cap" "k + m < 2 ^ 31" "1 < m" and src: "m * 4096 \<le> length src"
  obtains sys' where "mixdk_write env ts ws junk src (of_nat m) (of_nat (k + 1928765)) flags slot sys = Some (sys', of_nat m)"
    "only_clearing sys'" "sys_meta sys' = sys_meta sys" "sys_nvm sys' = sys_nvm sys" "sys_completed sys' = sys_completed sys"
    "\<And>b. b < 2 ^ 64 \<Longrightarrow> blk (sys_ssd sys') (of_nat b) = (if k \<le> b \<and> b < k + m then chunk 4096 src (b - k) else blk (sys_ssd sys) (of_nat b))"
proof -
  have km: "k + m < 2 ^ 63" "m < 2 ^ 31" "k < 2 ^ 31" using k by simp_all
  note r = ssd_range [OF km(1)] and sw = small_words [OF km(2)]
  have uk: "unat (of_nat k :: u64) = k" using small_words [OF km(3)] by simp
  have big: "\<not> of_nat m \<le> (1 :: u64)" "(1 :: u64) < of_nat m" using k(3) sw(1) by (simp_all add: word_le_nat_alt word_less_nat_alt)
  obtain ssd' where ssd': "env_ssd_write env (sys_ssd sys) src (of_nat m) (of_nat k) ((flags OR MIX_WRITE) OR MIX_CLEAR) = Some ssd'"
    "\<forall>b < 2 ^ 64. blk ssd' (of_nat b) = (if k \<le> b \<and> b < k + m then chunk 4096 src (b - k) else blk (sys_ssd sys) (of_nat b))"
    using dev k(1) src unfolding ssd_device_def by meson
  define t where "t = \<lparr>task_buf = src, task_len = of_nat m, task_offset = of_nat k, task_inflight = slot,
     task_opcode = (flags OR MIX_WRITE) OR MIX_CLEAR, task_type = SSD_TASK, task_queue_idx = of_nat slot, task_original = None\<rparr>"
  let ?ps = "mix_post_task_to_buffer_tasks junk t"
  have ps: "?ps = map (\<lambda>i. ((k div 4 + i) mod 4, junk\<lparr>task_inflight := task_inflight t, task_opcode := task_opcode t,
      task_type := task_type t, task_offset := of_nat (k + i), task_len := of_nat ((m + 3 - i) div 4),
      task_original := Some (task_inflight t)\<rparr>)) (filter (\<lambda>i. i < m) [0..<4])"
    by (rule stripe_tasks_of_request) (use k(2) sw(1) uk in \<open>simp_all add: t_def\<close>)
  have "length ?ps \<le> 4" using length_filter_le [of "\<lambda>i. i < m" "[0..<4]"] unfolding ps by simp
  moreover have "((flags OR MIX_WRITE) OR MIX_CLEAR) AND (MIX_READ OR MIX_WRITE OR MIX_CLEAR) =
      ((flags OR MIX_WRITE) AND (MIX_READ OR MIX_WRITE OR MIX_CLEAR)) OR MIX_CLEAR"
    by (rule bit_word_eqI) (auto simp: bit_or_iff bit_and_iff)
  then have "\<forall>(q, u) \<in> set ?ps. q < 4 \<and> clearing u"
    using plain_opcode(1) [OF fl, of MIX_WRITE] unfolding ps by (auto simp: clearing_def t_def)
  ultimately obtain qs where qs: "post_subtasks (sys_queue_size sys) ?ps (replicate 4 []) = Some qs" "length qs = 4"
      and cl: "\<forall>q \<in> set qs. \<forall>u \<in> set q. clearing u"
    using post_subtasks_room [of "replicate 4 []" ?ps "sys_queue_size sys" clearing] i(2) by auto
  let ?sys = "sys\<lparr>sys_inflight := (sys_inflight sys)[slot := int m], sys_read_ptrs := (sys_read_ptrs sys)[slot := (False, False)],
    sys_buffer_queue := qs, sys_ssd := ssd'\<rparr>"
  have "mixdk_write env ts ws junk src (of_nat m) (of_nat (k + 1928765)) flags slot sys = Some (?sys, of_nat m)"
    using r slot o i(1) big qs(1) ssd'(1) plain_opcode [OF fl, of MIX_WRITE] sw unfolding t_def
    by (simp add: mixdk_write_def init_io_task_def mix_post_task_to_io_def mix_post_task_to_data_def small_threshold_def idle_def
        mix_post_task_to_buffer_def mix_post_task_to_ssd_def arr_set_def Let_def flip: of_nat_add)
  moreover have "only_clearing ?sys" using i(1) cl qs(2) by (simp add: only_clearing_def idle_def)
  ultimately show thesis using that ssd'(2) by simp
qed

end
