(* ===== verification/Fifo_Spec.thy ===== *)
theory Fifo_Spec
  imports Prelude
begin

text \<open>
  The contract of a bounded queue, as the worker threads of \<open>src/src/nvm_worker.cpp\<close> use it:
  one element goes in at a time, one comes out at a time, both report the number of elements
  moved. The queue is described by the list of its elements and its capacity. What clients do
  with it (post a batch, drain it) is proved once from the contract.
\<close>

text \<open>Posting a batch element by element; \<open>None\<close> if one of them is refused.\<close>

fun post_all :: "('q \<Rightarrow> 'e \<Rightarrow> ('q \<times> u32) option) \<Rightarrow> 'q \<Rightarrow> 'e list \<Rightarrow> 'q option" where
  "post_all enq q [] = Some q"
| "post_all enq q (x # xs) =
     (case enq q x of
        None \<Rightarrow> None
      | Some (q', n) \<Rightarrow> if n = 0 then None else post_all enq q' xs)"

text \<open>Draining \<open>n\<close> elements; the result stops early when the queue runs empty.\<close>

fun drain :: "('q \<Rightarrow> ('q \<times> 'e \<times> u32) option) \<Rightarrow> nat \<Rightarrow> 'q \<Rightarrow> ('q \<times> 'e list) option" where
  "drain deq 0 q = Some (q, [])"
| "drain deq (Suc k) q =
     (case deq q of
        None \<Rightarrow> None
      | Some (q', x, n) \<Rightarrow>
          if n = 0 then Some (q', [])
          else map_option (\<lambda>(q'', xs). (q'', x # xs)) (drain deq k q'))"

locale bounded_fifo =
  fixes enq :: "'q \<Rightarrow> 'e \<Rightarrow> ('q \<times> u32) option"
    and deq :: "'q \<Rightarrow> ('q \<times> 'e \<times> u32) option"
    and elems :: "'q \<Rightarrow> 'e list"
    and cap :: "'q \<Rightarrow> nat"
    and fits :: "'q \<Rightarrow> 'e \<Rightarrow> bool"
    and invar :: "'q \<Rightarrow> bool"
  assumes enq_room: "invar q \<Longrightarrow> fits q x \<Longrightarrow> length (elems q) < cap q \<Longrightarrow>
      \<exists>q'. enq q x = Some (q', 1) \<and> invar q' \<and> elems q' = elems q @ [x] \<and>
        cap q' = cap q \<and> fits q' = fits q"
    and enq_full: "invar q \<Longrightarrow> fits q x \<Longrightarrow> \<not> length (elems q) < cap q \<Longrightarrow>
      \<exists>q'. enq q x = Some (q', 0) \<and> invar q' \<and> elems q' = elems q \<and>
        cap q' = cap q \<and> fits q' = fits q"
    and deq_some: "invar q \<Longrightarrow> elems q = x # xs \<Longrightarrow>
      \<exists>q'. deq q = Some (q', x, 1) \<and> invar q' \<and> elems q' = xs \<and>
        cap q' = cap q \<and> fits q' = fits q"
    and deq_none: "invar q \<Longrightarrow> elems q = [] \<Longrightarrow>
      \<exists>q' x. deq q = Some (q', x, 0) \<and> invar q' \<and> elems q' = [] \<and>
        cap q' = cap q \<and> fits q' = fits q"
begin

lemma post_all_appends:
  assumes "invar q" "list_all (fits q) xs" "length (elems q) + length xs \<le> cap q"
  shows "\<exists>q'. post_all enq q xs = Some q' \<and> invar q' \<and> elems q' = elems q @ xs \<and>
    cap q' = cap q \<and> fits q' = fits q"
  using assms
proof (induction xs arbitrary: q)
  case Nil
  then show ?case by simp
next
  case (Cons x xs)
  then obtain q1 where "enq q x = Some (q1, 1)" "invar q1" "elems q1 = elems q @ [x]"
      "cap q1 = cap q" "fits q1 = fits q"
    using enq_room [of q x] by auto
  with Cons.IH [of q1] Cons.prems show ?case by auto
qed

lemma drain_takes:
  assumes "invar q"
  shows "\<exists>q'. drain deq k q = Some (q', take k (elems q)) \<and> invar q' \<and>
    elems q' = drop k (elems q)"
  using assms
proof (induction k arbitrary: q)
  case 0
  then show ?case by simp
next
  case (Suc k)
  show ?case
  proof (cases "elems q")
    case Nil
    with deq_none [OF Suc.prems] show ?thesis by auto
  next
    case (Cons x xs)
    with deq_some [OF Suc.prems] obtain q1 where
      "deq q = Some (q1, x, 1)" "invar q1" "elems q1 = xs" by blast
    with Suc.IH [of q1] Cons show ?thesis by auto
  qed
qed

lemma post_then_drain:
  assumes "invar q" "elems q = []" "list_all (fits q) xs" "length xs \<le> cap q"
  shows "\<exists>q1 q2. post_all enq q xs = Some q1 \<and> drain deq (length xs) q1 = Some (q2, xs) \<and>
    invar q2 \<and> elems q2 = []"
proof -
  obtain q1 where q1: "post_all enq q xs = Some q1" "invar q1" "elems q1 = xs"
    using post_all_appends [OF assms(1,3)] assms(2,4) by auto
  with drain_takes [of q1 "length xs"] show ?thesis by auto
qed

end

end
