(* ===== verification/Mix_Queue.thy ===== *)
theory Mix_Queue
  imports Fifo_Spec
begin

text \<open>
  The bounded task queue of \<open>src/src/mix_queue.c\<close>: a ring buffer of \<open>mask + 1\<close> slots of
  \<open>esize\<close> bytes, addressed by two free-running 32-bit counters \<open>in\<close> and \<open>out\<close> that are
  reduced by \<open>AND mask\<close> only when a slot is addressed. The queue owns the byte buffer
  \<open>data\<close>; every \<open>memcpy\<close> is checked against its real (allocated) size.
\<close>

section \<open>The data structure and its operations\<close>

text \<open>\<open>struct mix_queue\<close>; \<open>q_data\<close> is the allocated byte buffer.\<close>

record mix_queue =
  q_in :: u32
  q_out :: u32
  q_mask :: u32
  q_esize :: u32
  q_data :: "u8 list"

definition queue_min :: "u32 \<Rightarrow> u32 \<Rightarrow> u32" where
  "queue_min a b = (if a > b then b else a)"

definition mix_queue_unused :: "mix_queue \<Rightarrow> u32" where
  "mix_queue_unused queue = (q_mask queue + 1) - (q_in queue - q_out queue)"

text \<open>\<open>fls\<close>: the \<open>bsrl\<close> instruction finds the highest set bit; the zero flag selects \<open>-1\<close>.\<close>

definition fls :: "u32 \<Rightarrow> nat" where
  "fls x = (case find (\<lambda>i. bit x i) (rev [0..<32]) of None \<Rightarrow> 0 | Some r \<Rightarrow> r + 1)"

text \<open>\<open>1UL << fls(x - 1)\<close> is a 64-bit shift whose result is truncated to \<open>unsigned int\<close>.\<close>

definition roundup_pow_of_two :: "u32 \<Rightarrow> u32" where
  "roundup_pow_of_two x = ucast (push_bit (fls (x - 1)) (1 :: u64))"

definition EINVAL :: int where
  "EINVAL = -1"

text \<open>\<open>__mix_queue_init\<close>: the updated queue object and the return code.
  The division \<open>size / esize\<close> traps for \<open>esize = 0\<close>.\<close>

definition mix_queue_init_raw ::
    "u8 list \<Rightarrow> u32 \<Rightarrow> u32 \<Rightarrow> (mix_queue \<times> int) option" where
  "mix_queue_init_raw buffer size0 esize =
     (if esize = 0 then None
      else let size = roundup_pow_of_two (size0 div esize);
               queue = \<lparr>q_in = 0, q_out = 0, q_mask = 0, q_esize = esize, q_data = buffer\<rparr>
           in if size < 2 then Some (queue, EINVAL)
              else Some (queue\<lparr>q_mask := size - 1\<rparr>, 0))"

text \<open>\<open>mix_queue_init\<close>: \<open>buffer\<close> is what \<open>malloc(size)\<close> returned (\<open>None\<close> for \<open>NULL\<close>).
  The outer \<open>None\<close> is a failed \<open>assert\<close>, \<open>Some None\<close> is the returned \<open>NULL\<close>.\<close>

definition mix_queue_init ::
    "u8 list option \<Rightarrow> u32 \<Rightarrow> u32 \<Rightarrow> mix_queue option option" where
  "mix_queue_init buffer size0 esize =
     (if \<not> (size0 > 0 \<and> esize > 0) then None
      else do {
        buf \<leftarrow> buffer;
        (queue, rc) \<leftarrow> mix_queue_init_raw buf size0 esize;
        Some (if rc = EINVAL then None else Some queue)
      })"

text \<open>\<open>__mix_enqueue\<close>: copy \<open>len\<close> elements of \<open>src\<close> to the ring at counter value \<open>off\<close>,
  in at most two pieces; the returned \<open>l\<close> is the size of the first piece in bytes.\<close>

definition mix_enqueue_raw ::
    "mix_queue \<Rightarrow> u8 list \<Rightarrow> u32 \<Rightarrow> u32 \<Rightarrow> (mix_queue \<times> u32) option" where
  "mix_enqueue_raw queue src len0 off0 =
     (let size = q_mask queue + 1; esize = q_esize queue;
          off = off0 AND q_mask queue;
          (off, size, len) = (if esize \<noteq> 1 then (off * esize, size * esize, len0 * esize)
                              else (off, size, len0));
          l = queue_min len (size - off)
      in do {
        first \<leftarrow> mem_read src 0 (unat l);
        data \<leftarrow> mem_write (q_data queue) (unat off) first;
        second \<leftarrow> mem_read src (unat l) (unat (len - l));
        data \<leftarrow> mem_write data 0 second;
        Some (queue\<lparr>q_data := data\<rparr>, l)
      })"

text \<open>\<open>__mix_dequeue\<close>: the \<open>len\<close> elements at counter value \<open>off\<close>, in at most two pieces.\<close>

definition mix_dequeue_raw :: "mix_queue \<Rightarrow> u32 \<Rightarrow> u32 \<Rightarrow> u8 list option" where
  "mix_dequeue_raw queue len0 off0 =
     (let size = q_mask queue + 1; esize = q_esize queue;
          off = off0 AND q_mask queue;
          (off, size, len) = (if esize \<noteq> 1 then (off * esize, size * esize, len0 * esize)
                              else (off, size, len0));
          l = queue_min len (size - off)
      in do {
        first \<leftarrow> mem_read (q_data queue) (unat off) (unat l);
        second \<leftarrow> mem_read (q_data queue) 0 (unat (len - l));
        Some (first @ second)
      })"

definition mix_enqueue :: "mix_queue \<Rightarrow> u8 list \<Rightarrow> u32 \<Rightarrow> (mix_queue \<times> u32) option" where
  "mix_enqueue queue src len0 =
     (let l = mix_queue_unused queue;
          len = (if len0 > l then l else len0)
      in do {
        (queue, _) \<leftarrow> mix_enqueue_raw queue src len (q_in queue);
        Some (queue\<lparr>q_in := q_in queue + len\<rparr>, len)
      })"

text \<open>\<open>mix_dequeue\<close>: the new queue, the bytes stored to \<open>dst\<close> and the number of elements.\<close>

definition mix_dequeue :: "mix_queue \<Rightarrow> u32 \<Rightarrow> (mix_queue \<times> u8 list \<times> u32) option" where
  "mix_dequeue queue len0 =
     (let l = q_in queue - q_out queue
      in if l = 0 then Some (queue, [], l)
         else let len = (if len0 > l then l else len0)
              in do {
                dst \<leftarrow> mix_dequeue_raw queue len (q_out queue);
                Some (queue\<lparr>q_out := q_out queue + len\<rparr>, dst, len)
              })"

text \<open>The lock-free variants, run without interference: the compare-and-exchange moves the
  counter first, the data is copied afterwards.\<close>

definition mix_enqueue_lockfree :: "mix_queue \<Rightarrow> u8 list \<Rightarrow> u32 \<Rightarrow> (mix_queue \<times> u32) option" where
  "mix_enqueue_lockfree queue src len0 =
     (let l = mix_queue_unused queue;
          len = (if len0 > l then l else len0);
          in' = q_in queue
      in do {
        (queue, _) \<leftarrow> mix_enqueue_raw (queue\<lparr>q_in := in' + len\<rparr>) src len in';
        Some (queue, len)
      })"

definition mix_dequeue_lockfree ::
    "mix_queue \<Rightarrow> u32 \<Rightarrow> (mix_queue \<times> u8 list \<times> u32) option" where
  "mix_dequeue_lockfree queue len0 =
     (let l = q_in queue - q_out queue
      in if l = 0 then Some (queue, [], l)
         else let len = (if len0 > l then l else len0);
                  out' = q_out queue
              in do {
                dst \<leftarrow> mix_dequeue_raw (queue\<lparr>q_out := out' + len\<rparr>) len out';
                Some (queue\<lparr>q_out := out' + len\<rparr>, dst, len)
              })"

definition mix_queue_free :: "mix_queue \<Rightarrow> mix_queue" where
  "mix_queue_free queue =
     queue\<lparr>q_data := [], q_esize := 0, q_in := 0, q_out := 0, q_mask := 0\<rparr>"

section \<open>Abstraction and invariant\<close>

definition queue_cap :: "mix_queue \<Rightarrow> nat" where
  "queue_cap q = unat (q_mask q) + 1"

definition queue_used :: "mix_queue \<Rightarrow> nat" where
  "queue_used q = unat (q_in q - q_out q)"

definition queue_es :: "mix_queue \<Rightarrow> nat" where
  "queue_es q = unat (q_esize q)"

text \<open>The elements of the queue, oldest first: the slots at counter values
  \<open>out, out + 1, ..., in - 1\<close>.\<close>

definition queue_list :: "mix_queue \<Rightarrow> u8 list list" where
  "queue_list q =
     map (\<lambda>k. chunk (queue_es q) (q_data q) ((unat (q_out q) + k) mod queue_cap q))
       [0..<queue_used q]"

text \<open>The shape of the ring: a power of two of at least two slots, which fit in the
  allocated buffer and whose byte size does not overflow 32 bits.\<close>

definition ring_ok :: "mix_queue \<Rightarrow> bool" where
  "ring_ok q \<longleftrightarrow> list_ex (\<lambda>n. q_mask q = 2 ^ n - 1) [1..<32] \<and> 0 < queue_es q \<and>
     queue_cap q * queue_es q \<le> length (q_data q) \<and> queue_cap q * queue_es q < 2 ^ 32"

definition queue_ok :: "mix_queue \<Rightarrow> bool" where
  "queue_ok q \<longleftrightarrow> ring_ok q \<and> queue_used q \<le> queue_cap q"

lemmas queue_defs = queue_cap_def queue_used_def queue_es_def

lemma ring_ok_mask:
  assumes "ring_ok q"
  obtains n where "1 \<le> n" "n < 32" "q_mask q = 2 ^ n - 1" "queue_cap q = 2 ^ n"
proof -
  from assms obtain n where n: "1 \<le> n" "n < 32" "q_mask q = 2 ^ n - 1"
    by (auto simp: ring_ok_def list_ex_iff)
  then have "queue_cap q = 2 ^ n" using unat_pow2_minus1 [where 'a = 32, of n] by (simp add: queue_cap_def)
  with n that show thesis by blast
qed

lemma queue_cap_pos: "0 < queue_cap q"
  by (simp add: queue_cap_def)

lemma queue_cap_dvd: "ring_ok q \<Longrightarrow> queue_cap q dvd 2 ^ 32"
  by (erule ring_ok_mask) (metis le_imp_power_dvd less_imp_le)

lemma queue_cap_less: "ring_ok q \<Longrightarrow> queue_cap q < 2 ^ 32"
  by (erule ring_ok_mask) (metis power_strict_increasing_iff one_less_numeral_iff semiring_norm(76))

lemma unat_size: "ring_ok q \<Longrightarrow> unat (q_mask q + 1) = queue_cap q"
  using queue_cap_less [of q] unat_add_bounded [of "q_mask q" 1] by (simp add: queue_cap_def)

lemma unat_off: "ring_ok q \<Longrightarrow> unat (off AND q_mask q) = unat off mod queue_cap q"
  by (erule ring_ok_mask) (simp add: unat_and_mask)

text \<open>The byte offsets of a copy: element counts scaled by \<open>esize\<close>, in both branches of
  \<open>if (esize != 1)\<close>, without overflow.\<close>

definition scaled :: "mix_queue \<Rightarrow> u32 \<Rightarrow> u32" where
  "scaled q x = (if q_esize q \<noteq> 1 then x * q_esize q else x)"

lemma unat_scaled:
  assumes "ring_ok q" "unat x \<le> queue_cap q"
  shows "unat (scaled q x) = unat x * queue_es q"
proof -
  have "unat x * queue_es q \<le> queue_cap q * queue_es q" using assms(2) by (rule mult_le_mono1)
  also have "\<dots> < 2 ^ 32" using assms(1) by (simp add: ring_ok_def)
  finally have "unat x * queue_es q < 2 ^ 32" .
  then show ?thesis by (auto simp: scaled_def queue_es_def unat_mult_bounded)
qed

lemma mix_enqueue_raw_scaled:
  "mix_enqueue_raw q src len off =
     (let l = queue_min (scaled q len) (scaled q (q_mask q + 1) - scaled q (off AND q_mask q))
      in do {
        first \<leftarrow> mem_read src 0 (unat l);
        data \<leftarrow> mem_write (q_data q) (unat (scaled q (off AND q_mask q))) first;
        second \<leftarrow> mem_read src (unat l) (unat (scaled q len - l));
        data \<leftarrow> mem_write data 0 second;
        Some (q\<lparr>q_data := data\<rparr>, l)
      })"
  by (simp add: mix_enqueue_raw_def scaled_def Let_def)

lemma mix_dequeue_raw_scaled:
  "mix_dequeue_raw q len off =
     (let l = queue_min (scaled q len) (scaled q (q_mask q + 1) - scaled q (off AND q_mask q))
      in do {
        first \<leftarrow> mem_read (q_data q) (unat (scaled q (off AND q_mask q))) (unat l);
        second \<leftarrow> mem_read (q_data q) 0 (unat (scaled q len - l));
        Some (first @ second)
      })"
  by (simp add: mix_dequeue_raw_def scaled_def Let_def)

text \<open>How a copy of \<open>n\<close> elements at slot \<open>o\<close> splits at the end of the ring.\<close>

definition first_part :: "mix_queue \<Rightarrow> u32 \<Rightarrow> u32 \<Rightarrow> nat" where
  "first_part q len off = min (unat len) (queue_cap q - unat off mod queue_cap q)"

lemma unat_split:
  fixes off :: u32
  assumes "ring_ok q" "unat len \<le> queue_cap q"
  defines "l \<equiv> queue_min (scaled q len) (scaled q (q_mask q + 1) - scaled q (off AND q_mask q))"
  shows "unat l = first_part q len off * queue_es q"
    and "unat (scaled q len - l) = (unat len - first_part q len off) * queue_es q"
    and "unat (scaled q (off AND q_mask q)) = unat off mod queue_cap q * queue_es q"
proof -
  let ?o = "unat off mod queue_cap q"
  have o: "?o < queue_cap q" by (simp add: queue_cap_pos)
  show off: "unat (scaled q (off AND q_mask q)) = ?o * queue_es q"
    using unat_scaled [OF assms(1), of "off AND q_mask q"] o by (simp add: unat_off [OF assms(1)])
  have size: "unat (scaled q (q_mask q + 1)) = queue_cap q * queue_es q"
    using unat_scaled [OF assms(1), of "q_mask q + 1"] by (simp add: unat_size [OF assms(1)])
  have "?o * queue_es q \<le> queue_cap q * queue_es q" using o by simp
  then have rest: "unat (scaled q (q_mask q + 1) - scaled q (off AND q_mask q))
      = (queue_cap q - ?o) * queue_es q"
    by (simp add: unat_sub_if' off size diff_mult_distrib)
  have len: "unat (scaled q len) = unat len * queue_es q"
    using assms(1,2) by (rule unat_scaled)
  show l: "unat l = first_part q len off * queue_es q"
    by (auto simp: l_def queue_min_def word_less_nat_alt rest len first_part_def min_def
        nat_mult_min_left)
  have "first_part q len off * queue_es q \<le> unat len * queue_es q"
    by (simp add: first_part_def)
  then show "unat (scaled q len - l) = (unat len - first_part q len off) * queue_es q"
    by (simp add: unat_sub_if' len l diff_mult_distrib)
qed

lemma first_part_facts:
  assumes "unat len \<le> queue_cap q"
  shows "first_part q len off \<le> unat len"
    and "unat off mod queue_cap q + first_part q len off \<le> queue_cap q"
    and "unat len - first_part q len off \<le> unat off mod queue_cap q"
    and "i < unat len \<Longrightarrow> first_part q len off \<le> i \<Longrightarrow>
      unat off mod queue_cap q + first_part q len off = queue_cap q"
  using assms mod_less_divisor [OF queue_cap_pos [of q], of "unat off"]
  by (auto simp: first_part_def min_def)

section \<open>The operations on the ring\<close>

text \<open>\<open>__mix_enqueue\<close> writes \<open>src\<close> to the \<open>n\<close> slots from counter value \<open>off\<close> on, and
  leaves every other slot alone.\<close>

lemma mix_enqueue_raw_slots:
  assumes ring: "ring_ok q" and len: "unat len \<le> queue_cap q"
    and src: "unat len * queue_es q \<le> length src"
  obtains data where
    "mix_enqueue_raw q src len off =
       Some (q\<lparr>q_data := data\<rparr>, queue_min (scaled q len)
         (scaled q (q_mask q + 1) - scaled q (off AND q_mask q)))"
    "length data = length (q_data q)"
    "\<And>i. i < queue_cap q \<Longrightarrow>
       chunk (queue_es q) data ((unat off + i) mod queue_cap q) =
         (if i < unat len then chunk (queue_es q) src i
          else chunk (queue_es q) (q_data q) ((unat off + i) mod queue_cap q))"
proof -
  let ?c = "queue_cap q" and ?w = "queue_es q" and ?n = "unat len"
  let ?o = "unat off mod ?c" and ?m = "first_part q len off"
  let ?xs = "take (?m * ?w) src" and ?ys = "take ((?n - ?m) * ?w) (drop (?m * ?w) src)"
  note us = unat_split [OF ring len, of off]
  have o: "?o < ?c" by (simp add: queue_cap_pos)
  note m = first_part_facts [OF len, where off = off]
  have cw: "?c * ?w \<le> length (q_data q)" using ring by (simp add: ring_ok_def)
  have mw: "?m * ?w \<le> length src" using m(1) src by (meson mult_le_mono1 order_trans)
  have nw: "?m * ?w + (?n - ?m) * ?w \<le> length src"
    using m(1) src by (metis add_mult_distrib le_add_diff_inverse)
  have lx: "length ?xs = ?m * ?w" and ly: "length ?ys = (?n - ?m) * ?w"
    using mw nw by simp_all
  have fit1: "?o * ?w + ?m * ?w \<le> length (q_data q)"
    using m(2) cw by (metis add_mult_distrib mult_le_mono1 order_trans)
  obtain d1 where d1: "mem_write (q_data q) (?o * ?w) ?xs = Some d1"
    using mem_write_ok [of "?o * ?w" ?xs "q_data q"] fit1 lx by auto
  have ld1: "length d1 = length (q_data q)" using d1 by (rule mem_write_length)
  have "(?n - ?m) * ?w \<le> ?c * ?w" using m(3) o by simp
  also note cw
  finally obtain d2 where d2: "mem_write d1 (0 * ?w) ?ys = Some d2"
    using mem_write_ok [of "0 * ?w" ?ys d1] ly ld1 by auto
  have ld2: "length d2 = length d1" using d2 by (rule mem_write_length)
  have run: "mix_enqueue_raw q src len off = Some (q\<lparr>q_data := d2\<rparr>, queue_min (scaled q len)
         (scaled q (q_mask q + 1) - scaled q (off AND q_mask q)))"
    using d1 d2 mw nw by (simp add: mix_enqueue_raw_scaled Let_def us mem_read_def)
  have slot: "chunk ?w d2 j = (if j < ?n - ?m then chunk ?w src (?m + j)
      else if ?o \<le> j \<and> j < ?o + ?m then chunk ?w src (j - ?o) else chunk ?w (q_data q) j)"
    if "j < ?c" for j
    using chunk_mem_write [OF d2 ly _ _ that] chunk_mem_write [OF d1 lx m(2) cw that]
      m(3) o cw ld1 by (auto simp: chunk_take chunk_drop)
  have "chunk ?w d2 ((unat off + i) mod ?c) = (if i < ?n then chunk ?w src i
      else chunk ?w (q_data q) ((unat off + i) mod ?c))" if i: "i < ?c" for i
  proof -
    have j: "(unat off + i) mod ?c = (if ?o + i < ?c then ?o + i else ?o + i - ?c)"
      using i by (rule mod_add_cases)
    show ?thesis
    proof (cases "?o + i < ?c")
      case True
      then show ?thesis using slot [of "?o + i"] m(1-3) m(4) [of i] by (cases "i < ?m") (auto simp: j)
    next
      case False
      have "i < ?n \<longleftrightarrow> ?o + i - ?c < ?n - ?m" and "i < ?n \<Longrightarrow> ?m + (?o + i - ?c) = i"
        using False i o by (auto simp: first_part_def min_def)
      moreover have "?o + i - ?c < ?o" "?o + i - ?c < ?c" using False i o by linarith+
      ultimately show ?thesis using slot [of "?o + i - ?c"] False by (auto simp: j)
    qed
  qed
  with run ld1 ld2 show thesis by (intro that [of d2]) auto
qed

text \<open>\<open>__mix_dequeue\<close> reads exactly the \<open>n\<close> slots from counter value \<open>off\<close> on.\<close>

lemma mix_dequeue_raw_slots:
  assumes ring: "ring_ok q" and len: "unat len \<le> queue_cap q"
  shows "mix_dequeue_raw q len off = Some (concat (map
    (\<lambda>i. chunk (queue_es q) (q_data q) ((unat off + i) mod queue_cap q)) [0..<unat len]))"
proof -
  let ?c = "queue_cap q" and ?w = "queue_es q" and ?n = "unat len"
  let ?o = "unat off mod ?c" and ?m = "first_part q len off"
  let ?slot = "\<lambda>i. chunk ?w (q_data q) ((unat off + i) mod ?c)"
  note us = unat_split [OF ring len, of off]
  have o: "?o < ?c" by (simp add: queue_cap_pos)
  note m = first_part_facts [OF len, where off = off]
  have cw: "?c * ?w \<le> length (q_data q)" using ring by (simp add: ring_ok_def)
  have fit1: "(?o + ?m) * ?w \<le> length (q_data q)"
    using m(2) cw by (meson mult_le_mono1 order_trans)
  have fit2: "(0 + (?n - ?m)) * ?w \<le> length (q_data q)"
    using m(3) o cw by (metis add_0 less_imp_le mult_le_mono1 order_trans)
  have first: "take (?m * ?w) (drop (?o * ?w) (q_data q)) = concat (map ?slot [0..<?m])"
    unfolding concat_chunks [OF fit1]
    by (rule arg_cong [where f = concat], rule map_cong)
       (use m(1,2) len in \<open>auto simp: mod_add_cases\<close>)
  have second: "take ((?n - ?m) * ?w) (drop (0 * ?w) (q_data q)) = concat (map ?slot [?m..<?n])"
    unfolding concat_chunks [OF fit2]
  proof (rule arg_cong [where f = concat])
    have "[?m..<?n] = map (\<lambda>i. i + ?m) [0..<?n - ?m]" by (simp add: map_add_upt m(1))
    moreover have "(unat off + (i + ?m)) mod ?c = i" if i: "i < ?n - ?m" for i
    proof -
      have "?o + ?m = ?c" using m(4) [of "i + ?m"] i by simp
      then show ?thesis using i len by (subst mod_add_cases) auto
    qed
    ultimately show "map (\<lambda>i. chunk ?w (q_data q) (0 + i)) [0..<?n - ?m] = map ?slot [?m..<?n]"
      by simp
  qed
  have "concat (map ?slot [0..<?n]) = concat (map ?slot [0..<?m]) @ concat (map ?slot [?m..<?n])"
    using m(1) by (metis concat_append le_add_diff_inverse map_append upt_add_eq_append zero_le)
  with first second show ?thesis
    using fit1 fit2 by (simp add: mix_dequeue_raw_scaled Let_def us mem_read_def add_mult_distrib)
qed

text \<open>The counters are free running: they agree modulo the ring size even across the
  32-bit wrap-around, because the ring size divides \<open>2 ^ 32\<close>.\<close>

lemma in_slot:
  assumes "ring_ok q"
  shows "(unat (q_in q) + i) mod queue_cap q = (unat (q_out q) + (queue_used q + i)) mod queue_cap q"
proof -
  have "unat (q_out q + (q_in q - q_out q)) = (unat (q_out q) + queue_used q) mod 2 ^ 32"
    by (simp only: unat_word_ariths queue_used_def) simp
  then have "unat (q_in q) mod queue_cap q = (unat (q_out q) + queue_used q) mod queue_cap q"
    using queue_cap_dvd [OF assms] by (simp add: mod_mod_cancel)
  then show ?thesis by (metis add.assoc mod_add_left_eq)
qed

lemma unat_unused:
  assumes "queue_ok q"
  shows "unat (mix_queue_unused q) = queue_cap q - queue_used q"
proof -
  have ring: "ring_ok q" and "queue_used q \<le> queue_cap q"
    using assms by (simp_all add: queue_ok_def)
  then have "q_in q - q_out q \<le> q_mask q + 1"
    by (simp add: word_le_nat_alt queue_used_def unat_size)
  then show ?thesis by (simp add: mix_queue_unused_def unat_sub queue_used_def unat_size [OF ring])
qed

lemma queue_list_nth:
  "k < queue_used q \<Longrightarrow> queue_list q ! k =
     chunk (queue_es q) (q_data q) ((unat (q_out q) + k) mod queue_cap q)"
  by (simp add: queue_list_def)

lemma length_queue_list [simp]: "length (queue_list q) = queue_used q"
  by (simp add: queue_list_def)

theorem mix_enqueue_fifo:
  assumes ok: "queue_ok q"
    and src: "min (unat len) (queue_cap q - queue_used q) * queue_es q \<le> length src"
  obtains q' n where "mix_enqueue q src len = Some (q', n)" "queue_ok q'"
    "unat n = min (unat len) (queue_cap q - queue_used q)"
    "queue_list q' = queue_list q @ map (chunk (queue_es q) src) [0..<unat n]"
    "queue_cap q' = queue_cap q" "queue_es q' = queue_es q"
proof -
  let ?c = "queue_cap q" and ?u = "queue_used q" and ?w = "queue_es q"
  have ring: "ring_ok q" and used: "?u \<le> ?c" using ok by (simp_all add: queue_ok_def)
  define n where "n = (if len > mix_queue_unused q then mix_queue_unused q else len)"
  have n: "unat n = min (unat len) (?c - ?u)"
    by (auto simp: n_def word_less_nat_alt unat_unused [OF ok] min_def)
  have "unat n \<le> ?c" and "unat n * ?w \<le> length src" using n src by simp_all
  from mix_enqueue_raw_slots [OF ring this, of "q_in q"] obtain data l where
    run: "mix_enqueue_raw q src n (q_in q) = Some (q\<lparr>q_data := data\<rparr>, l)"
    and len: "length data = length (q_data q)"
    and slots: "\<And>i. i < ?c \<Longrightarrow> chunk ?w data ((unat (q_in q) + i) mod ?c) =
       (if i < unat n then chunk ?w src i else chunk ?w (q_data q) ((unat (q_in q) + i) mod ?c))"
    by metis
  let ?q' = "q\<lparr>q_data := data, q_in := q_in q + n\<rparr>"
  have enq: "mix_enqueue q src len = Some (?q', n)"
    using run by (simp add: mix_enqueue_def Let_def flip: n_def)
  have same: "queue_cap ?q' = ?c" "queue_es ?q' = ?w" by (simp_all add: queue_defs)
  have "unat (q_in q - q_out q) + unat n < 2 ^ 32"
    using n used queue_cap_less [OF ring] by (simp flip: queue_used_def)
  then have "unat (q_in q - q_out q + n) = ?u + unat n"
    using unat_add_bounded [where 'a = 32] by (simp add: queue_used_def)
  then have used': "queue_used ?q' = ?u + unat n"
    by (simp add: queue_used_def algebra_simps)
  have "queue_ok ?q'"
    using ring used n len by (simp add: queue_ok_def ring_ok_def used' same)
  moreover have "queue_list ?q' = queue_list q @ map (chunk ?w src) [0..<unat n]"
  proof (rule nth_equalityI)
    show "length (queue_list ?q') = length (queue_list q @ map (chunk ?w src) [0..<unat n])"
      by (simp add: used')
    fix k assume "k < length (queue_list ?q')"
    then have k: "k < ?u + unat n" by (simp add: used')
    have slot: "queue_list ?q' ! k = chunk ?w data ((unat (q_out q) + k) mod ?c)"
      using k used' same queue_list_nth [of k ?q'] by simp
    show "queue_list ?q' ! k = (queue_list q @ map (chunk ?w src) [0..<unat n]) ! k"
    proof (cases "k < ?u")
      case True
      let ?i = "?c - ?u + k"
      have "(unat (q_in q) + ?i) mod ?c = (unat (q_out q) + k) mod ?c"
        unfolding in_slot [OF ring] using used
        by (simp add: add.left_commute [of _ "?c"])
      moreover have "?i < ?c" "\<not> ?i < unat n" using True n used by linarith+
      ultimately have "chunk ?w data ((unat (q_out q) + k) mod ?c)
          = chunk ?w (q_data q) ((unat (q_out q) + k) mod ?c)"
        using slots [of ?i] by simp
      then show ?thesis using True slot by (simp add: nth_append queue_list_nth)
    next
      case False
      then have "k - ?u < unat n" "k - ?u < ?c" using k n used by linarith+
      then show ?thesis using slots [of "k - ?u"] in_slot [OF ring, of "k - ?u"] False slot
        by (simp add: nth_append)
    qed
  qed
  ultimately show thesis using that [OF enq] n same by simp
qed

theorem mix_dequeue_fifo:
  assumes ok: "queue_ok q"
  obtains q' dst n where "mix_dequeue q len = Some (q', dst, n)" "queue_ok q'"
    "unat n = min (unat len) (queue_used q)"
    "dst = concat (take (unat n) (queue_list q))"
    "queue_list q' = drop (unat n) (queue_list q)"
    "queue_cap q' = queue_cap q" "queue_es q' = queue_es q"
proof (cases "q_in q - q_out q = 0")
  case True
  then have "mix_dequeue q len = Some (q, [], 0)" "queue_used q = 0"
    by (simp_all add: mix_dequeue_def queue_used_def)
  then show thesis using that [of q "[]" 0] ok by simp
next
  case False
  let ?c = "queue_cap q" and ?u = "queue_used q" and ?w = "queue_es q"
  have ring: "ring_ok q" and used: "?u \<le> ?c" using ok by (simp_all add: queue_ok_def)
  define n where "n = (if len > q_in q - q_out q then q_in q - q_out q else len)"
  have n: "unat n = min (unat len) ?u"
    by (auto simp: n_def word_less_nat_alt queue_used_def min_def)
  then have "unat n \<le> ?c" using used by simp
  let ?dst = "concat (map (\<lambda>i. chunk ?w (q_data q) ((unat (q_out q) + i) mod ?c)) [0..<unat n])"
  let ?q' = "q\<lparr>q_out := q_out q + n\<rparr>"
  have deq: "mix_dequeue q len = Some (?q', ?dst, n)"
    using False mix_dequeue_raw_slots [OF ring \<open>unat n \<le> ?c\<close>, of "q_out q"]
    by (simp add: mix_dequeue_def Let_def flip: n_def)
  have same: "queue_cap ?q' = ?c" "queue_es ?q' = ?w" by (simp_all add: queue_defs)
  have "n \<le> q_in q - q_out q" using n by (simp add: word_le_nat_alt queue_used_def)
  then have "unat ((q_in q - q_out q) - n) = ?u - unat n"
    by (simp add: unat_sub queue_used_def)
  then have used': "queue_used ?q' = ?u - unat n"
    by (simp add: queue_used_def diff_diff_eq)
  have ok': "queue_ok ?q'" using ring used by (simp add: queue_ok_def ring_ok_def used' same)
  have dst: "?dst = concat (take (unat n) (queue_list q))"
    using n by (simp add: queue_list_def take_map)
  have "(unat (q_out q + n) + k) mod ?c = (unat (q_out q) + (unat n + k)) mod ?c" for k
  proof -
    have "unat (q_out q + n) mod ?c = (unat (q_out q) + unat n) mod ?c"
      using queue_cap_dvd [OF ring] by (simp add: unat_word_ariths mod_mod_cancel)
    then show ?thesis by (metis add.assoc mod_add_left_eq)
  qed
  then have "queue_list ?q' = drop (unat n) (queue_list q)"
    using n by (intro nth_equalityI) (simp_all add: used' queue_list_nth same)
  with that [OF deq ok' n dst] same show thesis by simp
qed

text \<open>What a client may rely on, in one equation each: the operations as functions on the
  list of elements.\<close>

theorem mix_enqueue_one:
  assumes "queue_ok q" "length src = queue_es q"
  shows "\<exists>q' n. mix_enqueue q src 1 = Some (q', n) \<and> queue_ok q' \<and>
     queue_cap q' = queue_cap q \<and> queue_es q' = queue_es q \<and>
     (if queue_used q < queue_cap q then n = 1 \<and> queue_list q' = queue_list q @ [src]
      else n = 0 \<and> queue_list q' = queue_list q)"
proof -
  obtain q' n where q': "mix_enqueue q src 1 = Some (q', n)" "queue_ok q'"
    "unat n = min 1 (queue_cap q - queue_used q)"
    "queue_list q' = queue_list q @ map (chunk (queue_es q) src) [0..<unat n]"
    "queue_cap q' = queue_cap q" "queue_es q' = queue_es q"
    using mix_enqueue_fifo [OF assms(1), of 1 src] assms(2) by auto
  have "chunk (queue_es q) src 0 = src" using assms(2) by (simp add: chunk_def)
  moreover have "n = 1" if "queue_used q < queue_cap q"
    using q'(3) that by (simp add: min_def split: if_splits)
  moreover have "n = 0" if "\<not> queue_used q < queue_cap q"
    using q'(3) that by (simp add: unat_eq_0)
  ultimately show ?thesis using q' by auto
qed

theorem mix_dequeue_one:
  assumes "queue_ok q"
  shows "\<exists>q' dst n. mix_dequeue q 1 = Some (q', dst, n) \<and> queue_ok q' \<and>
     queue_cap q' = queue_cap q \<and> queue_es q' = queue_es q \<and>
     (case queue_list q of [] \<Rightarrow> n = 0 \<and> queue_list q' = []
      | x # xs \<Rightarrow> n = 1 \<and> dst = x \<and> queue_list q' = xs)"
proof -
  obtain q' dst n where q': "mix_dequeue q 1 = Some (q', dst, n)" "queue_ok q'"
    "unat n = min 1 (queue_used q)" "dst = concat (take (unat n) (queue_list q))"
    "queue_list q' = drop (unat n) (queue_list q)"
    "queue_cap q' = queue_cap q" "queue_es q' = queue_es q"
    using mix_dequeue_fifo [OF assms, of 1] by auto
  show ?thesis
  proof (cases "queue_list q")
    case Nil
    then have "queue_used q = 0" by (metis length_queue_list list.size(3))
    with q' Nil show ?thesis by (auto simp: unat_eq_0)
  next
    case (Cons x xs)
    then have "0 < queue_used q" by (metis length_queue_list length_greater_0_conv list.distinct(1))
    then have "unat n = 1" using q'(3) by simp
    with q' Cons show ?thesis by auto
  qed
qed

section \<open>The queue meets the contract of a bounded FIFO\<close>

definition queue_enq :: "mix_queue \<Rightarrow> u8 list \<Rightarrow> (mix_queue \<times> u32) option" where
  "queue_enq q x = mix_enqueue q x 1"

definition queue_deq :: "mix_queue \<Rightarrow> (mix_queue \<times> u8 list \<times> u32) option" where
  "queue_deq q = mix_dequeue q 1"

definition queue_fits :: "mix_queue \<Rightarrow> u8 list \<Rightarrow> bool" where
  "queue_fits q x \<longleftrightarrow> length x = queue_es q"

interpretation ring: bounded_fifo queue_enq queue_deq queue_list queue_cap queue_fits queue_ok
proof unfold_locales
  fix q x assume "queue_ok q" "queue_fits q x"
  then have one: "\<exists>q' n. queue_enq q x = Some (q', n) \<and> queue_ok q' \<and>
     queue_cap q' = queue_cap q \<and> queue_fits q' = queue_fits q \<and>
     (if queue_used q < queue_cap q then n = 1 \<and> queue_list q' = queue_list q @ [x]
      else n = 0 \<and> queue_list q' = queue_list q)"
    unfolding queue_fits_def queue_enq_def using mix_enqueue_one [of q x] by fastforce
  show "length (queue_list q) < queue_cap q \<Longrightarrow>
      \<exists>q'. queue_enq q x = Some (q', 1) \<and> queue_ok q' \<and> queue_list q' = queue_list q @ [x] \<and>
        queue_cap q' = queue_cap q \<and> queue_fits q' = queue_fits q"
    using one by auto
  show "\<not> length (queue_list q) < queue_cap q \<Longrightarrow>
      \<exists>q'. queue_enq q x = Some (q', 0) \<and> queue_ok q' \<and> queue_list q' = queue_list q \<and>
        queue_cap q' = queue_cap q \<and> queue_fits q' = queue_fits q"
    using one by auto
next
  fix q x xs assume "queue_ok q" "queue_list q = x # xs"
  then show "\<exists>q'. queue_deq q = Some (q', x, 1) \<and> queue_ok q' \<and> queue_list q' = xs \<and>
        queue_cap q' = queue_cap q \<and> queue_fits q' = queue_fits q"
    using mix_dequeue_one [of q] by (auto simp: queue_fits_def queue_deq_def fun_eq_iff)
next
  fix q assume "queue_ok q" "queue_list q = []"
  then show "\<exists>q' x. queue_deq q = Some (q', x, 0) \<and> queue_ok q' \<and> queue_list q' = [] \<and>
        queue_cap q' = queue_cap q \<and> queue_fits q' = queue_fits q"
    using mix_dequeue_one [of q] by (auto simp: queue_fits_def queue_deq_def fun_eq_iff)
qed

section \<open>Initialisation\<close>

lemma fls_0 [simp]: "fls 0 = 0"
proof -
  have "find (\<lambda>_. False) (xs :: nat list) = None" for xs by (induction xs) auto
  then show ?thesis by (simp add: fls_def)
qed

lemma fls_bounds:
  shows "unat x < 2 ^ fls x" and "x \<noteq> 0 \<Longrightarrow> 2 ^ (fls x - 1) \<le> unat x" and "fls x \<le> 32"
proof -
  consider (zero) "fls x = 0" "\<And>i. i < 32 \<Longrightarrow> \<not> bit x i"
    | (high) r where "fls x = r + 1" "r < 32" "bit x r" "\<And>i. r < i \<Longrightarrow> i < 32 \<Longrightarrow> \<not> bit x i"
  proof (cases "find (bit x) (rev [0..<32])")
    case None
    then have "fls x = 0" by (simp add: fls_def)
    with None show thesis using zero by (auto simp: find_None_iff)
  next
    case (Some r)
    then obtain i where i: "i < 32" "r = rev [0..<32] ! i" "bit x r"
        "\<And>j. j < i \<Longrightarrow> \<not> bit x (rev [0..<32] ! j)"
      by (auto simp: find_Some_iff)
    then have "r = 31 - i" by (simp add: rev_nth)
    moreover have "\<not> bit x k" if "31 - i < k" "k < 32" for k
      using i(4) [of "31 - k"] that i(1) by (auto simp: rev_nth)
    ultimately show thesis using high [of r] i Some by (simp add: fls_def)
  qed
  then have "unat x < 2 ^ fls x \<and> (x \<noteq> 0 \<longrightarrow> 2 ^ (fls x - 1) \<le> unat x) \<and> fls x \<le> 32"
  proof cases
    case zero
    then have "x = 0" by (intro bit_word_eqI) simp
    then show ?thesis by simp
  next
    case (high r)
    have "bit x n = bit (take_bit (r + 1) x) n" if "n < 32" for n
      using high(4) [of n] that by (cases "r < n") (auto simp: bit_take_bit_iff)
    then have "x = take_bit (r + 1) x" by (intro bit_word_eqI) simp
    then have "unat x = take_bit (r + 1) (unat x)" by (metis unsigned_take_bit_eq)
    then have "unat x < 2 ^ (r + 1)" by (metis take_bit_nat_less_exp)
    moreover have "2 ^ r \<le> unat x"
    proof (rule ccontr)
      assume "\<not> 2 ^ r \<le> unat x"
      then have "\<not> bit (unat x) r" by (simp add: bit_iff_odd)
      then show False using high by (simp add: bit_unsigned_iff)
    qed
    ultimately show ?thesis using high by simp
  qed
  then show "unat x < 2 ^ fls x" and "x \<noteq> 0 \<Longrightarrow> 2 ^ (fls x - 1) \<le> unat x" and "fls x \<le> 32"
    by simp_all
qed

lemma unat_roundup:
  assumes "fls (x - 1) < 32"
  shows "unat (roundup_pow_of_two x) = 2 ^ fls (x - 1)"
proof -
  have "unat (push_bit (fls (x - 1)) (1 :: u64)) = 2 ^ fls (x - 1)"
    using assms unat_pow2 [where 'a = 64, of "fls (x - 1)"] by (simp add: push_bit_eq_mult)
  then have "unat (roundup_pow_of_two x) = take_bit 32 (2 ^ fls (x - 1))"
    by (simp add: roundup_pow_of_two_def unsigned_ucast_eq)
  then show ?thesis using assms by (simp add: take_bit_nat_eq_self)
qed

text \<open>\<open>roundup_pow_of_two\<close> returns the least power of two that is not below its argument.\<close>

lemma roundup_least:
  assumes "0 < unat x" "unat x \<le> 2 ^ 31"
  obtains k where "unat (roundup_pow_of_two x) = 2 ^ k" "k \<le> 31" "unat x \<le> 2 ^ k"
    "\<And>j. unat x \<le> 2 ^ j \<Longrightarrow> k \<le> j"
proof -
  let ?k = "fls (x - 1)"
  have x1: "unat (x - 1) = unat x - 1" using assms(1) by (simp add: unat_sub word_le_nat_alt)
  have small: "?k \<le> j" if "unat x \<le> 2 ^ j" for j
  proof (cases "x - 1 = 0")
    case True
    then show ?thesis by simp
  next
    case False
    have "(2 :: nat) ^ (?k - 1) < 2 ^ j"
      using fls_bounds(2) [OF False] x1 that assms(1) by linarith
    then show ?thesis by simp
  qed
  then have "?k \<le> 31" using assms(2) by simp
  then have "unat (roundup_pow_of_two x) = 2 ^ ?k" by (intro unat_roundup) simp
  moreover have "unat x \<le> 2 ^ ?k" using fls_bounds(1) [of "x - 1"] x1 by linarith
  ultimately show thesis using that small \<open>?k \<le> 31\<close> by blast
qed

text \<open>A buffer of exactly \<open>2 ^ k\<close> elements gives an empty queue of capacity \<open>2 ^ k\<close>.\<close>

lemma mix_queue_init_power_of_two:
  assumes size: "unat sz = 2 ^ k * unat esize" "length buf = unat sz"
    and k: "1 \<le> k" and es: "0 < unat esize"
  shows "\<exists>q. mix_queue_init (Some buf) sz esize = Some (Some q) \<and> queue_ok q \<and>
    queue_list q = [] \<and> queue_cap q = 2 ^ k \<and> q_esize q = esize"
proof -
  have bytes: "2 ^ k * unat esize < 2 ^ 32"
    using size(1) unat_less_exp [of sz] by simp
  have n: "unat (sz div esize) = 2 ^ k" using size(1) es by (simp add: unat_div)
  then have "(2::nat) ^ k < 2 ^ 32" using unat_less_exp [of "sz div esize"] by simp
  then have "k < 32" by (rule power_less_imp_less_exp [rotated]) simp
  then have k32: "k \<le> 31" by simp
  then have "(2::nat) ^ k \<le> 2 ^ 31" by (rule power_increasing) simp
  then obtain j where j: "unat (roundup_pow_of_two (sz div esize)) = 2 ^ j" "2 ^ k \<le> (2::nat) ^ j" "j \<le> k"
    using roundup_least [of "sz div esize"] n by (metis order_refl zero_less_numeral zero_less_power)
  then have "j = k" by (simp add: power_increasing_iff)
  let ?r = "roundup_pow_of_two (sz div esize)"
  have r: "?r = 2 ^ k"
    using j(1) \<open>j = k\<close> k32 unat_pow2 [where 'a = 32, of k] by (simp add: word_unat_eq_iff)
  have "(2::nat) ^ 1 \<le> 2 ^ k" using k by (rule power_increasing) simp
  then have "\<not> ?r < 2" using j(1) \<open>j = k\<close> by (simp add: word_less_nat_alt)
  let ?q = "\<lparr>q_in = 0, q_out = 0, q_mask = 2 ^ k - 1, q_esize = esize, q_data = buf\<rparr>"
  have "mix_queue_init (Some buf) sz esize = Some (Some ?q)"
    using \<open>\<not> ?r < 2\<close> r es bytes size
    by (auto simp: mix_queue_init_def mix_queue_init_raw_def Let_def EINVAL_def word_less_nat_alt
        unat_gt_0)
  moreover have cap: "queue_cap ?q = 2 ^ k"
    using unat_pow2_minus1 [where 'a = 32, of k] k32 by (simp add: queue_cap_def)
  moreover have "queue_ok ?q"
    using k k32 es bytes size
    by (auto simp: queue_ok_def ring_ok_def cap queue_es_def queue_used_def list_ex_iff)
  ultimately show ?thesis by (auto simp: queue_list_def queue_used_def)
qed

text \<open>Any other element count makes the ring larger than the buffer that was allocated.\<close>

lemma mix_queue_init_undersized:
  assumes q: "mix_queue_init (Some buf) sz esize = Some (Some q)"
    and buf: "length buf = unat sz"
    and small: "unat (sz div esize) \<le> 2 ^ 31"
    and odd: "\<And>k. unat (sz div esize) \<noteq> 2 ^ k"
  shows "length (q_data q) < queue_cap q * queue_es q"
proof -
  let ?n = "sz div esize"
  have es: "esize \<noteq> 0" using q by (auto simp: mix_queue_init_def split: if_splits)
  then have big: "\<not> roundup_pow_of_two ?n < 2"
    and qd: "q_mask q = roundup_pow_of_two ?n - 1" "q_data q = buf" "q_esize q = esize"
    using q by (auto simp: mix_queue_init_def mix_queue_init_raw_def EINVAL_def Let_def
        split: if_splits)
  show ?thesis
  proof (cases "unat ?n = 0")
    case True
    then have "?n = 0" by (simp add: unat_eq_0)
    moreover have "roundup_pow_of_two 0 = 0" by code_simp
    ultimately show ?thesis using big by simp
  next
    case False
    then obtain k where k: "unat (roundup_pow_of_two ?n) = 2 ^ k" "unat ?n \<le> 2 ^ k"
      using roundup_least [of ?n] small by auto
    then have "unat ?n + 1 \<le> 2 ^ k" using odd [of k] by simp
    moreover have "queue_cap q = 2 ^ k"
      using big k(1) by (simp add: queue_cap_def qd unat_sub word_le_nat_alt not_less)
    ultimately have "(unat ?n + 1) * unat esize \<le> queue_cap q * queue_es q"
      unfolding queue_es_def qd by (metis mult_le_mono1)
    moreover have "unat sz < (unat ?n + 1) * unat esize"
      using es by (simp add: unat_div dividend_less_div_times unat_gt_0 add.commute)
    ultimately show ?thesis by (simp add: qd buf)
  qed
qed

section \<open>Without interference the lock-free operations are the plain ones\<close>

lemma mix_enqueue_raw_counter:
  "mix_enqueue_raw (q\<lparr>q_in := x\<rparr>) src len off = map_option (\<lambda>(q', l). (q'\<lparr>q_in := x\<rparr>, l)) (mix_enqueue_raw q src len off)"
  by (simp add: mix_enqueue_raw_def Let_def split: bind_splits option.splits)

lemma mix_dequeue_raw_counter: "mix_dequeue_raw (q\<lparr>q_out := x\<rparr>) len off = mix_dequeue_raw q len off"
  by (simp add: mix_dequeue_raw_def Let_def)

lemma mix_enqueue_raw_in: "mix_enqueue_raw q src len off = Some (q', l) \<Longrightarrow> q_in q' = q_in q"
  by (auto simp: mix_enqueue_raw_scaled Let_def split: bind_splits option.splits)

section \<open>Properties\<close>

text \<open>A queue of four slots of two bytes that holds one element, with the counters about to wrap.\<close>

definition sample_queue :: mix_queue where
  "sample_queue = \<lparr>q_in = 0, q_out = 0xffffffff, q_mask = 3, q_esize = 2, q_data = [1, 2, 3, 4, 5, 6, 7, 8]\<rparr>"

lemma sample_queue_facts:
  "queue_ok sample_queue" "queue_used sample_queue = 1" "queue_cap sample_queue = 4" "queue_es sample_queue = 2"
proof -
  have "list_ex (\<lambda>n. (3 :: u32) = 2 ^ n - 1) [1..<32]"
    unfolding list_ex_iff by (rule bexI [of _ 2]) simp_all
  then show "queue_ok sample_queue"
    by (simp add: queue_ok_def ring_ok_def queue_defs sample_queue_def)
qed (simp_all add: queue_defs sample_queue_def)

text \<open>C25. \<open>mix_enqueue\<close> appends to the list of elements as many of the given elements as fit,
  returns their number and keeps the invariant, also when the copy wraps around the end of the
  buffer and when the 32-bit counters overflow.\<close>

theorem enqueue_appends:
  assumes "queue_ok q" "min (unat len) (queue_cap q - queue_used q) * queue_es q \<le> length src"
  shows "\<exists>q' n. mix_enqueue q src len = Some (q', n) \<and> queue_ok q' \<and>
    unat n = min (unat len) (queue_cap q - queue_used q) \<and>
    queue_list q' = queue_list q @ map (chunk (queue_es q) src) [0..<unat n] \<and> queue_cap q' = queue_cap q"
  using mix_enqueue_fifo [OF assms] by metis

theorem enqueue_appends_witness:
  "\<exists>q' n. mix_enqueue sample_queue [9, 10, 11, 12] 2 = Some (q', n) \<and> queue_ok q' \<and> unat n = 2 \<and>
    queue_list q' = queue_list sample_queue @ map (chunk 2 [9, 10, 11, 12]) [0..<unat n] \<and> queue_cap q' = 4"
  using enqueue_appends [of sample_queue 2 "[9, 10, 11, 12]"] sample_queue_facts by simp

text \<open>C26. \<open>mix_dequeue\<close> removes the oldest elements: it stores the concatenation of the first
  elements to the destination, as many as asked for and available, and leaves the rest in order.\<close>

theorem dequeue_removes_oldest:
  assumes "queue_ok q"
  shows "\<exists>q' dst n. mix_dequeue q len = Some (q', dst, n) \<and> queue_ok q' \<and>
    unat n = min (unat len) (queue_used q) \<and> dst = concat (take (unat n) (queue_list q)) \<and>
    queue_list q' = drop (unat n) (queue_list q) \<and> queue_cap q' = queue_cap q"
  using mix_dequeue_fifo [OF assms] by metis

theorem dequeue_removes_oldest_witness:
  "\<exists>q' dst n. mix_dequeue sample_queue 3 = Some (q', dst, n) \<and> queue_ok q' \<and> unat n = 1 \<and>
    dst = concat (take (unat n) (queue_list sample_queue)) \<and>
    queue_list q' = drop (unat n) (queue_list sample_queue) \<and> queue_cap q' = 4"
  using dequeue_removes_oldest [of sample_queue 3] sample_queue_facts by simp

text \<open>A queue made by \<open>mix_queue_init\<close> for a power of two of elements, as \<open>mixdk_init\<close> asks
  for: a batch that fits its capacity can be posted element by element, and draining returns
  exactly the batch in the order it was posted and leaves the queue empty.\<close>

theorem init_post_drain:
  assumes "unat sz = 2 ^ k * unat esize" "length buf = unat sz" "1 \<le> k" "0 < unat esize"
    and "length xs \<le> 2 ^ k" "list_all (\<lambda>x. length x = unat esize) xs"
  shows "\<exists>q q1 q2. mix_queue_init (Some buf) sz esize = Some (Some q) \<and>
    post_all (\<lambda>q x. mix_enqueue q x 1) q xs = Some q1 \<and>
    drain (\<lambda>q. mix_dequeue q 1) (length xs) q1 = Some (q2, xs) \<and> queue_ok q2 \<and> queue_list q2 = []"
proof -
  obtain q where q: "mix_queue_init (Some buf) sz esize = Some (Some q)" "queue_ok q"
      "queue_list q = []" "queue_cap q = 2 ^ k" "q_esize q = esize"
    using mix_queue_init_power_of_two [OF assms(1-4)] by metis
  have ops: "queue_enq = (\<lambda>q x. mix_enqueue q x 1)" "queue_deq = (\<lambda>q. mix_dequeue q 1)"
    by (simp_all add: fun_eq_iff queue_enq_def queue_deq_def)
  have "list_all (queue_fits q) xs" using assms(6) q(5) by (simp add: queue_fits_def queue_es_def list_all_iff)
  then obtain q1 q2 where "post_all queue_enq q xs = Some q1" "drain queue_deq (length xs) q1 = Some (q2, xs)"
      "queue_ok q2" "queue_list q2 = []"
    using ring.post_then_drain [OF q(2,3)] assms(5) q(4) by metis
  then show ?thesis using q(1) unfolding ops by blast
qed

theorem init_post_drain_witness:
  "\<exists>q q1 q2. mix_queue_init (Some [0, 0, 0, 0, 0, 0, 0, 0]) 8 2 = Some (Some q) \<and>
    post_all (\<lambda>q x. mix_enqueue q x 1) q [[1, 2], [3, 4], [5, 6]] = Some q1 \<and>
    drain (\<lambda>q. mix_dequeue q 1) 3 q1 = Some (q2, [[1, 2], [3, 4], [5, 6]]) \<and> queue_ok q2 \<and> queue_list q2 = []"
  using init_post_drain [of 8 2 2 "[0, 0, 0, 0, 0, 0, 0, 0]" "[[1, 2], [3, 4], [5, 6]]"]
  by (simp add: numeral_3_eq_3 del: post_all.simps drain.simps)

text \<open>For every other number of elements the buffer that \<open>mix_queue_init\<close> allocates is smaller
  than the ring that the operations address: the count is rounded up, the allocation is not.\<close>

lemma init_undersized:
  assumes "mix_queue_init (Some buf) sz esize = Some (Some q)" "length buf = unat sz"
    and "unat (sz div esize) \<le> 2 ^ 31" "\<And>k. unat (sz div esize) \<noteq> 2 ^ k"
  shows "length (q_data q) < queue_cap q * queue_es q"
  using mix_queue_init_undersized [OF assms] .

text \<open>\<open>roundup_pow_of_two\<close> returns the least power of two that is not below its argument, for
  every argument up to \<open>2 ^ 31\<close>.\<close>

theorem roundup_is_least_power:
  assumes "0 < unat x" "unat x \<le> 2 ^ 31"
  shows "\<exists>k. unat (roundup_pow_of_two x) = 2 ^ k \<and> unat x \<le> 2 ^ k \<and> (\<forall>j. unat x \<le> 2 ^ j \<longrightarrow> k \<le> j)"
  using roundup_least [OF assms] by metis

theorem roundup_is_least_power_witness:
  "\<exists>k. unat (roundup_pow_of_two 5) = 2 ^ k \<and> (5::nat) \<le> 2 ^ k \<and> (\<forall>j. (5::nat) \<le> 2 ^ j \<longrightarrow> k \<le> j)"
  using roundup_is_least_power [of 5] by simp

text \<open>Run without a concurrent producer or consumer, the lock-free operations give the same
  results and the same queue as the plain ones.\<close>

theorem lockfree_uncontended:
  "mix_enqueue_lockfree q src len = mix_enqueue q src len \<and> mix_dequeue_lockfree q len = mix_dequeue q len"
proof
  show "mix_enqueue_lockfree q src len = mix_enqueue q src len"
    by (auto simp: mix_enqueue_lockfree_def mix_enqueue_def Let_def mix_enqueue_raw_counter
        split: bind_splits option.splits dest: mix_enqueue_raw_in)
  show "mix_dequeue_lockfree q len = mix_dequeue q len"
    by (simp add: mix_dequeue_lockfree_def mix_dequeue_def Let_def mix_dequeue_raw_counter)
qed

end
