(* ===== verification/Mixdk.thy ===== *)
theory Mixdk
  imports Scheduler Mix_Queue
begin

text \<open>
  Starting the program, \<open>mixdk_init\<close> of \<open>src/src/mixdk.c\<close> and \<open>mix_init_scheduler\<close> of
  \<open>src/src/scheduler.c\<close> with the initialisation of the workers and \<open>mix_rebuild\<close> of
  \<open>src/src/nvm_worker.cpp\<close>, and the properties of the system as a whole.
\<close>

section \<open>Starting up\<close>

text \<open>\<open>mix_rebuild\<close>: the descriptors of all segments are invalidated; then every worker rebuilds its
  segment. The workers do so once: a later call, through \<open>mix_segments_clear\<close>, finds them past it.\<close>

fun clear_segments :: "'s environment \<Rightarrow> nat \<Rightarrow> metadata \<Rightarrow> nvm_state \<Rightarrow> nvm_state option" where
  "clear_segments env 0 md nvm = Some nvm"
| "clear_segments env (Suc i) md nvm = clear_segments env i md nvm \<bind> mix_segment_clear env md (int i)"

fun rebuild_segments :: "nat \<Rightarrow> nvm_state \<Rightarrow> metadata \<Rightarrow> metadata option" where
  "rebuild_segments 0 nvm md = Some md"
| "rebuild_segments (Suc i) nvm md = do {
     md \<leftarrow> rebuild_segments i nvm md;
     (md, _) \<leftarrow> mix_buffer_rebuild nvm md (int i);
     Some md
   }"

definition mix_rebuild :: "'s environment \<Rightarrow> bool \<Rightarrow> metadata \<times> nvm_state \<Rightarrow> (metadata \<times> nvm_state) option" where
  "mix_rebuild env waiting = (\<lambda>(md, nvm). do {
     nvm \<leftarrow> clear_segments env 4 md nvm;
     md \<leftarrow> (if waiting then rebuild_segments 4 nvm md else Some md);
     Some (md, nvm)
   })"

definition mix_segments_clear :: "'s environment \<Rightarrow> metadata \<times> nvm_state \<Rightarrow> (metadata \<times> nvm_state) option" where
  "mix_segments_clear env = mix_rebuild env False"

text \<open>What the start finds outside of the program: whether the allocations and the creation of the threads
  succeed, the opened SSD, the mapped persistent memory, the memory of the queues, and the former
  contents of memory that is not initialised.\<close>

record 's boot =
  boot_sched :: bool
  boot_ssd :: "'s option"
  boot_buffer_info :: bool
  boot_ceil :: "int \<times> (u64 \<Rightarrow> int)"
  boot_old_flags :: "bool list"
  boot_old_segs :: "bool list"
  boot_buffer_queues :: "u8 list option list"
  boot_nvm_info :: bool
  boot_nvm_queue :: bool
  boot_nvm_queues :: "u8 list option list"
  boot_threads :: "bool list"
  boot_mapping :: "(u8 list \<times> bool) option"

definition TASK_SIZE :: u32 where "TASK_SIZE = 66"

text \<open>\<open>None\<close> stands for a failed \<open>assert\<close> or a crash, \<open>Some None\<close> for the returned \<open>NULL\<close>.\<close>

definition init_queues :: "u8 list option list \<Rightarrow> u32 \<Rightarrow> u32 \<Rightarrow> mix_queue option list option" where
  "init_queues mems size0 esize = those (map (\<lambda>mem. mix_queue_init mem size0 esize) mems)"

definition mix_ssd_worker_init :: "'s boot \<Rightarrow> 's option" where
  "mix_ssd_worker_init boot = boot_ssd boot"

text \<open>\<open>mix_buffer_worker_init\<close>: the test after \<open>mix_queue_init\<close> looks at the array, not at the queue.\<close>

definition mix_buffer_worker_init ::
    "'s boot \<Rightarrow> u32 \<Rightarrow> u32 \<Rightarrow> (buffer_info \<times> metadata \<times> mix_queue option list) option option" where
  "mix_buffer_worker_init boot size0 esize =
     (case mix_buffer_init (boot_buffer_info boot) of
        None \<Rightarrow> Some None
      | Some info \<Rightarrow> do {
          md \<leftarrow> mix_metadata_init (fst (boot_ceil boot)) (snd (boot_ceil boot)) (boot_old_flags boot) (boot_old_segs boot)
                  (ucast (bi_block_num info));
          qs \<leftarrow> init_queues (boot_buffer_queues boot) size0 esize;
          Some (Some (info, md, qs))
        })"

definition mix_nvm_worker_init ::
    "'s boot \<Rightarrow> u32 \<Rightarrow> u32 \<Rightarrow> (nvm_info \<times> mix_queue list) option option" where
  "mix_nvm_worker_init boot size0 esize =
     (case mix_nvm_init (boot_nvm_info boot) of
        None \<Rightarrow> Some None
      | Some info \<Rightarrow>
          if \<not> boot_nvm_queue boot then Some None
          else do {
            qs \<leftarrow> init_queues (boot_nvm_queues boot) size0 esize;
            Some (if None \<in> set qs \<or> \<not> list_all id (boot_threads boot) then None
                  else Some (info, map the qs))
          })"

text \<open>The static data when the threads have been started and the file is mapped; the queues of the
  workers are empty and have the capacity of the first ring.\<close>

definition start_system :: "'s \<Rightarrow> metadata \<Rightarrow> nvm_state \<Rightarrow> mix_queue list \<Rightarrow> 's system" where
  "start_system ssd md nvm qs = \<lparr>sys_meta = md, sys_nvm = nvm, sys_ssd = ssd, sys_completed = [0, 0, 0, 0],
     sys_nvm_queue = replicate 4 [], sys_buffer_queue = replicate 4 [], sys_queue_size = queue_cap (hd qs),
     sys_seq = replicate 4 0, sys_inflight = replicate 16 0, sys_out = replicate 16 [],
     sys_read_ptrs = replicate 16 (False, False), sys_read_buffer = replicate 16384 0, sys_read_index = replicate 8192 0\<rparr>"

text \<open>\<open>mix_init_scheduler\<close>: the return code and the running system, if there is one.\<close>

definition mix_init_scheduler ::
    "'s environment \<Rightarrow> 's boot \<Rightarrow> u32 \<Rightarrow> u32 \<Rightarrow> (int \<times> 's system option) option" where
  "mix_init_scheduler env boot size0 esize =
     (if \<not> boot_sched boot then Some (-1, None)
      else case mix_ssd_worker_init boot of
        None \<Rightarrow> Some (-1, None)
      | Some ssd \<Rightarrow> do {
          buffer \<leftarrow> mix_buffer_worker_init boot size0 esize;
          case buffer of
            None \<Rightarrow> Some (-1, None)
          | Some (buffer_info, md, _) \<Rightarrow> do {
              nvm \<leftarrow> mix_nvm_worker_init boot size0 esize;
              case nvm of
                None \<Rightarrow> Some (-1, None)
              | Some (nvm_info, qs) \<Rightarrow> do {
                  st \<leftarrow> mix_mmap (boot_mapping boot) nvm_info buffer_info;
                  (md, st) \<leftarrow> mix_rebuild env True (md, st);
                  Some (0, Some (start_system ssd md st qs))
                }
            }
        })"

definition mixdk_init :: "'s environment \<Rightarrow> 's boot \<Rightarrow> u8 \<Rightarrow> (int \<times> 's system option) option" where
  "mixdk_init env boot submit_queue_num =
     (if submit_queue_num = 0 \<or> 16 < submit_queue_num then Some (-1, None)
      else do {
        (_, sys) \<leftarrow> mix_init_scheduler env boot (4096 * TASK_SIZE) TASK_SIZE;
        Some (0, sys)
      })"

text \<open>A start in which nothing fails, on persistent memory with arbitrary content.\<close>

definition good_boot :: "'s boot \<Rightarrow> u8 list \<Rightarrow> 's \<Rightarrow> bool" where
  "good_boot boot mem ssd \<longleftrightarrow> boot_sched boot \<and> boot_ssd boot = Some ssd \<and> boot_buffer_info boot \<and> boot_nvm_info boot \<and>
     boot_nvm_queue boot \<and> boot_threads boot = replicate 4 True \<and> boot_mapping boot = Some (mem, True) \<and> length mem = PMEM_LEN \<and>
     length (boot_old_flags boot) = 8 \<and>
     length (boot_buffer_queues boot) = 4 \<and> length (boot_nvm_queues boot) = 4 \<and>
     (\<forall>m \<in> set (boot_buffer_queues boot) \<union> set (boot_nvm_queues boot). \<exists>buf. m = Some buf \<and> length buf = 4096 * 66)"

lemma rebuild_nothing:
  assumes ok: "layout_ok nvm" and fit: "base + m \<le> buffer_blocks nvm" and base: "base = i * unat (md_per_block_num md) + off"
    and per: "unat (md_per_block_num md) < 2 ^ 29"
    and none: "\<And>b. b < buffer_blocks nvm \<Longrightarrow> \<not> block_valid nvm b"
  shows "rebuild_loop m off nvm (int i) md = Some md"
  using fit base
proof (induction m arbitrary: off base)
  case (Suc m)
  have b: "base < buffer_blocks nvm" using Suc.prems by simp
  obtain d where d: "buffer_desc nvm base = Some d" by (rule buffer_desc_some [OF ok b])
  have "sint (md_per_block_num md) = int (unat (md_per_block_num md))" using per by (intro sint_small) simp
  then have "int i * sint (md_per_block_num md) + int off = int base" using Suc.prems(2) by simp
  then have "mix_buffer_get_meta nvm (int i * sint (md_per_block_num md) + int off) = Some d"
    using d by (simp add: buffer_desc_def)
  moreover have "meta_status d AND 1 = 0" using none [OF b] d by (simp add: block_valid_def)
  moreover have "rebuild_loop m (Suc off) nvm (int i) md = Some md"
    using Suc.IH [of "Suc base" "Suc off"] Suc.prems by simp
  ultimately show ?case by simp
qed simp

lemma segments_cleared:
  assumes "pmem_copies (env_cpy env)" "layout_ok nvm" "n * unat (md_per_block_num md) \<le> buffer_blocks nvm"
    "unat (md_per_block_num md) < 2 ^ 29"
  shows "\<exists>nvm'. clear_segments env n md nvm = Some nvm' \<and> invalidated {0..<n * unat (md_per_block_num md)} nvm nvm'"
  using assms(3)
proof (induction n)
  case 0
  then show ?case using assms(2) by (simp add: invalidated_refl)
next
  case (Suc n)
  let ?per = "unat (md_per_block_num md)"
  obtain nvm1 where 1: "clear_segments env n md nvm = Some nvm1" "invalidated {0..<n * ?per} nvm nvm1" using Suc by auto
  note l = invalidated_layout [OF 1(2)]
  obtain nvm2 where 2: "mix_segment_clear env md (int n) nvm1 = Some nvm2" "invalidated {n * ?per..<n * ?per + ?per} nvm1 nvm2"
    using segment_clear_loop_invalidates [OF assms(1), of nvm1 n md ?per] l Suc.prems assms(4)
    by (auto simp: mix_segment_clear_def add.commute)
  have "{0..<n * ?per} \<union> {n * ?per..<n * ?per + ?per} = {0..<Suc n * ?per}" by auto
  then show ?case using 1(1) 2(1) invalidated_trans [OF 1(2) 2(2)] by auto
qed

lemma rebuild_segments_nothing:
  assumes "layout_ok nvm" "n * unat (md_per_block_num md) \<le> buffer_blocks nvm" "unat (md_per_block_num md) < 2 ^ 29"
    "\<And>b. b < buffer_blocks nvm \<Longrightarrow> \<not> block_valid nvm b"
  shows "rebuild_segments n nvm md = Some md"
  using assms(2)
proof (induction n)
  case (Suc n)
  have "mix_buffer_rebuild nvm md (int n) = Some (md, True)"
    using rebuild_nothing [OF assms(1) _ _ assms(3,4), where base = "n * unat (md_per_block_num md)"
      and m = "unat (md_per_block_num md)" and off = 0] Suc.prems by (simp add: mix_buffer_rebuild_def add.commute)
  then show ?case using Suc by simp
qed simp

lemma init_queue: "length buf = 4096 * 66 \<Longrightarrow>
  \<exists>q. mix_queue_init (Some buf) (4096 * TASK_SIZE) TASK_SIZE = Some (Some q) \<and> queue_cap q = 4096"
  using mix_queue_init_power_of_two [of "4096 * TASK_SIZE" 12 TASK_SIZE buf] by (auto simp: TASK_SIZE_def)

lemma init_queues_ok:
  assumes "\<And>m. m \<in> set mems \<Longrightarrow> \<exists>buf. m = Some buf \<and> length buf = 4096 * 66"
  shows "\<exists>qs. init_queues mems (4096 * TASK_SIZE) TASK_SIZE = Some (map Some qs) \<and> length qs = length mems \<and>
    (\<forall>q \<in> set qs. queue_cap q = 4096)"
  using assms
proof (induction mems)
  case (Cons m ms)
  obtain qs where "init_queues ms (4096 * TASK_SIZE) TASK_SIZE = Some (map Some qs)" "length qs = length ms"
      "\<forall>q \<in> set qs. queue_cap q = 4096"
    using Cons by auto
  moreover obtain q where "mix_queue_init m (4096 * TASK_SIZE) TASK_SIZE = Some (Some q)" "queue_cap q = 4096"
    using Cons.prems [of m] init_queue by auto
  ultimately show ?case by (intro exI [of _ "q # qs"]) (simp add: init_queues_def)
qed (simp add: init_queues_def)

text \<open>The workers of a good start: what is needed when a later step fails.\<close>

lemma workers_of_good_boot:
  assumes "good_boot boot mem ssd"
  obtains info md bq nq where "mix_buffer_worker_init boot (4096 * TASK_SIZE) TASK_SIZE = Some (Some (info, md, map Some bq))"
    "init_queues (boot_nvm_queues boot) (4096 * TASK_SIZE) TASK_SIZE = Some (map Some nq)"
    "mix_buffer_init True = Some info" "length nq = 4" "\<forall>q \<in> set nq. queue_cap q = 4096"
    "mix_metadata_init (fst (boot_ceil boot)) (snd (boot_ceil boot)) (boot_old_flags boot) (boot_old_segs boot) 2048 = Some md"
    "unat (md_per_block_num md) = 512" "\<And>i. i < 4 \<Longrightarrow> filled md i 0" "threads_ok md"
proof -
  obtain bi where i: "mix_buffer_init True = Some bi" "(ucast (bi_block_num bi) :: u32) = 2048"
    by (simp add: mix_buffer_init_def BUFFER_SEGMENT_NUM_def SEGMENT_BLOCK_NUM_def Let_def)
  have "unat (2048 :: u32) = 32 * 64" "0 < (64 :: nat)" "64 < (2 :: nat) ^ 17" by simp_all
  then obtain md where md: "mix_metadata_init (fst (boot_ceil boot)) (snd (boot_ceil boot)) (boot_old_flags boot) (boot_old_segs boot) 2048 = Some md"
      "unat (md_per_block_num md) = 8 * 64" "\<And>i. i < 4 \<Longrightarrow> filled md i 0" "md_migrate_thread_num md = 8" "md_migration md = boot_old_flags boot"
    by (rule metadata_init_spec) blast
  obtain bq nq where q: "init_queues (boot_buffer_queues boot) (4096 * TASK_SIZE) TASK_SIZE = Some (map Some bq)"
      "init_queues (boot_nvm_queues boot) (4096 * TASK_SIZE) TASK_SIZE = Some (map Some nq)" "length nq = 4" "\<forall>q \<in> set nq. queue_cap q = 4096"
    using init_queues_ok [of "boot_buffer_queues boot"] init_queues_ok [of "boot_nvm_queues boot"] assms
    unfolding good_boot_def by (metis UnI1 UnI2)
  have "mix_buffer_worker_init boot (4096 * TASK_SIZE) TASK_SIZE = Some (Some (bi, md, map Some bq))"
    using assms i md(1) q(1) by (simp add: mix_buffer_worker_init_def good_boot_def)
  moreover have "threads_ok md" using assms md(4,5) by (simp add: threads_ok_def good_boot_def)
  ultimately show thesis using that q(2-4) i(1) md(1-3) by simp
qed

lemma metadata_init_flags:
  "mix_metadata_init nf nc flags old n = Some md \<Longrightarrow> map sg_migration (md_segments md) = [old ! 0, old ! 1, old ! 2, old ! 3]"
  by (auto simp: mix_metadata_init_def mix_free_segment_init_def Let_def split: bind_splits)

lemma invalidated_not_valid:
  assumes "invalidated B nvm nvm'" "layout_ok nvm" "b \<in> B" "b < buffer_blocks nvm"
  shows "\<not> block_valid nvm' b"
proof -
  obtain d where "buffer_desc nvm b = Some d" by (rule buffer_desc_some [OF assms(2,4)])
  then have "buffer_desc nvm' b = Some (d\<lparr>meta_status := 0\<rparr>)" using assms(1,3,4) by (simp add: invalidated_def)
  then show ?thesis by (simp add: block_valid_def)
qed

text \<open>\<open>mix_rebuild\<close> at the start: all descriptors become invalid, and the rebuild finds nothing.\<close>

lemma rebuild_at_start:
  assumes "pmem_copies (env_cpy env)" "layout_ok nvm" "4 * unat (md_per_block_num md) = buffer_blocks nvm"
    "unat (md_per_block_num md) < 2 ^ 29"
  obtains nvm' where "mix_rebuild env True (md, nvm) = Some (md, nvm')" "invalidated {0..<buffer_blocks nvm} nvm nvm'"
proof -
  obtain nvm' where n: "clear_segments env 4 md nvm = Some nvm'" "invalidated {0..<buffer_blocks nvm} nvm nvm'"
    using segments_cleared [OF assms(1,2), of 4 md] assms(3,4) by auto
  note l = invalidated_layout [OF n(2)]
  have "\<not> block_valid nvm' b" if "b < buffer_blocks nvm'" for b
    by (rule invalidated_not_valid [OF n(2) assms(2)]) (use that l in simp_all)
  then have "rebuild_segments 4 nvm' md = Some md" using rebuild_segments_nothing [of nvm' 4 md] l assms(3,4) by simp
  then show thesis using that n by (simp add: mix_rebuild_def)
qed

lemma mixdk_init_system:
  assumes cpy: "pmem_copies (env_cpy env)" and b: "good_boot boot mem ssd" and n: "1 \<le> n" "n \<le> 16"
  obtains sys st where "mixdk_init env boot n = Some (0, Some sys)" "idle sys" "sys_queue_size sys = 4096"
    "sys_ssd sys = ssd" "\<And>i. i < 4 \<Longrightarrow> seg_inv i 0 (sys_store sys)" "layout_ok (sys_nvm sys)"
    "nvm_blocks (sys_nvm sys) = 3 * 1024 * 1024" "buffer_blocks (sys_nvm sys) = 2048"
    "ns_mem st = mem" "layout_ok st" "invalidated {0..<2048} st (sys_nvm sys)" "unat (md_per_block_num (sys_meta sys)) = 512"
    "length (md_segments (sys_meta sys)) = 4" "\<And>i. i < 4 \<Longrightarrow> sg_migration (md_segments (sys_meta sys) ! i) = boot_old_segs boot ! i"
    "length (sys_inflight sys) = 16" "length (sys_out sys) = 16"
proof -
  obtain bi md bq nq where w: "mix_buffer_worker_init boot (4096 * TASK_SIZE) TASK_SIZE = Some (Some (bi, md, map Some bq))"
    "init_queues (boot_nvm_queues boot) (4096 * TASK_SIZE) TASK_SIZE = Some (map Some nq)"
    "mix_buffer_init True = Some bi" "length nq = 4" "\<forall>q \<in> set nq. queue_cap q = 4096"
    "mix_metadata_init (fst (boot_ceil boot)) (snd (boot_ceil boot)) (boot_old_flags boot) (boot_old_segs boot) 2048 = Some md"
    "unat (md_per_block_num md) = 512" "\<And>i. i < 4 \<Longrightarrow> filled md i 0" "threads_ok md"
    by (rule workers_of_good_boot [OF b]) blast
  obtain ni where ni: "mix_nvm_init True = Some ni" by (simp add: mix_nvm_init_def Let_def)
  obtain st where st: "mix_mmap (Some (mem, True)) ni bi = Some st" "ns_mem st = mem" "layout_ok st"
      "nvm_blocks st = 3 * 1024 * 1024" "buffer_blocks st = 2048"
    using mix_mmap_layout [OF _ ni w(3), of mem] b by (auto simp: good_boot_def)
  obtain st' where r: "mix_rebuild env True (md, st) = Some (md, st')" "invalidated {0..<buffer_blocks st} st st'"
    by (rule rebuild_at_start [OF cpy st(3), of md]) (use w(7) st(5) in simp_all)
  have l: "layout_ok st'" "buffer_blocks st' = 2048" "nvm_blocks st' = 3 * 1024 * 1024"
    using r(2) st(4,5) by (simp_all add: invalidated_def same_data_def)
  have cap: "queue_cap (hd nq) = 4096" using w(4,5) by (cases nq) simp_all
  define sys where "sys = start_system ssd md st' nq"
  have "n \<noteq> 0" "\<not> 16 < n" using n by auto
  then have "mixdk_init env boot n = Some (0, Some sys)"
    using b ni st(1) r(1) w(1,2)
    by (simp add: mixdk_init_def mix_init_scheduler_def mix_ssd_worker_init_def mix_nvm_worker_init_def
        good_boot_def comp_def list_all_iff flip: sys_def)
  moreover have "idle sys" "sys_queue_size sys = 4096" "sys_ssd sys = ssd" "sys_meta sys = md" "sys_nvm sys = st'"
      "length (sys_inflight sys) = 16" "length (sys_out sys) = 16"
    using cap by (simp_all add: sys_def start_system_def idle_def)
  moreover have "seg_inv i 0 (sys_store sys)" if "i < 4" for i
    using that w(7-9) l filled_0_none [OF w(8)] by (auto simp: seg_inv_def sys_def start_system_def)
  moreover note f = metadata_init_flags [OF w(6)]
  moreover have len: "length (md_segments md) = 4" using arg_cong [OF f, of length] by simp
  moreover have "sg_migration (md_segments md ! i) = boot_old_segs boot ! i" if "i < 4" for i
    using arg_cong [OF f, of "\<lambda>xs. xs ! i"] that len by (auto simp: less_Suc_eq numeral_eq_Suc)
  ultimately show thesis using that [of sys st] st(2,3,5) r(2) l w(7) by auto
qed

section \<open>The system as a whole\<close>

text \<open>A start of the program on the disk in memory, for the witnesses.\<close>

definition ram_boot :: "(u64 \<Rightarrow> u8 list) \<Rightarrow> (u64 \<Rightarrow> u8 list) boot" where
  "ram_boot ssd = \<lparr>boot_sched = True, boot_ssd = Some ssd, boot_buffer_info = True, boot_ceil = (7, \<lambda>_. 800),
     boot_old_flags = replicate 8 False, boot_old_segs = replicate 4 False,
     boot_buffer_queues = replicate 4 (Some (replicate (4096 * 66) 0)), boot_nvm_info = True, boot_nvm_queue = True,
     boot_nvm_queues = replicate 4 (Some (replicate (4096 * 66) 0)), boot_threads = replicate 4 True,
     boot_mapping = Some (replicate PMEM_LEN 0, True)\<rparr>"

lemma ram_boot_good: "good_boot (ram_boot ssd) (replicate PMEM_LEN 0) ssd"
  by (simp add: good_boot_def ram_boot_def)

lemma ram_system:
  obtains sys where "mixdk_init ram_env (ram_boot ssd) 1 = Some (0, Some sys)" "idle sys" "sys_queue_size sys = 4096" "sys_ssd sys = ssd"
    "\<And>i. i < 4 \<Longrightarrow> seg_inv i 0 (sys_store sys) \<and> ssd_open (sys_meta sys) i \<and> (\<forall>k. hash_stack (seg_hash (sys_meta sys) i) k = [])"
    "layout_ok (sys_nvm sys)" "nvm_blocks (sys_nvm sys) = 3 * 1024 * 1024" "unat (md_per_block_num (sys_meta sys)) = 512"
    "length (sys_inflight sys) = 16" "length (sys_out sys) = 16"
proof -
  obtain sys where s: "mixdk_init ram_env (ram_boot ssd) 1 = Some (0, Some sys)" "idle sys" "sys_queue_size sys = 4096" "sys_ssd sys = ssd"
    "\<And>i. i < 4 \<Longrightarrow> seg_inv i 0 (sys_store sys)" "layout_ok (sys_nvm sys)" "nvm_blocks (sys_nvm sys) = 3 * 1024 * 1024"
    "unat (md_per_block_num (sys_meta sys)) = 512" "length (md_segments (sys_meta sys)) = 4"
    "\<And>i. i < 4 \<Longrightarrow> sg_migration (md_segments (sys_meta sys) ! i) = boot_old_segs (ram_boot ssd) ! i"
    "length (sys_inflight sys) = 16" "length (sys_out sys) = 16"
    by (rule mixdk_init_system [OF ram_env_ok(1) ram_boot_good [of ssd], of 1]) (blast | simp)+
  have "ssd_open (sys_meta sys) i" if "i < 4" for i
    unfolding ssd_open_def using s(9) s(10) [of "if i = 0 then 1 else 0"]
    by (intro conjI exI [of _ "if i = 0 then 1 else 0"]) (simp_all add: ram_boot_def)
  moreover have "hash_stack (seg_hash (sys_meta sys) i) k = []" if "i < 4" for i k
    using s(5) [OF that] filled_0_none by (simp add: seg_inv_def)
  ultimately show thesis using that [OF s(1-4)] s by blast
qed

lemma round_robin_fair: "fair [0, 1, 2, 3, 0, 1, 2, 3]"
  by (auto simp: fair_def less_Suc_eq numeral_eq_Suc)

lemma no_flags: "plain_flags 0"
  by (simp add: plain_flags_def)

text \<open>C6. A request below the threshold of the scheduler is written to the NVM area and read back: for every
  order in which the workers poll, as long as each polls twice, both calls return the length, the read
  delivers the blocks that were written, and the queues are empty again. Nothing else changes: in the
  persistent memory the bytes of the written blocks are the only ones that differ, so all other NVM blocks,
  the data of the buffer and its descriptors are kept; the metadata, the index, the SSD, the queues and the
  results and counters of all other callers are the same. Only the counters of the two slots (0), their
  pointers for reads (null) and the turns of the workers may differ.\<close>

theorem nvm_write_then_read:
  assumes "pmem_copies (env_cpy env)" "layout_ok (sys_nvm sys)" "idle sys" "fair ws" "fair ws'"
    "slot < length (sys_inflight sys)" "slot' < length (sys_inflight sys)" "slot' < length (sys_out sys)"
    "nvm_request (sys_nvm sys) off n" "n * 4096 \<le> length src" "plain_flags flags" "plain_flags flags'"
  shows "\<exists>sys1 sys2. mixdk_write env ts ws junk src (of_nat n) (of_nat off) flags slot sys = Some (sys1, of_nat n) \<and>
    mixdk_read env ts ws' junk (of_nat n) (of_nat off) flags' slot' sys1 = Some (sys2, of_nat n) \<and>
    sys_out sys2 ! slot' = take (n * 4096) src \<and> idle sys2 \<and>
    same_nvm_data (sys_nvm sys) (sys_nvm sys2) (\<lambda>j. j < off \<or> off + n \<le> j) \<and>
    same_buffer_data (sys_nvm sys) (sys_nvm sys2) (\<lambda>_. True) \<and> same_buffer_desc (sys_nvm sys) (sys_nvm sys2) (\<lambda>_. True) \<and>
    sys2 = sys\<lparr>sys_nvm := nvm_written (sys_nvm sys) off (take (n * 4096) src),
      sys_inflight := (sys_inflight sys)[slot := 0, slot' := 0], sys_out := (sys_out sys)[slot' := take (n * 4096) src],
      sys_read_ptrs := (sys_read_ptrs sys)[slot := (False, False), slot' := (False, False)], sys_seq := sys_seq sys2\<rparr>"
proof -
  obtain sys1 where w: "mixdk_write env ts ws junk src (of_nat n) (of_nat off) flags slot sys = Some (sys1, of_nat n)"
    "idle sys1" "nvm_blocks (sys_nvm sys1) = nvm_blocks (sys_nvm sys)"
    "mix_nvm_read (sys_nvm sys1) (of_nat n) (of_nat off) = Some (take (n * 4096) src, of_nat n)"
    "same_nvm_data (sys_nvm sys) (sys_nvm sys1) (\<lambda>j. j < off \<or> off + n \<le> j)"
    "same_buffer_data (sys_nvm sys) (sys_nvm sys1) (\<lambda>_. True)" "same_buffer_desc (sys_nvm sys) (sys_nvm sys1) (\<lambda>_. True)"
    "sys1 = sys\<lparr>sys_nvm := nvm_written (sys_nvm sys) off (take (n * 4096) src), sys_inflight := (sys_inflight sys)[slot := 0],
       sys_read_ptrs := (sys_read_ptrs sys)[slot := (False, False)], sys_seq := sys_seq sys1\<rparr>"
    by (rule nvm_write_completes [OF assms(1-4,6,9-11)]) blast
  note f = arg_cong [OF w(8), of sys_inflight, simplified] arg_cong [OF w(8), of sys_out, simplified]
    arg_cong [OF w(8), of sys_read_ptrs, simplified]
  have r: "nvm_request (sys_nvm sys1) off n" "slot' < length (sys_inflight sys1)" "slot' < length (sys_out sys1)"
    using assms(7-9) w(3) by (simp_all add: nvm_request_def f)
  obtain sys2 where s: "mixdk_read env ts ws' junk (of_nat n) (of_nat off) flags' slot' sys1 = Some (sys2, of_nat n)"
    "idle sys2" "sys2 = sys1\<lparr>sys_inflight := (sys_inflight sys1)[slot' := 0], sys_out := (sys_out sys1)[slot' := take (n * 4096) src],
       sys_read_ptrs := (sys_read_ptrs sys1)[slot' := (False, False)], sys_seq := sys_seq sys2\<rparr>"
    by (rule nvm_read_completes [OF w(2) assms(5) r(2,3,1) assms(12) w(4)]) blast
  have g: "sys_nvm sys2 = sys_nvm sys1" "sys_out sys2 ! slot' = take (n * 4096) src"
    using arg_cong [OF s(3), of sys_nvm] arg_cong [OF s(3), of sys_out] r(3) by simp_all
  have "sys2 = sys\<lparr>sys_nvm := nvm_written (sys_nvm sys) off (take (n * 4096) src),
      sys_inflight := (sys_inflight sys)[slot := 0, slot' := 0], sys_out := (sys_out sys)[slot' := take (n * 4096) src],
      sys_read_ptrs := (sys_read_ptrs sys)[slot := (False, False), slot' := (False, False)], sys_seq := sys_seq sys2\<rparr>"
    using s(3) unfolding f by (subst (asm) w(8)) simp
  then show ?thesis using w(1,5-7) s(1,2) g by (intro exI [of _ sys1] exI [of _ sys2] conjI) simp_all
qed

theorem nvm_write_then_read_witness:
  "\<exists>sys sys1 sys2. mixdk_init ram_env (ram_boot (\<lambda>_. [])) 1 = Some (0, Some sys) \<and>
     mixdk_write ram_env [] [0, 1, 2, 3, 0, 1, 2, 3] (small_write 0 []) (replicate 8192 7) 2 1000 0 3 sys = Some (sys1, 2) \<and>
     mixdk_read ram_env [] [0, 1, 2, 3, 0, 1, 2, 3] (small_write 0 []) 2 1000 0 5 sys1 = Some (sys2, 2) \<and>
     sys_out sys2 ! 5 = replicate 8192 7"
proof -
  obtain sys where s: "mixdk_init ram_env (ram_boot (\<lambda>_. [])) 1 = Some (0, Some sys)" "idle sys"
    "layout_ok (sys_nvm sys)" "nvm_blocks (sys_nvm sys) = 3 * 1024 * 1024" "length (sys_inflight sys) = 16" "length (sys_out sys) = 16"
    by (rule ram_system) blast
  have p: "3 < length (sys_inflight sys)" "5 < length (sys_inflight sys)" "5 < length (sys_out sys)"
    "nvm_request (sys_nvm sys) 1000 2" "2 * 4096 \<le> length (replicate 8192 7 :: u8 list)"
    using s(4-6) by (simp_all add: nvm_request_def)
  from nvm_write_then_read [OF ram_env_ok(1) s(3,2) round_robin_fair round_robin_fair p no_flags no_flags, of "[]" "small_write 0 []"]
  show ?thesis using s(1) by auto
qed

text \<open>C18. A block that was just written is not read back: a write of one block above the threshold is put
  into the buffer, but a read asks the SSD only and delivers what the SSD held before.\<close>

theorem buffered_write_not_read_back:
  assumes "pmem_copies (env_cpy env)" "ssd_device env blk cap" "idle sys" "fair ws"
    "slot < length (sys_inflight sys)" "slot' < length (sys_inflight sys)" "slot' < length (sys_out sys)"
    "plain_flags flags" "plain_flags flags'" "4096 \<le> length src" "k < 2 ^ 32 - 1" "k < cap" "i = k mod 4"
    "seg_inv i n (sys_store sys)" "n < unat (md_per_block_num (sys_meta sys))"
    "hash_stack (seg_hash (sys_meta sys) i) (of_nat k) = []" "ssd_open (sys_meta sys) i"
  shows "\<exists>sys1 sys2. mixdk_write env ts ws junk src 1 (of_nat (k + 1928765)) flags slot sys = Some (sys1, 1) \<and>
    seg_view blk i (fst (sys_store sys1)) (of_nat k) = take 4096 src \<and>
    mixdk_read env ts ws' junk 1 (of_nat (k + 1928765)) flags' slot' sys1 = Some (sys2, 1) \<and>
    sys_out sys2 ! slot' = blk (sys_ssd sys) (of_nat k)"
proof -
  obtain sys1 where w: "mixdk_write env ts ws junk src 1 (of_nat (k + 1928765)) flags slot sys = Some (sys1, 1)"
    "sys_ssd sys1 = sys_ssd sys" "sys_out sys1 = sys_out sys" "length (sys_inflight sys1) = length (sys_inflight sys)"
    "same_other_segments i (sys_meta sys) (sys_meta sys1)"
    "seg_view blk i (fst (sys_store sys1)) = (seg_view blk i (fst (sys_store sys)))(of_nat k := take 4096 src)"
    by (rule buffered_write_completes [OF assms(1,3-5,8,10,11,13-16)]) blast
  have o: "mix_buffer_migrating (sys_meta sys1) = Some False" using ssd_open_migrating ssd_open_other [OF assms(17) w(5)] .
  have p: "slot' < length (sys_inflight sys1)" "slot' < length (sys_out sys1)" "k + 1 \<le> cap" "k + 1 < 2 ^ 63" "(1 :: nat) < 2 ^ 31"
    using assms(6,7,11,12) w(3,4) by simp_all
  show ?thesis
    using w ssd_read_completes [OF assms(2) o p(1,2) assms(9) p(3-5), of ts ws' junk] p(2) by auto
qed

theorem buffered_write_not_read_back_witness:
  "\<exists>sys sys1 sys2. mixdk_init ram_env (ram_boot (\<lambda>_. replicate 4096 9)) 1 = Some (0, Some sys) \<and>
     mixdk_write ram_env [] [0, 1, 2, 3, 0, 1, 2, 3] (small_write 0 []) (replicate 4096 7) 1 1928771 0 0 sys = Some (sys1, 1) \<and>
     mixdk_read ram_env [] [] (small_write 0 []) 1 1928771 0 0 sys1 = Some (sys2, 1) \<and>
     sys_out sys2 ! 0 = replicate 4096 9"
proof -
  obtain sys where s: "mixdk_init ram_env (ram_boot (\<lambda>_. replicate 4096 9)) 1 = Some (0, Some sys)" "idle sys" "sys_ssd sys = (\<lambda>_. replicate 4096 9)"
    "\<And>i. i < 4 \<Longrightarrow> seg_inv i 0 (sys_store sys) \<and> ssd_open (sys_meta sys) i \<and> (\<forall>k. hash_stack (seg_hash (sys_meta sys) i) k = [])"
    "unat (md_per_block_num (sys_meta sys)) = 512" "length (sys_inflight sys) = 16" "length (sys_out sys) = 16"
    by (rule ram_system) blast
  have p: "0 < length (sys_inflight sys)" "0 < length (sys_out sys)" "4096 \<le> length (replicate 4096 7 :: u8 list)" "(6 :: nat) < 2 ^ 32 - 1"
    "(6 :: nat) < 1000" "2 = (6 :: nat) mod 4" "0 < unat (md_per_block_num (sys_meta sys))"
    using s(5-7) by simp_all
  have q: "seg_inv 2 0 (sys_store sys)" "hash_stack (seg_hash (sys_meta sys) 2) (of_nat 6) = []" "ssd_open (sys_meta sys) 2" using s(4) [of 2] by simp_all
  have d: "ssd_device ram_env id 1000" by (rule ram_env_device) simp
  from buffered_write_not_read_back [OF ram_env_ok(1) d s(2) round_robin_fair p(1,1,2) no_flags no_flags p(3-6) q(1) p(7) q(2,3),
      of "[]" "small_write 0 []" "[]"]
  show ?thesis using s(1,3) by auto
qed

text \<open>C17. A large write is undone by an older small one: a block whose address is divisible by four was buffered
  in segment 0, a later write of several blocks that covers it goes to the SSD, its clearing subtasks are
  ignored whatever the workers do, and the next migration of the segment puts the older content back on the
  SSD. (In the other three segments a migration copies a wrong
  block, as \<open>migration_copies_wrong_block\<close> shows.)\<close>

theorem stale_copy_overwrites_large_write:
  assumes "pmem_copies (env_cpy env)" "ssd_stores env blk" "ssd_device env blk cap" "idle sys" "4 \<le> sys_queue_size sys" "fair ws"
    "slot < length (sys_inflight sys)" "plain_flags flags" "4096 \<le> length old" "m * 4096 \<le> length new"
    "k mod 4 = 0" "k0 \<le> k" "k < k0 + m" "1 < m" "k0 + m \<le> cap" "k0 + m < 2 ^ 31"
    "seg_inv 0 n (sys_store sys)" "n < unat (md_per_block_num (sys_meta sys))"
    "hash_stack (seg_hash (sys_meta sys) 0) (of_nat k) = []" "ssd_open (sys_meta sys) 0" "distinct ts" "set ts = {..<8}"
  shows "\<exists>sys1 sys2. mixdk_write env ts ws junk old 1 (of_nat (k + 1928765)) flags slot sys = Some (sys1, 1) \<and>
    mixdk_write env ts ws' junk new (of_nat m) (of_nat (k0 + 1928765)) flags slot sys1 = Some (sys2, of_nat m) \<and>
    blk (sys_ssd sys2) (of_nat k) = chunk 4096 new (k - k0) \<and>
    (\<forall>vs. set vs \<subseteq> {..<4} \<longrightarrow> (\<exists>sys3 md nvm ssd c. run_polls env ts vs sys2 = Some sys3 \<and>
       mix_migrate_segment env ts 0 (sys_store sys3) = Some ((md, nvm, ssd), c) \<and> blk ssd (of_nat k) = take 4096 old))"
proof -
  have k: "k < 2 ^ 32 - 1" "0 = k mod 4" "k < 2 ^ 64" using assms(11,13,16) by simp_all
  have key: "(ucast (of_nat k :: u32) :: u64) = of_nat k"
    using k(1) by (simp add: word_unat_eq_iff unat_ucast_up unsigned_of_nat take_bit_nat_eq_self)
  obtain sys1 where w: "mixdk_write env ts ws junk old 1 (of_nat (k + 1928765)) flags slot sys = Some (sys1, 1)" "idle sys1"
    "length (sys_inflight sys1) = length (sys_inflight sys)" "sys_queue_size sys1 = sys_queue_size sys"
    "seg_inv 0 (Suc n) (sys_store sys1)" "same_other_segments 0 (sys_meta sys) (sys_meta sys1)"
    "seg_view blk 0 (fst (sys_store sys1)) = (seg_view blk 0 (fst (sys_store sys)))(of_nat k := take 4096 old)"
    "hash_stack (seg_hash (sys_meta sys1) 0) (of_nat k) = [of_nat n]"
    by (rule buffered_write_completes [OF assms(1,4,6-9) k(1,2) assms(17-19)]) blast
  have o: "mix_buffer_migrating (sys_meta sys1) = Some False" using ssd_open_migrating ssd_open_other [OF assms(20) w(6)] .
  have s: "4 \<le> sys_queue_size sys1" "slot < length (sys_inflight sys1)" using assms(5,7) w(3,4) by simp_all
  obtain sys2 where l: "mixdk_write env ts ws' junk new (of_nat m) (of_nat (k0 + 1928765)) flags slot sys1 = Some (sys2, of_nat m)"
    "only_clearing sys2" "sys_meta sys2 = sys_meta sys1" "sys_nvm sys2 = sys_nvm sys1" "sys_completed sys2 = sys_completed sys1"
    "\<And>b. b < 2 ^ 64 \<Longrightarrow> blk (sys_ssd sys2) (of_nat b) = (if k0 \<le> b \<and> b < k0 + m then chunk 4096 new (b - k0) else blk (sys_ssd sys1) (of_nat b))"
    by (rule large_write_completes [OF assms(3) o w(2) s assms(8,15,16,14,10)]) blast
  have inv: "seg_inv 0 (Suc n) (sys_store sys2)" using w(5) l(3-5) by (simp add: seg_inv_def)
  obtain md nvm ssd where mg: "mix_migrate_segment env ts 0 (sys_store sys2) = Some ((md, nvm, ssd), (sys_completed sys2)[0 := 0])"
    "seg_inv 0 0 ((md, nvm, ssd), (sys_completed sys2)[0 := 0])" "seg_view blk 0 (md, nvm, ssd) = seg_view blk 0 (fst (sys_store sys2))"
    by (rule migrate_view [OF assms(1,2) inv assms(21,22)]) (simp_all only: fst_conv)
  have "seg_view blk 0 (fst (sys_store sys2)) (of_nat k) = take 4096 old"
    using fun_cong [OF w(7), of "of_nat k"] w(8) l(3,4) by (simp add: seg_view_def)
  moreover have "hash_stack (seg_hash md 0) (of_nat k) = []" using mg(2) filled_0_none by (simp add: seg_inv_def)
  ultimately have "blk ssd (of_nat k) = take 4096 old"
    using fun_cong [OF mg(3), of "of_nat k"] key by (simp add: seg_view_def)
  then have "\<exists>sys3 md nvm ssd c. run_polls env ts vs sys2 = Some sys3 \<and>
       mix_migrate_segment env ts 0 (sys_store sys3) = Some ((md, nvm, ssd), c) \<and> blk ssd (of_nat k) = take 4096 old"
    if "set vs \<subseteq> {..<4}" for vs
    using run_polls_clearing [OF l(2) that, of env ts] mg(1) by (metis (no_types, lifting))
  moreover have "blk (sys_ssd sys2) (of_nat k) = chunk 4096 new (k - k0)" using l(6) [OF k(3)] assms(12,13) by simp
  ultimately show ?thesis using w(1) l(1) by blast
qed

theorem stale_copy_overwrites_large_write_witness:
  "\<exists>sys sys1 sys2 md nvm ssd c. mixdk_init ram_env (ram_boot (\<lambda>_. replicate 4096 9)) 1 = Some (0, Some sys) \<and>
     mixdk_write ram_env [0..<8] [0, 1, 2, 3, 0, 1, 2, 3] (small_write 0 []) (replicate 4096 7) 1 (of_nat 1928773) 0 0 sys = Some (sys1, 1) \<and>
     mixdk_write ram_env [0..<8] [] (small_write 0 []) (replicate 8192 5) 2 (of_nat 1928773) 0 0 sys1 = Some (sys2, 2) \<and>
     sys_ssd sys2 8 = replicate 4096 5 \<and>
     mix_migrate_segment ram_env [0..<8] 0 (sys_store sys2) = Some ((md, nvm, ssd), c) \<and> ssd 8 = replicate 4096 7"
proof -
  obtain sys where s: "mixdk_init ram_env (ram_boot (\<lambda>_. replicate 4096 9)) 1 = Some (0, Some sys)" "idle sys" "sys_queue_size sys = 4096"
    "\<And>i. i < 4 \<Longrightarrow> seg_inv i 0 (sys_store sys) \<and> ssd_open (sys_meta sys) i \<and> (\<forall>k. hash_stack (seg_hash (sys_meta sys) i) k = [])"
    "unat (md_per_block_num (sys_meta sys)) = 512" "length (sys_inflight sys) = 16" "length (sys_out sys) = 16"
    by (rule ram_system) blast
  have p: "4 \<le> sys_queue_size sys" "0 < length (sys_inflight sys)" "4096 \<le> length (replicate 4096 7 :: u8 list)"
    "2 * 4096 \<le> length (replicate 8192 5 :: u8 list)" "(8 :: nat) mod 4 = 0" "8 \<le> (8 :: nat)" "(8 :: nat) < 8 + 2" "1 < (2 :: nat)"
    "8 + 2 \<le> (1000 :: nat)" "8 + 2 < (2 :: nat) ^ 31" "0 < unat (md_per_block_num (sys_meta sys))"
    "distinct [0..<8 :: nat]" "set [0..<8] = {..<8 :: nat}"
    using s(3,5,6) by auto
  have q: "seg_inv 0 0 (sys_store sys)" "hash_stack (seg_hash (sys_meta sys) 0) (of_nat 8) = []" "ssd_open (sys_meta sys) 0" using s(4) [of 0] by simp_all
  have d: "ssd_device ram_env id 1000" by (rule ram_env_device) simp
  have c: "chunk 4096 (replicate 8192 5 :: u8 list) (8 - 8) = replicate 4096 5" by (simp add: chunk_def)
  from stale_copy_overwrites_large_write [OF ram_env_ok d s(2) p(1) round_robin_fair p(2) no_flags p(3-10) q(1) p(11) q(2,3) p(12,13),
      of "small_write 0 []" "[]"]
  obtain sys1 sys2 where r: "mixdk_write ram_env [0..<8] [0, 1, 2, 3, 0, 1, 2, 3] (small_write 0 []) (replicate 4096 7) 1 (of_nat (8 + 1928765)) 0 0 sys = Some (sys1, 1)"
    "mixdk_write ram_env [0..<8] [] (small_write 0 []) (replicate 8192 5) (of_nat 2) (of_nat (8 + 1928765)) 0 0 sys1 = Some (sys2, of_nat 2)"
    "id (sys_ssd sys2) (of_nat 8) = chunk 4096 (replicate 8192 5) (8 - 8)"
    and m: "\<exists>sys3 md nvm ssd c. run_polls ram_env [0..<8] [] sys2 = Some sys3 \<and>
       mix_migrate_segment ram_env [0..<8] 0 (sys_store sys3) = Some ((md, nvm, ssd), c) \<and> id ssd (of_nat 8) = take 4096 (replicate 4096 7)"
    by (metis empty_subsetI list.set(1))
  then show ?thesis using s(1) unfolding c by auto
qed

text \<open>C10. Starting the program gives a running system with four empty segments and empty queues, and it
  forgets the write buffer: whatever the persistent memory held, all descriptors are invalidated before
  the segments are rebuilt, so no block that was buffered before is found. The blocks of the NVM area
  and the data of the buffer are kept.\<close>

theorem start_forgets_buffered_blocks:
  assumes "pmem_copies (env_cpy env)" "good_boot boot mem ssd" "1 \<le> n" "n \<le> 16"
  shows "\<exists>sys st. mixdk_init env boot n = Some (0, Some sys) \<and> idle sys \<and> sys_queue_size sys = 4096 \<and> ns_mem st = mem \<and>
    (\<forall>i < 4. seg_inv i 0 (sys_store sys) \<and> (\<forall>k. mix_buffer_block_test (sys_meta sys) k (int i) = Some (-1))) \<and>
    (\<forall>b < 2048. \<not> block_valid (sys_nvm sys) b \<and> buffer_data (sys_nvm sys) b = buffer_data st b) \<and>
    (\<forall>j < 3 * 1024 * 1024. nvm_data (sys_nvm sys) j = nvm_data st j)"
proof -
  obtain sys st where s: "mixdk_init env boot n = Some (0, Some sys)" "idle sys" "sys_queue_size sys = 4096"
    "\<And>i. i < 4 \<Longrightarrow> seg_inv i 0 (sys_store sys)" "nvm_blocks (sys_nvm sys) = 3 * 1024 * 1024" "buffer_blocks (sys_nvm sys) = 2048"
    "ns_mem st = mem" "layout_ok st" "invalidated {0..<2048} st (sys_nvm sys)"
    by (rule mixdk_init_system [OF assms]) blast
  have d: "same_data st (sys_nvm sys)" "buffer_blocks st = 2048" "nvm_blocks st = 3 * 1024 * 1024"
    using s(5,6,9) by (auto simp: invalidated_def same_data_def)
  have "\<not> block_valid (sys_nvm sys) b" if "b < 2048" for b
    by (rule invalidated_not_valid [OF s(9,8)]) (use that d in simp_all)
  moreover have "mix_buffer_block_test (sys_meta sys) k (int i) = Some (-1)" if "i < 4" for i k
  proof -
    have "filled (sys_meta sys) i 0" using s(4) [OF that] by (simp add: seg_inv_def)
    then show ?thesis by (simp add: block_test_none filled_0_none)
  qed
  ultimately show ?thesis using s d by (auto simp: same_data_def)
qed

theorem start_forgets_buffered_blocks_witness:
  "\<exists>sys :: (u64 \<Rightarrow> u8 list) system. mixdk_init ram_env (ram_boot (\<lambda>_. [])) 16 = Some (0, Some sys) \<and> idle sys \<and>
     mix_buffer_block_test (sys_meta sys) 77 3 = Some (-1) \<and> \<not> block_valid (sys_nvm sys) 2047"
proof -
  have "1 \<le> (16 :: u8)" "(16 :: u8) \<le> 16" by simp_all
  from start_forgets_buffered_blocks [OF ram_env_ok(1) ram_boot_good this, of "\<lambda>_. []"]
  obtain sys where "mixdk_init ram_env (ram_boot (\<lambda>_. [])) 16 = Some (0, Some sys)" "idle sys"
    "\<forall>i < 4. \<forall>k. mix_buffer_block_test (sys_meta sys) k (int i) = Some (-1)" "\<forall>b < 2048. \<not> block_valid (sys_nvm sys) b"
    by blast
  moreover from this(3) have "mix_buffer_block_test (sys_meta sys) 77 (int 3) = Some (-1)" by (elim allE [of _ 3]) simp
  ultimately show ?thesis by auto
qed

text \<open>C19. \<open>mixdk_init\<close> reports success although the start failed: when the context, the SSD, the
  buffer or NVM information, the queue array or one of the threads cannot be had, \<open>mix_init_scheduler\<close> returns -1
  and no system is running, but the result is 0.\<close>

theorem init_hides_failure:
  assumes "good_boot boot mem ssd" "1 \<le> n" "n \<le> 16" "j < 4"
    "broken \<in> {boot\<lparr>boot_sched := False\<rparr>, boot\<lparr>boot_ssd := None\<rparr>, boot\<lparr>boot_buffer_info := False\<rparr>,
       boot\<lparr>boot_nvm_info := False\<rparr>, boot\<lparr>boot_nvm_queue := False\<rparr>, boot\<lparr>boot_threads := (replicate 4 True)[j := False]\<rparr>}"
  shows "mix_init_scheduler env broken (4096 * TASK_SIZE) TASK_SIZE = Some (-1, None) \<and> mixdk_init env broken n = Some (0, None)"
proof -
  have i: "n \<noteq> 0" "\<not> 16 < n" using assms by auto
  obtain info md bq nq where r: "mix_buffer_worker_init boot (4096 * TASK_SIZE) TASK_SIZE = Some (Some (info, md, bq))"
      "init_queues (boot_nvm_queues boot) (4096 * TASK_SIZE) TASK_SIZE = Some (map Some nq)"
    by (rule workers_of_good_boot [OF assms(1)])
  have t: "\<not> list_all id ((replicate 4 True)[j := False])"
    using assms(4) by (simp add: list_all_length) (auto intro: exI [of _ j])
  have g: "boot_sched boot" "boot_ssd boot = Some ssd" "boot_buffer_info boot" "boot_nvm_info boot" "boot_nvm_queue boot"
    using assms(1) by (simp_all add: good_boot_def)
  have b: "mix_buffer_worker_init (boot\<lparr>boot_nvm_info := False\<rparr>) = mix_buffer_worker_init boot"
    "mix_buffer_worker_init (boot\<lparr>boot_nvm_queue := False\<rparr>) = mix_buffer_worker_init boot"
    "mix_buffer_worker_init (boot\<lparr>boot_threads := x\<rparr>) = mix_buffer_worker_init boot" for x
    by (simp_all add: mix_buffer_worker_init_def fun_eq_iff split: option.split)
  have "mix_init_scheduler env broken (4096 * TASK_SIZE) TASK_SIZE = Some (-1, None)"
    using assms(5) g r b t
    by (auto simp: mix_init_scheduler_def mix_ssd_worker_init_def mix_buffer_init_def mix_nvm_init_def mix_nvm_worker_init_def
        Let_def mix_buffer_worker_init_def [of "boot\<lparr>boot_buffer_info := False\<rparr>"])
  then show ?thesis using i by (simp add: mixdk_init_def)
qed

theorem init_hides_failure_witness:
  "mixdk_init ram_env ((ram_boot (\<lambda>_. []))\<lparr>boot_ssd := None\<rparr>) 4 = Some (0, None)"
  by (rule conjunct2 [OF init_hides_failure [OF ram_boot_good [of "\<lambda>_. []"], of 4 0]]) simp_all

text \<open>A read that begins below the threshold and ends above it is sent to the SSD as a whole, with an
  offset that has wrapped around below 0.\<close>

lemma straddling_read_wraps:
  assumes "off < 1928765" "1928765 \<le> off + n" "off + n < 2 ^ 31" "mix_buffer_migrating (sys_meta sys) = Some False"
    "slot < length (sys_inflight sys)" "slot < length (sys_out sys)" "plain_flags flags"
  shows "mixdk_read env ts ws junk (of_nat n) (of_nat off) flags slot sys =
    map_option (\<lambda>bytes. (sys\<lparr>sys_inflight := (sys_inflight sys)[slot := int n], sys_out := (sys_out sys)[slot := bytes],
      sys_read_ptrs := (sys_read_ptrs sys)[slot := (True, True)]\<rparr>, of_nat n))
      (env_ssd_read env (sys_ssd sys) (of_nat n) (of_nat (2 ^ 64 - (1928765 - off))) (MIX_READ OR flags))"
proof -
  have n: "n < 2 ^ 31" using assms(3) by simp
  have "\<not> (of_nat off + of_nat n :: u64) < sched_threshold"
    using assms(2,3) by (simp add: sched_threshold_def word_less_nat_alt unsigned_of_nat take_bit_nat_eq_self flip: of_nat_add)
  moreover have "(of_nat (2 ^ 64 - (1928765 - off)) :: u64) = of_nat off - sched_threshold"
  proof -
    have "of_nat (2 ^ 64 - (1928765 - off)) + of_nat (1928765 - off) = (of_nat (2 ^ 64) :: u64)"
      unfolding of_nat_add [symmetric] using assms(1) by simp
    moreover have "(of_nat (1928765 - off) :: u64) = sched_threshold - of_nat off" using assms(1) by (simp add: sched_threshold_def)
    moreover have "(of_nat (2 ^ 64) :: u64) = 0" by (simp add: word_unat_eq_iff unsigned_of_nat)
    ultimately show ?thesis by (simp add: algebra_simps add_eq_0_iff)
  qed
  ultimately show ?thesis
    using assms(4-6) plain_opcode [OF assms(7), of MIX_READ] small_words [OF n]
    by (cases "env_ssd_read env (sys_ssd sys) (of_nat n) (of_nat off - sched_threshold) (MIX_READ OR flags)")
      (simp_all add: mixdk_read_def init_io_task_def mix_post_task_to_io_def mix_post_task_to_data_def mix_post_task_to_ssd_def
        arr_set_def arr_get_def Let_def)
qed

end
