(* ===== verification/Concurrent.thy ===== *)
theory Concurrent
  imports Mixdk "HOL-Library.Multiset"
begin

text \<open>
  Several callers at once: up to sixteen threads call \<open>mixdk_write\<close> and \<open>mixdk_read\<close>
  (\<open>src/src/mixdk.c\<close>), each with a slot of its own, while the four workers of \<open>src/src/nvm_worker.cpp\<close>
  poll, in any interleaving. A call is cut at its loop \<open>mix_wait_for_task_completed\<close>: \<open>begin_write\<close>
  and \<open>begin_read\<close> are the part before it, and \<open>write_enters\<close> and \<open>read_enters\<close> show that the calls of
  \<open>Scheduler\<close> are these followed by the loop. Posting a task, a poll with the work it leads to, and the
  test of the counter are one step each. A read behind the threshold waits for no worker: it is one step,
  \<open>ssd_read_call\<close>, which \<open>read_fetches\<close> shows to be the whole call. A write of several blocks behind the
  threshold waits for no worker either: it posts its clearing subtasks, one step each, and then writes to
  the SSD, \<open>ssd_store_call\<close>; \<open>large_write_steps\<close> shows that these steps are the call.

  The specification is a disk with a write buffer on which each request is one step (\<open>disk\<close>, \<open>execute\<close>,
  \<open>effect\<close>); it shows what becomes of the buffer when a part of it is full. The lemma \<open>serve_request\<close> shows
  that a worker that takes the task of a request does what the specification does, with the migration that
  the task may lead to, which is part of the step; \<open>Interleaving\<close> has the runs.
\<close>

section \<open>Calls up to their wait\<close>

text \<open>The part of a call before its loop: \<open>mix_post_task_to_io\<close> for a request below the threshold or for a
  write of one block, up to \<open>mix_wait_for_task_completed\<close>.\<close>

definition enter_task :: "io_task \<Rightarrow> 's system \<Rightarrow> 's system option" where
  "enter_task task sys =
     (if task_offset task + task_len task < sched_threshold
      then let task = task\<lparr>task_type := NVM_TASK, task_queue_idx := ucast (task_offset task mod of_nat NVM_QUEUE_NUM)\<rparr>;
               (qs, _) = put_task (sys_queue_size sys) (sys_nvm_queue sys) (unat (task_offset task AND (of_nat NVM_QUEUE_NUM - 1))) task
           in Some (sys\<lparr>sys_nvm_queue := qs\<rparr>)
      else let task = task\<lparr>task_offset := task_offset task - sched_threshold, task_type := SSD_TASK\<rparr>;
               (qs, posted) = put_task (sys_queue_size sys) (sys_buffer_queue sys) (unat (task_offset task AND 3)) task
           in if posted then Some (sys\<lparr>sys_buffer_queue := qs\<rparr>) else None)"

definition begin_write :: "u8 list \<Rightarrow> u64 \<Rightarrow> u64 \<Rightarrow> u64 \<Rightarrow> nat \<Rightarrow> 's system \<Rightarrow> 's system option" where
  "begin_write src len0 offset flags idx sys = do {
     (task, sys) \<leftarrow> init_io_task src len0 offset (flags OR MIX_WRITE) idx sys;
     enter_task task sys
   }"

definition begin_read :: "u64 \<Rightarrow> u64 \<Rightarrow> u64 \<Rightarrow> nat \<Rightarrow> 's system \<Rightarrow> 's system option" where
  "begin_read len0 offset flags idx sys = do {
     dst \<leftarrow> arr_get (sys_out sys) (int idx);
     (task, sys) \<leftarrow> init_io_task dst len0 offset (MIX_READ OR flags) idx sys;
     enter_task task sys
   }"

lemma post_enters:
  assumes "task_offset task + task_len task < sched_threshold \<or>
     task_len task \<le> small_threshold \<and> task_opcode task AND (MIX_READ OR MIX_WRITE) = MIX_WRITE"
  shows "mix_post_task_to_io env ts ws junk task sys = enter_task task sys \<bind>
    (\<lambda>sys. map_option (\<lambda>sys. (sys, scast (ucast (task_len task) :: u32)))
      (mix_wait_for_task_completed env ts ws (task_inflight task) sys))"
  using assms
  by (auto simp: mix_post_task_to_io_def mix_post_task_to_metadata_def mix_post_task_to_data_def mix_post_small_task_to_buffer_def
      enter_task_def Let_def split_beta)

lemma write_enters:
  assumes "off + len < sched_threshold \<or> len \<le> small_threshold \<and> plain_flags flags"
  shows "mixdk_write env ts ws junk src len off flags slot sys = begin_write src len off flags slot sys \<bind>
    (\<lambda>sys. map_option (\<lambda>sys. (sys, scast (ucast len :: u32))) (mix_wait_for_task_completed env ts ws slot sys))"
  using assms plain_opcode(3) [of flags MIX_WRITE]
  by (cases "slot < length (sys_inflight sys)")
    (auto simp: mixdk_write_def begin_write_def init_io_task_def arr_set_def post_enters)

lemma read_enters:
  assumes "off + len < sched_threshold"
  shows "mixdk_read env ts ws junk len off flags slot sys = begin_read len off flags slot sys \<bind>
    (\<lambda>sys. map_option (\<lambda>sys. (sys, scast (ucast len :: u32))) (mix_wait_for_task_completed env ts ws slot sys))"
  using assms
  by (cases "slot < length (sys_inflight sys) \<and> slot < length (sys_out sys)")
    (auto simp: mixdk_read_def begin_read_def init_io_task_def arr_set_def arr_get_def post_enters)

text \<open>A read behind the threshold: \<open>mix_post_task_to_ssd\<close> is done by the caller.\<close>

definition ssd_read_call :: "'s environment \<Rightarrow> u64 \<Rightarrow> u64 \<Rightarrow> u64 \<Rightarrow> nat \<Rightarrow> 's system \<Rightarrow> 's system option" where
  "ssd_read_call env len0 offset flags idx sys = do {
     dst \<leftarrow> arr_get (sys_out sys) (int idx);
     (task, sys) \<leftarrow> init_io_task dst len0 offset (MIX_READ OR flags) idx sys;
     mix_post_task_to_ssd env (task\<lparr>task_offset := task_offset task - sched_threshold, task_type := SSD_TASK\<rparr>) sys
   }"

lemma read_fetches:
  assumes "\<not> off + len < sched_threshold" "plain_flags flags"
  shows "mixdk_read env ts ws junk len off flags slot sys =
    map_option (\<lambda>sys. (sys, scast (ucast len :: u32))) (ssd_read_call env len off flags slot sys)"
  using assms(1) plain_opcode [OF assms(2), of MIX_READ]
  by (cases "slot < length (sys_inflight sys) \<and> slot < length (sys_out sys)")
    (auto simp: mixdk_read_def ssd_read_call_def init_io_task_def arr_set_def arr_get_def mix_post_task_to_io_def
      mix_post_task_to_data_def Let_def)

text \<open>A write of several blocks behind the threshold, after its subtasks have been posted.\<close>

definition ssd_store_call :: "'s environment \<Rightarrow> u8 list \<Rightarrow> u64 \<Rightarrow> u64 \<Rightarrow> u64 \<Rightarrow> nat \<Rightarrow> 's system \<Rightarrow> 's system option" where
  "ssd_store_call env src len0 offset flags idx sys = do {
     (task, sys) \<leftarrow> init_io_task src len0 offset (flags OR MIX_WRITE) idx sys;
     mix_post_task_to_ssd env (task\<lparr>task_offset := task_offset task - sched_threshold, task_type := SSD_TASK,
       task_opcode := task_opcode task OR MIX_CLEAR\<rparr>) sys
   }"

text \<open>The task whose subtasks are posted.\<close>

definition large_task :: "u8 list \<Rightarrow> u64 \<Rightarrow> u64 \<Rightarrow> u64 \<Rightarrow> nat \<Rightarrow> io_task" where
  "large_task src len0 offset flags idx = \<lparr>task_buf = src, task_len = len0, task_offset = offset - sched_threshold,
     task_inflight = idx, task_opcode = (flags OR MIX_WRITE) OR MIX_CLEAR, task_type = SSD_TASK, task_queue_idx = of_nat idx,
     task_original = None\<rparr>"

lemma write_stores:
  assumes "\<not> off + len < sched_threshold" "small_threshold < len" "plain_flags flags" "slot < length (sys_inflight sys)"
  shows "mixdk_write env ts ws junk src len off flags slot sys =
    mix_post_task_to_buffer junk (large_task src len off flags slot) sys \<bind>
      (\<lambda>sys. map_option (\<lambda>sys. (sys, scast (ucast len :: u32))) (ssd_store_call env src len off flags slot sys))"
proof -
  let ?t = "large_task src len off flags slot"
  define cs where "cs = (sys_inflight sys)[slot := sint len]"
  define ps where "ps = (sys_read_ptrs sys)[slot := (False, False)]"
  have comm: "mix_post_task_to_buffer junk ?t (sys\<lparr>sys_inflight := cs, sys_read_ptrs := ps\<rparr>) =
      map_option (\<lambda>sys. sys\<lparr>sys_inflight := cs, sys_read_ptrs := ps\<rparr>) (mix_post_task_to_buffer junk ?t sys)"
    by (cases sys) (simp add: mix_post_task_to_buffer_def option.map_comp comp_def)
  have "mixdk_write env ts ws junk src len off flags slot sys = map_option (\<lambda>sys. (sys, scast (ucast len :: u32)))
      (mix_post_task_to_buffer junk ?t (sys\<lparr>sys_inflight := cs, sys_read_ptrs := ps\<rparr>) \<bind> mix_post_task_to_ssd env ?t)"
    using assms plain_opcode [OF assms(3), of MIX_WRITE] iffD2 [OF not_le assms(2)]
    by (simp add: mixdk_write_def large_task_def init_io_task_def arr_set_def mix_post_task_to_io_def mix_post_task_to_data_def Let_def cs_def ps_def)
  moreover have "ssd_store_call env src len off flags slot sys' = mix_post_task_to_ssd env ?t (sys'\<lparr>sys_inflight := cs, sys_read_ptrs := ps\<rparr>)"
    if "mix_post_task_to_buffer junk ?t sys = Some sys'" for sys'
  proof -
    have "sys_inflight sys' = sys_inflight sys" "sys_read_ptrs sys' = sys_read_ptrs sys" using that by (auto simp: mix_post_task_to_buffer_def)
    then show ?thesis using assms(4) by (simp add: ssd_store_call_def large_task_def init_io_task_def arr_set_def cs_def ps_def)
  qed
  ultimately show ?thesis unfolding comm by (cases "mix_post_task_to_buffer junk ?t sys") simp_all
qed

section \<open>Requests, actions and histories\<close>

text \<open>The requests that wait for a worker: \<open>NvmWrite slot k n data\<close> and \<open>NvmRead slot k n\<close> of the blocks
  \<open>k..<k + n\<close> of the NVM area, \<open>BufferWrite slot k data\<close> of the block \<open>k\<close> behind the threshold. The
  slot is the argument \<open>idx\<close> of the caller.\<close>

datatype request =
    NvmWrite nat nat nat "u8 list"
  | NvmRead nat nat nat
  | BufferWrite nat nat "u8 list"

fun slot_of :: "request \<Rightarrow> nat" where
  "slot_of (NvmWrite s k n d) = s"
| "slot_of (NvmRead s k n) = s"
| "slot_of (BufferWrite s k d) = s"

text \<open>The queue of a request: the four of the NVM area, then the four of the buffer.\<close>

fun home :: "request \<Rightarrow> nat" where
  "home (NvmWrite s k n d) = k mod 4"
| "home (NvmRead s k n) = k mod 4"
| "home (BufferWrite s k d) = 4 + k mod 4"

fun issue :: "request \<Rightarrow> 's system \<Rightarrow> 's system option" where
  "issue (NvmWrite s k n d) sys = begin_write d (of_nat n) (of_nat k) 0 s sys"
| "issue (NvmRead s k n) sys = begin_read (of_nat n) (of_nat k) 0 s sys"
| "issue (BufferWrite s k d) sys = begin_write d 1 (of_nat (k + 1928765)) 0 s sys"

text \<open>A caller makes a call (a caller that still waits makes none), a worker polls, or a caller finds its
  counter at 0 and returns; \<open>ReadSsd slot k n\<close> is a call that reads the blocks \<open>k..<k + n\<close> behind the
  threshold, and its return; \<open>PostClear w t\<close> posts the subtask \<open>t\<close> of a write of several blocks, and
  \<open>WriteSsd slot k n data\<close> is the rest of that call and its return.\<close>

datatype action = Call request | Poll nat | Return nat | ReadSsd nat nat nat | PostClear nat io_task | WriteSsd nat nat nat "u8 list"

datatype event = Invoked request | Served request | Returned request | Fetched nat nat nat | Stored nat nat nat "u8 list"

text \<open>The task the next poll of worker \<open>w\<close> takes.\<close>

definition next_task :: "nat \<Rightarrow> 's system \<Rightarrow> io_task option" where
  "next_task w sys = map_option fst (if sys_seq sys ! w AND 1 \<noteq> 0 then get_task_from_nvm_queue sys w else get_task_from_buffer_queue sys w)"

text \<open>\<open>mix_enqueue\<close> finds no room in a queue of the buffer: the caller spins.\<close>

definition spins :: "nat \<Rightarrow> 's system \<Rightarrow> bool" where
  "spins j sys \<longleftrightarrow> 4 \<le> j \<and> sys_queue_size sys \<le> length (sys_buffer_queue sys ! (j - 4))"

lemma not_spins [simp]: "j < 4 \<Longrightarrow> \<not> spins j sys"
  by (simp add: spins_def)

text \<open>The second component is the request in which the caller of each slot is. A worker that takes a clearing
  subtask serves no request.\<close>

fun act :: "'s environment \<Rightarrow> nat list \<Rightarrow> action \<Rightarrow> 's system \<times> request option list \<Rightarrow>
    (('s system \<times> request option list) \<times> event list) option" where
  "act env ts (Call r) (sys, calls) =
     (if calls ! slot_of r = None \<and> \<not> spins (home r) sys
      then map_option (\<lambda>sys. ((sys, calls[slot_of r := Some r]), [Invoked r])) (issue r sys)
      else Some ((sys, calls), []))"
| "act env ts (Poll w) (sys, calls) =
     map_option (\<lambda>sys'. ((sys', calls), case next_task w sys of None \<Rightarrow> []
       | Some t \<Rightarrow> (if clearing t then [] else case calls ! task_inflight t of None \<Rightarrow> [] | Some r \<Rightarrow> [Served r])))
       (nvm_worker_poll env ts w sys)"
| "act env ts (Return s) (sys, calls) =
     (case calls ! s of None \<Rightarrow> Some ((sys, calls), [])
      | Some r \<Rightarrow> if 0 < sys_inflight sys ! s then Some ((sys, calls), []) else Some ((sys, calls[s := None]), [Returned r]))"
| "act env ts (ReadSsd s k n) (sys, calls) =
     (if calls ! s = None
      then map_option (\<lambda>sys. ((sys, calls), [Fetched s k n])) (ssd_read_call env (of_nat n) (of_nat (k + 1928765)) 0 s sys)
      else Some ((sys, calls), []))"
| "act env ts (PostClear w t) (sys, calls) =
     Some ((sys\<lparr>sys_buffer_queue := fst (put_task (sys_queue_size sys) (sys_buffer_queue sys) w t)\<rparr>, calls), [])"
| "act env ts (WriteSsd s k n d) (sys, calls) =
     (if calls ! s = None
      then map_option (\<lambda>sys. ((sys, calls), [Stored s k n d])) (ssd_store_call env d (of_nat n) (of_nat (k + 1928765)) 0 s sys)
      else Some ((sys, calls), []))"

fun run_actions :: "'s environment \<Rightarrow> nat list \<Rightarrow> action list \<Rightarrow> 's system \<times> request option list \<Rightarrow>
    (('s system \<times> request option list) \<times> event list) option" where
  "run_actions env ts [] st = Some (st, [])"
| "run_actions env ts (a # as) st = do {
     (st, h) \<leftarrow> act env ts a st;
     (st, hs) \<leftarrow> run_actions env ts as st;
     Some (st, h @ hs)
   }"

text \<open>The subtasks of a large write, posted one by one, and the rest of the call are the call.\<close>

lemma post_clears_run:
  "post_subtasks (sys_queue_size sys) ps (sys_buffer_queue sys) = Some qs \<Longrightarrow>
    run_actions env ts (map (\<lambda>(w, t). PostClear w t) ps) (sys, calls) = Some ((sys\<lparr>sys_buffer_queue := qs\<rparr>, calls), [])"
proof (induction ps arbitrary: sys)
  case (Cons p ps)
  obtain w t where p: "p = (w, t)" by (cases p)
  define sys1 where "sys1 = sys\<lparr>sys_buffer_queue := fst (put_task (sys_queue_size sys) (sys_buffer_queue sys) w t)\<rparr>"
  have "post_subtasks (sys_queue_size sys1) ps (sys_buffer_queue sys1) = Some qs"
    using Cons.prems by (simp add: p sys1_def split: prod.splits if_splits)
  from Cons.IH [OF this] show ?case by (simp add: p flip: sys1_def) (simp add: sys1_def)
qed simp

lemma run_append: "run_actions env ts (as @ bs) st = do {
    (st, h) \<leftarrow> run_actions env ts as st;
    (st, h') \<leftarrow> run_actions env ts bs st;
    Some (st, h @ h')
  }"
  by (induction as arbitrary: st) (auto simp: bind_assoc split: bind_splits prod.split)

lemma large_write_steps:
  assumes "mixdk_write env ws' ws junk d (of_nat n) (of_nat (k + 1928765)) 0 s sys = Some (sys', len)"
    "1 < n" "k + n < 2 ^ 63" "s < length (sys_inflight sys)" "calls ! s = None"
  shows "run_actions env ts (map (\<lambda>(w, t). PostClear w t)
      (mix_post_task_to_buffer_tasks junk (large_task d (of_nat n) (of_nat (k + 1928765)) 0 s)) @ [WriteSsd s k n d]) (sys, calls) =
    Some ((sys', calls), [Stored s k n d])"
proof -
  let ?t = "large_task d (of_nat n) (of_nat (k + 1928765)) 0 s"
  have n: "(small_threshold :: u64) < of_nat n"
    using assms(2,3) by (simp add: small_threshold_def word_less_nat_alt unsigned_of_nat take_bit_nat_eq_self)
  obtain qs where q: "post_subtasks (sys_queue_size sys) (mix_post_task_to_buffer_tasks junk ?t) (sys_buffer_queue sys) = Some qs"
      "ssd_store_call env d (of_nat n) (of_nat (k + 1928765)) 0 s (sys\<lparr>sys_buffer_queue := qs\<rparr>) = Some sys'"
    using assms(1) unfolding write_stores [OF ssd_range(1) [OF assms(3)] n no_flags assms(4)]
    by (auto simp: mix_post_task_to_buffer_def split: bind_splits)
  show ?thesis using post_clears_run [OF q(1)] q(2) assms(5) by (simp add: run_append)
qed

text \<open>The specification: a disk on which every request is one step, and the life of a request. Behind the
  threshold it is an SSD with a buffer of four parts of \<open>disk_per\<close> blocks each, the part of an address being
  its remainder by 4: \<open>disk_index\<close> says which block of its part an address has, \<open>disk_used\<close> how many blocks of
  a part are used, \<open>disk_cells\<close> what the blocks of all parts hold. Writes of one block go to the buffer, larger
  ones to the SSD, and reads show the SSD. A new address for which its part has no room empties the part
  first: \<open>flush\<close> is what the program does, it copies the blocks of part 0, whichever part is emptied.\<close>

record disk =
  disk_nvm :: "nat \<Rightarrow> u8 list"
  disk_per :: nat
  disk_index :: "nat \<Rightarrow> nat option"
  disk_used :: "nat \<Rightarrow> nat"
  disk_cells :: "nat \<Rightarrow> u8 list"
  disk_ssd :: "nat \<Rightarrow> u8 list"
  disk_out :: "u8 list list"

definition flush :: "nat \<Rightarrow> disk \<Rightarrow> disk" where
  "flush i dk = dk\<lparr>
     disk_ssd := \<lambda>k. if k mod 4 = i then (case disk_index dk k of None \<Rightarrow> disk_ssd dk k | Some b \<Rightarrow> disk_cells dk b) else disk_ssd dk k,
     disk_index := \<lambda>k. if k mod 4 = i then None else disk_index dk k,
     disk_used := (disk_used dk)(i := 0)\<rparr>"

definition put_cell :: "nat \<Rightarrow> nat \<Rightarrow> u8 list \<Rightarrow> disk \<Rightarrow> disk" where
  "put_cell i b d dk = dk\<lparr>disk_cells := (disk_cells dk)(i * disk_per dk + b := take 4096 d)\<rparr>"

definition put_buffered :: "nat \<Rightarrow> nat \<Rightarrow> u8 list \<Rightarrow> disk \<Rightarrow> disk" where
  "put_buffered i k d dk =
     (case disk_index dk k of
        Some b \<Rightarrow> put_cell i b d dk
      | None \<Rightarrow>
          let dk = if disk_used dk i < disk_per dk then dk else flush i dk;
              b = disk_used dk i
          in put_cell i b d (dk\<lparr>disk_index := (disk_index dk)(k \<mapsto> b), disk_used := (disk_used dk)(i := Suc b)\<rparr>))"

definition put_blocks :: "nat \<Rightarrow> nat \<Rightarrow> u8 list \<Rightarrow> (nat \<Rightarrow> u8 list) \<Rightarrow> nat \<Rightarrow> u8 list" where
  "put_blocks k n d f = (\<lambda>j. if k \<le> j \<and> j < k + n then chunk 4096 d (j - k) else f j)"

fun execute :: "request \<Rightarrow> disk \<Rightarrow> disk" where
  "execute (NvmWrite s k n d) dk = dk\<lparr>disk_nvm := put_blocks k n d (disk_nvm dk)\<rparr>"
| "execute (NvmRead s k n) dk = dk\<lparr>disk_out := (disk_out dk)[s := concat (map (disk_nvm dk) [k..<k + n])]\<rparr>"
| "execute (BufferWrite s k d) dk = put_buffered (k mod 4) k d dk"

fun effect :: "event \<Rightarrow> disk \<Rightarrow> disk" where
  "effect (Served r) dk = execute r dk"
| "effect (Fetched s k n) dk = dk\<lparr>disk_out := (disk_out dk)[s := concat (map (disk_ssd dk) [k..<k + n])]\<rparr>"
| "effect (Stored s k n d) dk = dk\<lparr>disk_ssd := put_blocks k n d (disk_ssd dk)\<rparr>"
| "effect (Invoked r) dk = dk"
| "effect (Returned r) dk = dk"

datatype phase = Idle | Waiting request | Finished request

fun event_step :: "event \<Rightarrow> (nat \<Rightarrow> phase) \<Rightarrow> (nat \<Rightarrow> phase) option" where
  "event_step (Invoked r) ph = (if ph (slot_of r) = Idle then Some (ph(slot_of r := Waiting r)) else None)"
| "event_step (Served r) ph = (if ph (slot_of r) = Waiting r then Some (ph(slot_of r := Finished r)) else None)"
| "event_step (Returned r) ph = (if ph (slot_of r) = Finished r then Some (ph(slot_of r := Idle)) else None)"
| "event_step (Fetched s k n) ph = (if ph s = Idle then Some ph else None)"
| "event_step (Stored s k n d) ph = (if ph s = Idle then Some ph else None)"

fun legal :: "event list \<Rightarrow> (nat \<Rightarrow> phase) \<Rightarrow> (nat \<Rightarrow> phase) option" where
  "legal [] ph = Some ph"
| "legal (e # es) ph = event_step e ph \<bind> legal es"

lemma legal_append: "legal (xs @ ys) ph = legal xs ph \<bind> legal ys"
  by (induction xs arbitrary: ph) (auto split: bind_splits)

text \<open>The content of the disk in a state of the program.\<close>

definition disk_of :: "('s \<Rightarrow> u64 \<Rightarrow> u8 list) \<Rightarrow> 's system \<Rightarrow> disk" where
  "disk_of blk sys = \<lparr>
     disk_nvm = \<lambda>k. if k < nvm_blocks (sys_nvm sys) then the (nvm_data (sys_nvm sys) k) else [],
     disk_per = unat (md_per_block_num (sys_meta sys)),
     disk_index = \<lambda>k. if k < 2 ^ 32
       then (case hash_stack (seg_hash (sys_meta sys) (k mod 4)) (of_nat k) of [] \<Rightarrow> None | b # _ \<Rightarrow> Some (unat b)) else None,
     disk_used = \<lambda>i. if i < 4 then nat (sg_used_block_num (md_segments (sys_meta sys) ! i)) else 0,
     disk_cells = \<lambda>b. if b < buffer_blocks (sys_nvm sys) then the (buffer_data (sys_nvm sys) b) else [],
     disk_ssd = \<lambda>k. if k < 2 ^ 64 then blk (sys_ssd sys) (of_nat k) else [],
     disk_out = sys_out sys\<rparr>"

section \<open>Serving one request\<close>

text \<open>The requests that are allowed, and the task a request becomes.\<close>

fun good_request :: "nat \<Rightarrow> request \<Rightarrow> bool" where
  "good_request N (NvmWrite s k n d) \<longleftrightarrow> s < 16 \<and> 0 < n \<and> k + n < 1928765 \<and> k + n \<le> N \<and> n * 4096 \<le> length d"
| "good_request N (NvmRead s k n) \<longleftrightarrow> s < 16 \<and> 0 < n \<and> k + n < 1928765 \<and> k + n \<le> N"
| "good_request N (BufferWrite s k d) \<longleftrightarrow> s < 16 \<and> k < 2 ^ 32 - 1 \<and> 4096 \<le> length d"

fun blocks_of :: "request \<Rightarrow> nat" where
  "blocks_of (NvmWrite s k n d) = n"
| "blocks_of (NvmRead s k n) = n"
| "blocks_of (BufferWrite s k d) = 1"

text \<open>The eight queues, those of the NVM area first.\<close>

definition queues :: "'s system \<Rightarrow> io_task list list" where
  "queues sys = sys_nvm_queue sys @ sys_buffer_queue sys"

fun task_for :: "request \<Rightarrow> io_task \<Rightarrow> bool" where
  "task_for (NvmWrite s k n d) t \<longleftrightarrow> task_type t = NVM_TASK \<and> task_opcode t = MIX_WRITE \<and> task_len t = of_nat n \<and>
     task_offset t = of_nat k \<and> task_inflight t = s \<and> task_buf t = d"
| "task_for (NvmRead s k n) t \<longleftrightarrow> task_type t = NVM_TASK \<and> task_opcode t = MIX_READ \<and> task_len t = of_nat n \<and>
     task_offset t = of_nat k \<and> task_inflight t = s"
| "task_for (BufferWrite s k d) t \<longleftrightarrow> task_type t = SSD_TASK \<and> task_opcode t = MIX_WRITE \<and> task_len t = 1 \<and>
     task_offset t = of_nat k \<and> task_inflight t = s \<and> task_buf t = d"

text \<open>The store is in order: every segment satisfies its invariant, and its table has only addresses that
  belong to it.\<close>

definition store_ok :: "'s system \<Rightarrow> bool" where
  "store_ok sys \<longleftrightarrow> (\<forall>i < 4. (\<exists>n. seg_inv i n (sys_store sys)) \<and>
     (\<forall>k. hash_stack (seg_hash (sys_meta sys) i) k \<noteq> [] \<longrightarrow> unat k mod 4 = i))"

text \<open>What the program relies on: the copying function, the calls of the SSD, and that the eight migration
  threads run, in any order.\<close>

definition platform :: "'s environment \<Rightarrow> ('s \<Rightarrow> u64 \<Rightarrow> u8 list) \<Rightarrow> nat \<Rightarrow> nat list \<Rightarrow> bool" where
  "platform env blk cap ts \<longleftrightarrow>
     pmem_copies (env_cpy env) \<and> ssd_stores env blk \<and> ssd_device env blk cap \<and> distinct ts \<and> set ts = {..<8}"

lemma ram_platform: "cap < 2 ^ 64 \<Longrightarrow> platform ram_env id cap [0..<8]"
  using ram_env_ok ram_env_device by (auto simp: platform_def)

definition shaped :: "'s system \<Rightarrow> bool" where
  "shaped sys \<longleftrightarrow> length (sys_nvm_queue sys) = 4 \<and> length (sys_buffer_queue sys) = 4 \<and> 16 \<le> sys_queue_size sys \<and>
     length (sys_seq sys) = 4 \<and> length (sys_inflight sys) = 16 \<and> length (sys_out sys) = 16"

lemma home_less: "home r < 8"
  by (cases r) simp_all

lemma fetch_sub_ok: "slot < length (sys_inflight sys) \<Longrightarrow>
  fetch_sub sys slot n = Some (sys\<lparr>sys_inflight := (sys_inflight sys)[slot := sys_inflight sys ! slot - n]\<rparr>)"
  by (simp add: fetch_sub_def)

lemma op_words: "MIX_WRITE AND (MIX_READ OR MIX_WRITE OR MIX_CLEAR) = MIX_WRITE" "MIX_READ AND (MIX_READ OR MIX_WRITE OR MIX_CLEAR) = MIX_READ"
  by (simp_all add: MIX_WRITE_def MIX_READ_def MIX_CLEAR_def)

lemma store_layout: "store_ok sys \<Longrightarrow> layout_ok (sys_nvm sys)"
  by (auto simp: store_ok_def seg_inv_def dest: spec [of _ 0])

lemma store_ok_segment:
  assumes "store_ok sys" "i < 4"
  obtains n where "seg_inv i n (sys_store sys)"
  using assms unfolding store_ok_def by blast

lemma serve_nvm_write:
  assumes cpy: "pmem_copies (env_cpy env)" and sh: "shaped sys" and st: "store_ok sys"
    and good: "good_request (nvm_blocks (sys_nvm sys)) (NvmWrite s k n d)" and t: "task_for (NvmWrite s k n d) t"
  obtains nvm' sys' where "nvm_worker_task env ts w t sys = Some sys'" "store_ok sys'"
    "sys' = sys\<lparr>sys_nvm := nvm', sys_inflight := (sys_inflight sys)[s := sys_inflight sys ! s - int n]\<rparr>"
    "nvm_blocks nvm' = nvm_blocks (sys_nvm sys)" "disk_of blk sys' = execute (NvmWrite s k n d) (disk_of blk sys)"
proof -
  have g: "s < 16" "0 < n" "k + n < 1928765" "k + n \<le> nvm_blocks (sys_nvm sys)" "n * 4096 \<le> length d" using good by simp_all
  have tf: "task_type t = NVM_TASK" "task_opcode t = MIX_WRITE" "task_len t = of_nat n" "task_offset t = of_nat k" "task_inflight t = s" "task_buf t = d"
    using t by simp_all
  obtain nvm' where m: "mix_nvm_write (env_cpy env) (sys_nvm sys) d (of_nat n) (of_nat k) = Some (nvm', of_nat n)" "layout_ok nvm'"
    "ns_nvm nvm' = ns_nvm (sys_nvm sys)" "ns_buffer nvm' = ns_buffer (sys_nvm sys)"
    "mix_nvm_read nvm' (of_nat n) (of_nat k) = Some (take (n * 4096) d, of_nat n)"
    "same_nvm_data (sys_nvm sys) nvm' (\<lambda>j. j < k \<or> k + n \<le> j)" "same_buffer_data (sys_nvm sys) nvm' (\<lambda>_. True)"
    by (rule nvm_write_blocks [OF cpy store_layout [OF st] g(4,2,5)]) blast
  have blocks: "nvm_blocks nvm' = nvm_blocks (sys_nvm sys)" "buffer_blocks nvm' = buffer_blocks (sys_nvm sys)"
    using m(3,4) by (simp_all add: nvm_blocks_def buffer_blocks_def)
  let ?sys = "sys\<lparr>sys_nvm := nvm', sys_inflight := (sys_inflight sys)[s := sys_inflight sys ! s - int n]\<rparr>"
  have "n < 2 ^ 31" using g(3) by simp
  then have run: "nvm_worker_task env ts w t sys = Some ?sys"
    using m(1) tf g(1) sh small_words(3) [of n] op_words by (simp add: nvm_worker_task_def Let_def fetch_sub_ok shaped_def)
  have "seg_inv i l ((sys_meta sys, nvm', sys_ssd sys), sys_completed sys)" if "seg_inv i l (sys_store sys)" for i l
    by (rule nvm_area_frame [OF that m(2,4,7)])
  then have "store_ok ?sys" using st by (simp add: store_ok_def) blast
  moreover have "nvm_data nvm' j = (if k \<le> j \<and> j < k + n then Some (chunk 4096 d (j - k)) else nvm_data (sys_nvm sys) j)"
    if "j < nvm_blocks (sys_nvm sys)" for j
    using nvm_written_block [OF m(2) _ _ m(5), of "j - k"] g(4) m(6) that by (auto simp: same_nvm_data_def blocks)
  ultimately show thesis
    using that [OF run, of nvm'] blocks g(4) m(7)
    by (simp add: disk_of_def same_buffer_data_def put_blocks_def fun_eq_iff cong: if_cong option.case_cong)
qed

lemma serve_nvm_read:
  assumes sh: "shaped sys" and st: "store_ok sys"
    and good: "good_request (nvm_blocks (sys_nvm sys)) (NvmRead s k n)" and t: "task_for (NvmRead s k n) t"
  obtains out sys' where "nvm_worker_task env ts w t sys = Some sys'" "store_ok sys'"
    "sys' = sys\<lparr>sys_out := out, sys_inflight := (sys_inflight sys)[s := sys_inflight sys ! s - int n]\<rparr>"
    "length out = length (sys_out sys)" "disk_of blk sys' = execute (NvmRead s k n) (disk_of blk sys)"
proof -
  have g: "s < 16" "0 < n" "k + n < 1928765" "k + n \<le> nvm_blocks (sys_nvm sys)" using good by simp_all
  have tf: "task_type t = NVM_TASK" "task_opcode t = MIX_READ" "task_len t = of_nat n" "task_offset t = of_nat k" "task_inflight t = s"
    using t by simp_all
  let ?out = "(sys_out sys)[s := concat (map (\<lambda>j. the (nvm_data (sys_nvm sys) j)) [k..<k + n])]"
  let ?sys = "sys\<lparr>sys_out := ?out, sys_inflight := (sys_inflight sys)[s := sys_inflight sys ! s - int n]\<rparr>"
  have "n < 2 ^ 31" using g(3) by simp
  then have "nvm_worker_task env ts w t sys = Some ?sys"
    using nvm_read_blocks [OF store_layout [OF st] g(4,2)] tf g(1) sh small_words(3) [of n] op_words
    by (cases sys) (simp add: nvm_worker_task_def Let_def fetch_sub_ok shaped_def)
  moreover have "store_ok ?sys" using st by (simp add: store_ok_def)
  moreover have "map (disk_nvm (disk_of blk sys)) [k..<k + n] = map (\<lambda>j. the (nvm_data (sys_nvm sys) j)) [k..<k + n]"
    using g(4) by (intro map_cong refl) (simp add: disk_of_def)
  then have "disk_of blk ?sys = execute (NvmRead s k n) (disk_of blk sys)"
    unfolding execute.simps by (simp only:) (cases sys, simp add: disk_of_def cong: if_cong option.case_cong)
  ultimately show thesis using that [of ?sys ?out] by simp
qed

text \<open>The fields of the disk after a write to the buffer.\<close>

lemma put_buffered_fields:
  fixes dk :: disk and i k :: nat
  defines "full \<equiv> disk_index dk k = None \<and> \<not> disk_used dk i < disk_per dk"
  defines "b \<equiv> (case disk_index dk k of None \<Rightarrow> if full then 0 else disk_used dk i | Some b \<Rightarrow> b)"
  shows "put_buffered i k d dk = dk\<lparr>
    disk_index := (if full then \<lambda>j. if j mod 4 = i then None else disk_index dk j else disk_index dk)(k \<mapsto> b),
    disk_used := (disk_used dk)(i := if disk_index dk k = None then Suc b else disk_used dk i),
    disk_cells := (disk_cells dk)(i * disk_per dk + b := take 4096 d),
    disk_ssd := if full then disk_ssd (flush i dk) else disk_ssd dk\<rparr>"
  by (cases dk) (auto simp: put_buffered_def put_cell_def full_def b_def flush_def Let_def fun_upd_idem split: option.split)

lemma serve_buffer_write:
  assumes pf: "platform env blk cap ts" and sh: "shaped sys" and st: "store_ok sys"
    and good: "good_request (nvm_blocks (sys_nvm sys)) (BufferWrite s k d)" and t: "task_for (BufferWrite s k d) t"
  obtains md' nvm' ssd' c' sys' where "nvm_worker_task env ts (k mod 4) t sys = Some sys'" "store_ok sys'"
    "sys' = sys\<lparr>sys_meta := md', sys_nvm := nvm', sys_ssd := ssd', sys_completed := c',
       sys_inflight := (sys_inflight sys)[s := sys_inflight sys ! s - 1]\<rparr>"
    "nvm_blocks nvm' = nvm_blocks (sys_nvm sys)" "disk_of blk sys' = execute (BufferWrite s k d) (disk_of blk sys)"
    "mix_buffer_migrating md' = mix_buffer_migrating (sys_meta sys)"
proof -
  have g: "s < 16" "k < 2 ^ 32 - 1" "4096 \<le> length d" using good by simp_all
  have tf: "task_type t = SSD_TASK" "task_opcode t = MIX_WRITE" "task_len t = 1" "task_offset t = of_nat k" "task_inflight t = s" "task_buf t = d"
    using t by simp_all
  have pf': "pmem_copies (env_cpy env)" "ssd_stores env blk" "distinct ts" "set ts = {..<8}" using pf by (simp_all add: platform_def)
  define i where "i = k mod 4"
  have i: "i < 4" by (simp add: i_def)
  obtain n where n: "seg_inv i n (sys_store sys)" by (rule store_ok_segment [OF st i])
  define per where "per = unat (md_per_block_num (sys_meta sys))"
  define hs where "hs = hash_stack (seg_hash (sys_meta sys) i)"
  define K where "K = (of_nat k :: u32)"
  define full where "full \<longleftrightarrow> hs K = [] \<and> n = per"
  define b where "b = (case hs K of [] \<Rightarrow> if full then 0 else n | v # _ \<Rightarrow> unat v)"
  note key = small_key [OF g(2)]
  have K: "K = ucast (task_offset t)" "K \<noteq> -1" "unat K = k" "4096 \<le> length (task_buf t)"
    using key tf g by (simp_all add: K_def unsigned_of_nat take_bit_nat_eq_self)
  obtain md' nvm' ssd' c' where m:
    "redirect_write env ts t (int i) (sys_store sys) = Some (((md', nvm', ssd'), c'), sint (ucast (task_len t) :: u32))"
    "seg_inv i (if hs K = [] then Suc b else n) ((md', nvm', ssd'), c')" "length c' = length (sys_completed sys)"
    "same_other_segments i (sys_meta sys) md'" "b < per"
    "hash_stack (seg_hash md' i) = (if full then (\<lambda>_. []) else hs)(K := [of_nat b])"
    "buffer_blocks nvm' = buffer_blocks (sys_nvm sys)" "nvm_blocks nvm' = nvm_blocks (sys_nvm sys)" "same_nvm_data (sys_nvm sys) nvm' (\<lambda>_. True)"
    "same_buffer_data (sys_nvm sys) nvm' (\<lambda>j. j \<noteq> i * per + b)" "buffer_data nvm' (i * per + b) = Some (take 4096 (task_buf t))"
    "\<And>k'. blk ssd' (ucast k') =
      (case if full then hs k' else [] of [] \<Rightarrow> blk (sys_ssd sys) (ucast k') | v # _ \<Rightarrow> the (buffer_data (sys_nvm sys) (unat v)))"
    "\<And>off. 2 ^ 32 \<le> unat off \<Longrightarrow> blk ssd' off = blk (sys_ssd sys) off"
    by (rule redirect_write_spec [OF pf'(1,2) n pf'(3,4) K(1,2,4) per_def hs_def full_def b_def]) blast
  let ?sys = "sys\<lparr>sys_meta := md', sys_nvm := nvm', sys_ssd := ssd', sys_completed := c',
       sys_inflight := (sys_inflight sys)[s := sys_inflight sys ! s - 1]\<rparr>"
  have run: "nvm_worker_task env ts (k mod 4) t sys = Some ?sys"
    using m(1) tf g(1) sh op_words small_words(3) [of 1] unfolding i_def
    by (cases sys) (simp add: nvm_worker_task_def Let_def fetch_sub_ok shaped_def)
  have ok: "threads_ok md'" "layout_ok nvm'" "md_per_block_num md' = md_per_block_num (sys_meta sys)"
    using m(2,4) by (simp_all add: seg_inv_def same_other_segments_def)
  have other: "seg_hash md' j = seg_hash (sys_meta sys) j" "md_segments md' ! j = md_segments (sys_meta sys) ! j" if "j \<noteq> i" for j
    using m(4) that by (simp_all add: same_other_segments_def)
  have keys: "unat k' mod 4 = j" if "j < 4" "hash_stack (seg_hash (sys_meta sys) j) k' \<noteq> []" for j k'
    using st that unfolding store_ok_def by blast
  have "(\<exists>l. seg_inv j l (sys_store ?sys)) \<and> (\<forall>k'. hash_stack (seg_hash md' j) k' \<noteq> [] \<longrightarrow> unat k' mod 4 = j)" if j: "j < 4" for j
  proof (cases "j = i")
    case True
    then show ?thesis using m(2,6) keys [OF i] K(3) by (auto simp: hs_def i_def split: if_splits)
  next
    case False
    obtain l where "seg_inv j l (sys_store sys)" by (rule store_ok_segment [OF st j])
    then have "seg_inv j l ((md', nvm', ssd'), c')" by (rule seg_inv_other [OF _ m(4) False ok(1,2) m(7,3)])
    then show ?thesis using keys [OF j] other(1) [OF False] by auto
  qed
  then have store: "store_ok ?sys" by (simp add: store_ok_def)
  define dk where "dk = disk_of blk sys"
  have f: "filled (sys_meta sys) i n" "filled md' i (if hs K = [] then Suc b else n)" using n m(2) by (simp_all add: seg_inv_def)
  have le: "n \<le> per" "per < 2 ^ 29" "i * per + per \<le> buffer_blocks (sys_nvm sys)" using n by (simp_all add: seg_inv_def filled_def segment_ok_def per_def)
  have dk: "disk_index dk k = (case hs K of [] \<Rightarrow> None | v # _ \<Rightarrow> Some (unat v))" "disk_used dk i = n" "disk_per dk = per"
    using g(2) i f(1) by (simp_all add: dk_def disk_of_def hs_def K_def i_def per_def filled_def)
  then have fb: "full \<longleftrightarrow> disk_index dk k = None \<and> \<not> disk_used dk i < disk_per dk"
      "b = (case disk_index dk k of None \<Rightarrow> if full then 0 else disk_used dk i | Some b \<Rightarrow> b)"
    using le(1) by (auto simp: full_def b_def split: list.split)
  have bb: "unat (of_nat b :: u32) = b" using m(5) le(2) by (simp add: unsigned_of_nat take_bit_nat_eq_self)
  have eqK: "(of_nat j :: u32) = K \<longleftrightarrow> j = k" if "j < 2 ^ 32" for j
  proof -
    have "unat (of_nat j :: u32) = j" using that by (simp add: unsigned_of_nat take_bit_nat_eq_self)
    then show ?thesis using K(3) by (metis K_def)
  qed
  have "disk_index (disk_of blk ?sys) j =
      ((if full then \<lambda>j. if j mod 4 = i then None else disk_index dk j else disk_index dk)(k \<mapsto> b)) j" for j
    using m(6) other(1) [of "j mod 4"] eqK [of j] g(2) bb
    by (cases "j mod 4 = i") (auto simp: disk_of_def dk_def hs_def i_def)
  moreover have "disk_used (disk_of blk ?sys) j = ((disk_used dk)(i := if disk_index dk k = None then Suc b else disk_used dk i)) j" for j
    using f(2) i other(2) [of j] dk(1,2) by (cases "j = i") (auto simp: disk_of_def dk_def filled_def split: list.splits)
  moreover have "disk_cells (disk_of blk ?sys) j = ((disk_cells dk)(i * disk_per dk + b := take 4096 d)) j" for j
    using m(5,7,10,11) le(3) tf(6) dk(3) by (auto simp: disk_of_def dk_def same_buffer_data_def)
  moreover have "disk_ssd (disk_of blk ?sys) j = (if full then disk_ssd (flush i dk) else disk_ssd dk) j" for j
  proof (cases "j < 2 ^ 32")
    case True
    have uc: "(ucast (of_nat j :: u32) :: u64) = of_nat j" using True by (simp add: unsigned_of_nat take_bit_nat_eq_self)
    have uj: "unat (of_nat j :: u32) = j" using True by (simp add: unsigned_of_nat take_bit_nat_eq_self)
    have cell: "unat v < buffer_blocks (sys_nvm sys)" if "hs (of_nat j) = v # vs" for v vs
    proof -
      have "v \<in> set (hash_stack (seg_hash (sys_meta sys) i) (of_nat j))" using that by (simp add: hs_def)
      then have "unat v < n" using f(1) unfolding filled_def by blast
      then show ?thesis using le(1,3) by simp
    qed
    have "hs (of_nat j) = []" if "j mod 4 \<noteq> i" using keys [OF i, of "of_nat j"] that uj by (auto simp: hs_def)
    then show ?thesis using m(12) [of "of_nat j"] True cell unfolding uc
      by (auto simp: disk_of_def dk_def flush_def hs_def split: list.split)
  next
    case False
    have "blk ssd' (of_nat j) = blk (sys_ssd sys) (of_nat j)" if "j < 2 ^ 64"
      using m(13) [of "of_nat j"] that False by (simp add: unsigned_of_nat take_bit_nat_eq_self)
    then show ?thesis using False by (simp add: disk_of_def dk_def flush_def)
  qed
  moreover have "disk_nvm (disk_of blk ?sys) = disk_nvm dk" "disk_per (disk_of blk ?sys) = disk_per dk" "disk_out (disk_of blk ?sys) = disk_out dk"
    using m(8,9) ok(3) by (auto simp: disk_of_def dk_def fun_eq_iff same_nvm_data_def)
  ultimately have "disk_of blk ?sys = put_buffered i k d dk"
    unfolding put_buffered_fields fb(1) [symmetric] fb(2) [symmetric] by (intro disk.equality ext) simp_all
  then have "disk_of blk ?sys = execute (BufferWrite s k d) (disk_of blk sys)" by (simp add: i_def dk_def)
  then show thesis using that [OF run store refl m(8)] same_other_migrating [OF m(4)] by blast
qed

text \<open>The worker whose queue a request is in serves it: the effect is that of the specification.\<close>

lemma serve_request:
  assumes "platform env blk cap ts" "shaped sys" "store_ok sys"
    "good_request (nvm_blocks (sys_nvm sys)) r" "task_for r t" "home r mod 4 = w"
  obtains md' nvm' ssd' c' out sys' where "nvm_worker_task env ts w t sys = Some sys'" "store_ok sys'"
    "sys' = sys\<lparr>sys_meta := md', sys_nvm := nvm', sys_ssd := ssd', sys_completed := c', sys_out := out,
       sys_inflight := (sys_inflight sys)[slot_of r := sys_inflight sys ! slot_of r - int (blocks_of r)]\<rparr>"
    "nvm_blocks nvm' = nvm_blocks (sys_nvm sys)" "length out = length (sys_out sys)"
    "disk_of blk sys' = execute r (disk_of blk sys)" "mix_buffer_migrating md' = mix_buffer_migrating (sys_meta sys)"
proof (cases r)
  case (NvmWrite s k n d)
  have cpy: "pmem_copies (env_cpy env)" using assms(1) by (simp add: platform_def)
  obtain nvm' sys' where "nvm_worker_task env ts w t sys = Some sys'" "store_ok sys'"
    "sys' = sys\<lparr>sys_nvm := nvm', sys_inflight := (sys_inflight sys)[s := sys_inflight sys ! s - int n]\<rparr>"
    "nvm_blocks nvm' = nvm_blocks (sys_nvm sys)" "disk_of blk sys' = execute (NvmWrite s k n d) (disk_of blk sys)"
    by (rule serve_nvm_write [OF cpy assms(2-5) [unfolded NvmWrite]]) blast
  then show thesis using that [of sys' "sys_out sys" "sys_completed sys" "sys_ssd sys" nvm' "sys_meta sys"] NvmWrite by simp
next
  case (NvmRead s k n)
  obtain out sys' where "nvm_worker_task env ts w t sys = Some sys'" "store_ok sys'"
    "sys' = sys\<lparr>sys_out := out, sys_inflight := (sys_inflight sys)[s := sys_inflight sys ! s - int n]\<rparr>"
    "length out = length (sys_out sys)" "disk_of blk sys' = execute (NvmRead s k n) (disk_of blk sys)"
    by (rule serve_nvm_read [OF assms(2-5) [unfolded NvmRead]]) blast
  then show thesis using that [of sys' out "sys_completed sys" "sys_ssd sys" "sys_nvm sys" "sys_meta sys"] NvmRead by simp
next
  case (BufferWrite s k d)
  have w: "w = k mod 4" using assms(6) by (simp add: BufferWrite flip: assms(6))
  obtain md' nvm' ssd' c' sys' where "nvm_worker_task env ts (k mod 4) t sys = Some sys'" "store_ok sys'"
    "sys' = sys\<lparr>sys_meta := md', sys_nvm := nvm', sys_ssd := ssd', sys_completed := c',
       sys_inflight := (sys_inflight sys)[s := sys_inflight sys ! s - 1]\<rparr>"
    "nvm_blocks nvm' = nvm_blocks (sys_nvm sys)" "disk_of blk sys' = execute (BufferWrite s k d) (disk_of blk sys)"
    "mix_buffer_migrating md' = mix_buffer_migrating (sys_meta sys)"
    by (rule serve_buffer_write [OF assms(1-5) [unfolded BufferWrite]]) blast
  then show thesis using that [of sys' "sys_out sys" c' ssd' nvm' md'] BufferWrite w by simp
qed

section \<open>The queues\<close>

definition set_queues :: "io_task list list \<Rightarrow> 's system \<Rightarrow> 's system" where
  "set_queues qs sys = sys\<lparr>sys_nvm_queue := take 4 qs, sys_buffer_queue := drop 4 qs\<rparr>"

definition bump :: "nat \<Rightarrow> 's system \<Rightarrow> 's system" where
  "bump w sys = sys\<lparr>sys_seq := bump_seq w (sys_seq sys)\<rparr>"

text \<open>The queue whose turn it is at worker \<open>w\<close>.\<close>

definition turn :: "nat \<Rightarrow> 's system \<Rightarrow> nat" where
  "turn w sys = (if sys_seq sys ! w AND 1 \<noteq> 0 then w else 4 + w)"

lemma queues_nth: "shaped sys \<Longrightarrow> w < 4 \<Longrightarrow> queues sys ! w = sys_nvm_queue sys ! w"
  "shaped sys \<Longrightarrow> queues sys ! (4 + w) = sys_buffer_queue sys ! w" "shaped sys \<Longrightarrow> length (queues sys) = 8"
  by (simp_all add: queues_def nth_append shaped_def)

lemma queues_set [simp]: "queues (set_queues qs sys) = qs"
  by (simp add: queues_def set_queues_def)

lemma queues_keep [simp]: "queues (bump w sys) = queues sys" "queues (sys\<lparr>sys_inflight := c\<rparr>) = queues sys"
  "queues (sys\<lparr>sys_meta := md, sys_nvm := nvm, sys_ssd := ssd, sys_completed := cp, sys_out := out, sys_inflight := c\<rparr>) = queues sys"
  by (simp_all add: queues_def bump_def)

lemma poll_queue:
  assumes "shaped sys" "w < 4"
  shows "nvm_worker_poll env ts w sys = (case queues sys ! turn w sys of [] \<Rightarrow> Some (bump w sys)
      | t # q \<Rightarrow> nvm_worker_task env ts w t (set_queues ((queues sys)[turn w sys := q]) (bump w sys)))"
    "next_task w sys = (case queues sys ! turn w sys of [] \<Rightarrow> None | t # q \<Rightarrow> Some t)"
proof -
  have l: "length (sys_nvm_queue sys) = 4" "length (sys_buffer_queue sys) = 4" using assms(1) by (simp_all add: shaped_def)
  note n = queues_nth(1,2) [OF assms(1)]
  have q: "take 4 ((queues sys)[w := q]) = (sys_nvm_queue sys)[w := q]" "drop 4 ((queues sys)[w := q]) = sys_buffer_queue sys"
      "take 4 ((queues sys)[4 + w := q]) = sys_nvm_queue sys" "drop 4 ((queues sys)[4 + w := q]) = (sys_buffer_queue sys)[w := q]" for q
    using l assms(2) by (simp_all add: queues_def list_update_append)
  show "nvm_worker_poll env ts w sys = (case queues sys ! turn w sys of [] \<Rightarrow> Some (bump w sys)
      | t # q \<Rightarrow> nvm_worker_task env ts w t (set_queues ((queues sys)[turn w sys := q]) (bump w sys)))"
    "next_task w sys = (case queues sys ! turn w sys of [] \<Rightarrow> None | t # q \<Rightarrow> Some t)"
    using n assms(2) q
    by (cases sys; simp add: nvm_worker_poll_def next_task_def turn_def get_task_from_nvm_queue_def get_task_from_buffer_queue_def
        set_queues_def bump_def bump_seq_def Let_def split: list.split)+
qed

lemma mset_concat_snoc: "j < length qs \<Longrightarrow> mset (concat (qs[j := qs ! j @ [t]])) = add_mset t (mset (concat qs))"
  by (induction qs arbitrary: j) (auto split: nat.split)

lemma mset_concat_tail: "j < length qs \<Longrightarrow> qs ! j = t # q \<Longrightarrow> mset (concat qs) = add_mset t (mset (concat (qs[j := q])))"
  by (induction qs arbitrary: j) (auto split: nat.split)

lemma length_le_concat: "j < length qs \<Longrightarrow> length (qs ! j) \<le> length (concat qs)"
  by (induction qs arbitrary: j) (auto split: nat.split simp: nth_Cons trans_le_add2)

text \<open>A call puts the task of the request at the end of its queue.\<close>

lemma nvm_home:
  assumes "k < 1928765"
  shows "unat ((of_nat k :: u64) AND (of_nat NVM_QUEUE_NUM - 1)) = k mod 4"
  using unat_and_mask [of "of_nat k :: u64" 2] assms by (simp add: NVM_QUEUE_NUM_def unsigned_of_nat take_bit_nat_eq_self)

lemma buffer_home: "k < 2 ^ 32 - 1 \<Longrightarrow> unat ((of_nat k :: u64) AND 3) = k mod 4"
  using unat_and_mask [of "of_nat k :: u64" 2] by (simp add: unsigned_of_nat take_bit_nat_eq_self)

lemma below_threshold: "k + n < 1928765 \<Longrightarrow> (of_nat k + of_nat n :: u64) < sched_threshold"
  by (simp add: sched_threshold_def word_less_nat_alt unsigned_of_nat take_bit_nat_eq_self flip: of_nat_add)

lemma issue_request:
  assumes sh: "shaped sys" and good: "good_request N r" and len: "length (queues sys ! home r) < sys_queue_size sys"
  obtains t where "task_for r t"
    "issue r sys = Some (set_queues ((queues sys)[home r := queues sys ! home r @ [t]])
       (sys\<lparr>sys_inflight := (sys_inflight sys)[slot_of r := int (blocks_of r)],
         sys_read_ptrs := (sys_read_ptrs sys)[slot_of r := (False, False)]\<rparr>))"
proof -
  have l: "length (sys_nvm_queue sys) = 4" "length (sys_buffer_queue sys) = 4" "length (sys_inflight sys) = 16" "length (sys_out sys) = 16"
    "16 \<le> sys_queue_size sys" using sh by (simp_all add: shaped_def)
  note n = queues_nth(1,2) [OF sh]
  show thesis
  proof (cases r)
    case (NvmWrite s k n d)
    let ?t = "\<lparr>task_buf = d, task_len = of_nat n, task_offset = of_nat k, task_inflight = s, task_opcode = MIX_WRITE,
       task_type = NVM_TASK, task_queue_idx = ucast (of_nat k mod of_nat NVM_QUEUE_NUM :: u64), task_original = None\<rparr>"
    have g: "s < 16" "n < 2 ^ 31" using good NvmWrite by simp_all
    have w: "(of_nat k + of_nat n :: u64) < sched_threshold" "unat ((of_nat k :: u64) AND (of_nat NVM_QUEUE_NUM - 1)) = k mod 4"
      using below_threshold nvm_home good NvmWrite by simp_all
    have "length (sys_nvm_queue sys ! (k mod 4)) < sys_queue_size sys" using len n(1) [of "k mod 4"] NvmWrite by simp
    then have "issue r sys = Some (set_queues ((queues sys)[home r := queues sys ! home r @ [?t]])
        (sys\<lparr>sys_inflight := (sys_inflight sys)[slot_of r := int (blocks_of r)],
         sys_read_ptrs := (sys_read_ptrs sys)[slot_of r := (False, False)]\<rparr>))"
      using g l w small_words(2) [OF g(2)] NvmWrite n(1) [of "k mod 4"]
      by (cases sys) (simp add: begin_write_def init_io_task_def enter_task_def put_task_def set_queues_def queues_def list_update_append)
    then show thesis using that [of ?t] NvmWrite by simp
  next
    case (NvmRead s k n)
    let ?t = "\<lparr>task_buf = sys_out sys ! s, task_len = of_nat n, task_offset = of_nat k, task_inflight = s, task_opcode = MIX_READ,
       task_type = NVM_TASK, task_queue_idx = ucast (of_nat k mod of_nat NVM_QUEUE_NUM :: u64), task_original = None\<rparr>"
    have g: "s < 16" "n < 2 ^ 31" using good NvmRead by simp_all
    have w: "(of_nat k + of_nat n :: u64) < sched_threshold" "unat ((of_nat k :: u64) AND (of_nat NVM_QUEUE_NUM - 1)) = k mod 4"
      using below_threshold nvm_home good NvmRead by simp_all
    have "length (sys_nvm_queue sys ! (k mod 4)) < sys_queue_size sys" using len n(1) [of "k mod 4"] NvmRead by simp
    then have "issue r sys = Some (set_queues ((queues sys)[home r := queues sys ! home r @ [?t]])
        (sys\<lparr>sys_inflight := (sys_inflight sys)[slot_of r := int (blocks_of r)],
         sys_read_ptrs := (sys_read_ptrs sys)[slot_of r := (False, False)]\<rparr>))"
      using g l w small_words(2) [OF g(2)] NvmRead n(1) [of "k mod 4"]
      by (cases sys) (simp add: begin_read_def init_io_task_def enter_task_def put_task_def set_queues_def queues_def list_update_append)
    then show thesis using that [of ?t] NvmRead by simp
  next
    case (BufferWrite s k d)
    let ?t = "\<lparr>task_buf = d, task_len = 1, task_offset = of_nat k, task_inflight = s, task_opcode = MIX_WRITE,
       task_type = SSD_TASK, task_queue_idx = of_nat s, task_original = None\<rparr>"
    have g: "s < 16" "k < 2 ^ 32 - 1" "k + 1 < 2 ^ 63" using good BufferWrite by simp_all
    define o' where "o' = (of_nat (k + 1928765) :: u64)"
    have w: "\<not> o' + 1 < sched_threshold" "o' - sched_threshold = of_nat k" "issue r sys = begin_write d 1 o' 0 s sys"
      using ssd_range [OF g(3)] unfolding o'_def BufferWrite by (simp_all only: issue.simps of_nat_1 not_False_eq_True)
    note h = buffer_home [OF g(2)]
    have "length (sys_buffer_queue sys ! (k mod 4)) < sys_queue_size sys" using len n(2) [of "k mod 4"] BufferWrite by simp
    then have "issue r sys = Some (set_queues ((queues sys)[home r := queues sys ! home r @ [?t]])
        (sys\<lparr>sys_inflight := (sys_inflight sys)[slot_of r := int (blocks_of r)],
         sys_read_ptrs := (sys_read_ptrs sys)[slot_of r := (False, False)]\<rparr>))"
      using g l w h BufferWrite n(2) [of "k mod 4"] small_words(2) [of 1]
      by (cases sys) (simp add: begin_write_def init_io_task_def enter_task_def put_task_def set_queues_def queues_def list_update_append)
    then show thesis using that [of ?t] BufferWrite by simp
  qed
qed

end
