(* ===== verification/Interleaving.thy ===== *)
theory Interleaving
  imports Concurrent
begin

text \<open>
  The runs of \<open>Concurrent\<close>: the invariant of the running system, which every action of a caller or a worker
  keeps, and the properties of all interleavings. The lemmas \<open>call_act\<close>, \<open>poll_act\<close>, \<open>return_act\<close>, \<open>fetch_act\<close>,
  \<open>store_act\<close> and \<open>clear_act\<close> are the simulation of the disk; \<open>waiting_served\<close> bounds the time a task waits.
\<close>

section \<open>The invariant of the running system\<close>

text \<open>The tasks that stand for requests, and the slots of their callers.\<close>

abbreviation pending :: "io_task list \<Rightarrow> io_task list" where
  "pending q \<equiv> filter (\<lambda>t. \<not> clearing t) q"

definition slots :: "'s system \<Rightarrow> nat list" where
  "slots sys = map task_inflight (pending (concat (queues sys)))"

text \<open>A task in queue \<open>j\<close> stands for the request in which the caller of its slot is.\<close>

definition task_placed :: "request option list \<Rightarrow> 's system \<Rightarrow> nat \<Rightarrow> io_task \<Rightarrow> bool" where
  "task_placed calls sys j t \<longleftrightarrow> (\<exists>r. calls ! task_inflight t = Some r \<and> slot_of r = task_inflight t \<and>
     good_request (nvm_blocks (sys_nvm sys)) r \<and> home r = j \<and> task_for r t \<and>
     sys_inflight sys ! task_inflight t = int (blocks_of r))"

definition placed :: "request option list \<Rightarrow> 's system \<Rightarrow> bool" where
  "placed calls sys \<longleftrightarrow> length calls = 16 \<and> distinct (slots sys) \<and>
     (\<forall>j < 8. \<forall>t \<in> set (queues sys ! j). if clearing t then 4 \<le> j else task_placed calls sys j t) \<and>
     (\<forall>s r. s < 16 \<and> calls ! s = Some r \<longrightarrow> slot_of r = s \<and> (s \<notin> set (slots sys) \<longrightarrow> sys_inflight sys ! s = 0))"

definition conc_ok :: "'s system \<times> request option list \<Rightarrow> bool" where
  "conc_ok = (\<lambda>(sys, calls). shaped sys \<and> placed calls sys \<and> store_ok sys)"

definition phases :: "'s system \<times> request option list \<Rightarrow> nat \<Rightarrow> phase" where
  "phases = (\<lambda>(sys, calls) s. if 16 \<le> s then Idle else case calls ! s of None \<Rightarrow> Idle
     | Some r \<Rightarrow> if s \<in> set (slots sys) then Waiting r else Finished r)"

lemma good_slot: "good_request N r \<Longrightarrow> slot_of r < 16" "good_request N r \<Longrightarrow> 0 < blocks_of r"
  by (cases r; simp)+

lemma task_for_slot: "task_for r t \<Longrightarrow> task_inflight t = slot_of r"
  by (cases r) simp_all

lemma task_for_pending: "task_for r t \<Longrightarrow> \<not> clearing t"
  by (cases r) (auto simp: clearing_def NVM_TASK_def SSD_TASK_def MIX_READ_def MIX_WRITE_def MIX_CLEAR_def)

lemma in_slots:
  "shaped sys \<Longrightarrow> j < 8 \<Longrightarrow> t \<in> set (queues sys ! j) \<Longrightarrow> \<not> clearing t \<Longrightarrow> task_inflight t \<in> set (slots sys)"
  using queues_nth(3) [of sys] by (force simp: slots_def in_set_conv_nth)

lemma slots_task:
  assumes "shaped sys" "s \<in> set (slots sys)"
  obtains j t where "j < 8" "t \<in> set (queues sys ! j)" "\<not> clearing t" "task_inflight t = s"
  using assms queues_nth(3) [of sys] by (auto simp: slots_def in_set_conv_nth [of _ "queues sys"])

lemma placed_task:
  "placed calls sys \<Longrightarrow> j < 8 \<Longrightarrow> t \<in> set (queues sys ! j) \<Longrightarrow> \<not> clearing t \<Longrightarrow> task_placed calls sys j t"
  by (simp add: placed_def)

lemma nvm_pending:
  assumes "placed calls sys" "j < 4"
  shows "pending (queues sys ! j) = queues sys ! j"
proof (rule filter_True)
  have "j < 8" "\<not> 4 \<le> j" using assms(2) by simp_all
  then show "\<forall>t \<in> set (queues sys ! j). \<not> clearing t" using assms(1) unfolding placed_def by metis
qed

lemma placed_slot:
  assumes "placed calls sys" "shaped sys" "s \<in> set (slots sys)"
  obtains r where "calls ! s = Some r" "slot_of r = s" "s < 16" "0 < sys_inflight sys ! s"
proof -
  obtain j t where t: "j < 8" "t \<in> set (queues sys ! j)" "\<not> clearing t" "task_inflight t = s"
    by (rule slots_task [OF assms(2,3)])
  from placed_task [OF assms(1) t(1-3)] show thesis using that good_slot t(4) unfolding task_placed_def by (metis of_nat_0_less_iff)
qed

lemma slots_bound:
  assumes "placed calls sys" "shaped sys" "j < 8" "s < 16" "s \<notin> set (slots sys)"
  shows "length (pending (queues sys ! j)) < 16"
proof -
  have "set (slots sys) \<subseteq> {..<16} - {s}" using placed_slot [OF assms(1,2)] assms(5) by (metis DiffI lessThan_iff singletonD subsetI)
  then have "card (set (slots sys)) \<le> card ({..<16} - {s})" by (intro card_mono) simp_all
  moreover have "card (set (slots sys)) = length (slots sys)" using assms(1) by (intro distinct_card) (simp add: placed_def)
  moreover have "card ({..<16 :: nat} - {s}) = 15" using assms(4) by (simp add: card_Diff_singleton)
  moreover have "length (pending (queues sys ! j)) \<le> length (pending (concat (queues sys)))"
    using length_le_concat [of j "map pending (queues sys)"] queues_nth(3) [OF assms(2)] assms(3) by (simp add: filter_concat)
  ultimately show ?thesis by (simp add: slots_def)
qed

lemma room_in_queue:
  assumes "placed calls sys" "shaped sys" "s < 16" "s \<notin> set (slots sys)" "j < 8" "\<not> spins j sys"
  shows "length (queues sys ! j) < sys_queue_size sys"
proof (cases "j < 4")
  case True
  then show ?thesis using slots_bound [OF assms(1,2,5,3,4)] nvm_pending [OF assms(1)] assms(2) by (simp add: shaped_def)
next
  case False
  then show ?thesis using assms(6) queues_nth(2) [OF assms(2), of "j - 4"] by (simp add: spins_def)
qed

lemma disk_of_same:
  "sys_meta sys' = sys_meta sys \<Longrightarrow> sys_nvm sys' = sys_nvm sys \<Longrightarrow> sys_ssd sys' = sys_ssd sys \<Longrightarrow> sys_out sys' = sys_out sys \<Longrightarrow>
     disk_of blk sys' = disk_of blk sys"
  by (simp add: disk_of_def cong: if_cong)

text \<open>A call.\<close>

lemma call_step:
  assumes ok: "conc_ok (sys, calls)" and good: "good_request (nvm_blocks (sys_nvm sys)) r"
    and free: "calls ! slot_of r = None" "\<not> spins (home r) sys"
  obtains t sys' where "issue r sys = Some sys'" "conc_ok (sys', calls[slot_of r := Some r])"
    "phases (sys', calls[slot_of r := Some r]) = (phases (sys, calls))(slot_of r := Waiting r)"
    "disk_of blk sys' = disk_of blk sys" "queues sys' = (queues sys)[home r := queues sys ! home r @ [t]]"
    "sys_seq sys' = sys_seq sys" "sys_nvm sys' = sys_nvm sys" "task_inflight t = slot_of r" "sys_meta sys' = sys_meta sys"
    "\<not> clearing t"
proof -
  define s j where "s = slot_of r" and "j = home r"
  have sh: "shaped sys" and pl: "placed calls sys" and st: "store_ok sys"
    using ok by (simp_all add: conc_ok_def)
  have s: "s < 16" and j: "j < 8" using good_slot(1) [OF good] home_less by (simp_all add: s_def j_def)
  have q8: "length (queues sys) = 8" using queues_nth(3) [OF sh] .
  have new: "s \<notin> set (slots sys)" using placed_slot [OF pl sh] free unfolding s_def by (metis option.distinct(1))
  have len: "length (queues sys ! home r) < sys_queue_size sys" by (rule room_in_queue [OF pl sh s new home_less free(2)])
  let ?cs = "(sys_inflight sys)[s := int (blocks_of r)]" and ?ps = "(sys_read_ptrs sys)[s := (False, False)]"
  obtain t where t: "task_for r t" "issue r sys = Some (set_queues ((queues sys)[j := queues sys ! j @ [t]]) (sys\<lparr>sys_inflight := ?cs, sys_read_ptrs := ?ps\<rparr>))"
    using issue_request [OF sh good len] unfolding s_def j_def by blast
  define qs where "qs = (queues sys)[j := queues sys ! j @ [t]]"
  define sys' where "sys' = set_queues qs (sys\<lparr>sys_inflight := ?cs, sys_read_ptrs := ?ps\<rparr>)"
  have ts: "task_inflight t = s" using task_for_slot [OF t(1)] by (simp add: s_def)
  have qs: "length qs = 8" "queues sys' = qs" using q8 by (simp_all add: qs_def sys'_def)
  have keep: "sys_nvm sys' = sys_nvm sys" "sys_inflight sys' = ?cs" "sys_ssd sys' = sys_ssd sys" "sys_completed sys' = sys_completed sys" "sys_out sys' = sys_out sys" "sys_seq sys' = sys_seq sys"
      "sys_meta sys' = sys_meta sys"
    by (simp_all add: sys'_def set_queues_def)
  have "mset (concat qs) = add_mset t (mset (concat (queues sys)))" unfolding qs_def using mset_concat_snoc j q8 by metis
  then have m: "mset (slots sys') = mset (s # slots sys)" using qs(2) ts task_for_pending [OF t(1)] by (simp add: slots_def mset_map mset_filter)
  have slots: "set (slots sys') = insert s (set (slots sys))" "distinct (slots sys')"
  proof -
    show "set (slots sys') = insert s (set (slots sys))" using mset_eq_setD [OF m] by (simp only: list.set)
    show "distinct (slots sys')" using mset_eq_imp_distinct_iff [OF m] new pl by (simp only: placed_def distinct.simps) simp
  qed
  have sh': "shaped sys'" using sh qs(1) by (simp add: shaped_def sys'_def set_queues_def)
  have "if clearing u then 4 \<le> k else task_placed (calls[s := Some r]) sys' k u" if k: "k < 8" "u \<in> set (qs ! k)" for k u
  proof (cases "u \<in> set (queues sys ! k)")
    case True
    show ?thesis
    proof (cases "clearing u")
      case False
      have "task_inflight u \<noteq> s" using in_slots [OF sh k(1) True False] new by metis
      then show ?thesis using placed_task [OF pl k(1) True False] False by (fastforce simp: task_placed_def keep)
    qed (use pl k(1) True in \<open>simp add: placed_def\<close>)
  next
    case False
    then have "u = t" "k = j" using k q8 j by (auto simp: qs_def nth_list_update split: if_splits)
    then show ?thesis using t(1) task_for_pending [OF t(1)] good s pl sh by (auto simp: task_placed_def ts keep placed_def shaped_def s_def j_def)
  qed
  moreover have "slot_of r' = s' \<and> (s' \<notin> set (slots sys') \<longrightarrow> sys_inflight sys' ! s' = 0)"
    if c: "s' < 16" "calls[s := Some r] ! s' = Some r'" for s' r'
  proof (cases "s' = s")
    case True
    then show ?thesis using c pl slots(1) by (simp add: placed_def s_def)
  next
    case False
    then show ?thesis using c pl slots(1) by (simp add: placed_def keep)
  qed
  ultimately have "placed (calls[s := Some r]) sys'"
    using pl slots(2) by (simp add: placed_def qs(2))
  note pl' = this
  have "store_ok sys'" using st by (simp add: store_ok_def keep)
  then have "conc_ok (sys', calls[s := Some r])" using sh' pl' by (simp add: conc_ok_def)
  moreover have "length calls = 16" using pl by (simp add: placed_def)
  then have "phases (sys', calls[s := Some r]) = (phases (sys, calls))(s := Waiting r)"
    using slots(1) s by (auto simp: phases_def fun_eq_iff nth_list_update split: option.split)
  moreover have "disk_of blk sys' = disk_of blk sys" by (rule disk_of_same) (simp_all add: keep)
  ultimately show thesis using that [of sys' t] t(2) task_for_pending [OF t(1)] qs(2) keep ts by (simp add: s_def j_def qs_def sys'_def)
qed

lemma shaped_update: "shaped sys \<Longrightarrow> length qs = 8 \<Longrightarrow> shaped (set_queues qs (bump w sys))"
  by (simp add: shaped_def set_queues_def bump_def)

lemma set_queues_keep [simp]:
  "sys_meta (set_queues qs sys) = sys_meta sys" "sys_nvm (set_queues qs sys) = sys_nvm sys" "sys_ssd (set_queues qs sys) = sys_ssd sys"
  "sys_completed (set_queues qs sys) = sys_completed sys" "sys_inflight (set_queues qs sys) = sys_inflight sys"
  "sys_out (set_queues qs sys) = sys_out sys" "sys_seq (set_queues qs sys) = sys_seq sys"
  by (simp_all add: set_queues_def)

lemma bump_keep [simp]:
  "sys_meta (bump w sys) = sys_meta sys" "sys_nvm (bump w sys) = sys_nvm sys" "sys_ssd (bump w sys) = sys_ssd sys"
  "sys_completed (bump w sys) = sys_completed sys" "sys_inflight (bump w sys) = sys_inflight sys" "sys_out (bump w sys) = sys_out sys"
  by (simp_all add: bump_def)

text \<open>The worker finds its queue empty.\<close>

lemma idle_poll_step:
  assumes "conc_ok (sys, calls)" "w < 4"
  shows "conc_ok (bump w sys, calls)" "phases (bump w sys, calls) = phases (sys, calls)" "disk_of blk (bump w sys) = disk_of blk sys"
proof -
  have s: "slots (bump w sys) = slots sys" by (simp add: slots_def)
  have tp: "task_placed calls (bump w sys) = task_placed calls sys" by (simp add: task_placed_def fun_eq_iff)
  have "shaped (bump w sys)" using assms by (simp add: conc_ok_def shaped_def) (simp add: bump_def)
  then show "conc_ok (bump w sys, calls)" using assms(1) tp by (simp add: conc_ok_def placed_def s store_ok_def)
  show "phases (bump w sys, calls) = phases (sys, calls)" by (simp add: phases_def s cong: if_cong option.case_cong)
  show "disk_of blk (bump w sys) = disk_of blk sys" by (rule disk_of_same) simp_all
qed

text \<open>The worker takes a task.\<close>

lemma serve_step:
  assumes pf: "platform env blk cap ts" and ok: "conc_ok (sys, calls)" and w: "w < 4"
    and take: "queues sys ! turn w sys = t # q" "\<not> clearing t"
  obtains r sys' where "calls ! task_inflight t = Some r" "slot_of r = task_inflight t"
    "nvm_worker_task env ts w t (set_queues ((queues sys)[turn w sys := q]) (bump w sys)) = Some sys'"
    "conc_ok (sys', calls)" "phases (sys, calls) (slot_of r) = Waiting r"
    "phases (sys', calls) = (phases (sys, calls))(slot_of r := Finished r)"
    "disk_of blk sys' = execute r (disk_of blk sys)" "queues sys' = (queues sys)[turn w sys := q]"
    "sys_seq sys' = bump_seq w (sys_seq sys)" "nvm_blocks (sys_nvm sys') = nvm_blocks (sys_nvm sys)"
    "mix_buffer_migrating (sys_meta sys') = mix_buffer_migrating (sys_meta sys)"
proof -
  define j where "j = turn w sys"
  have sh: "shaped sys" and pl: "placed calls sys" and st: "store_ok sys"
    using ok by (simp_all add: conc_ok_def)
  have q8: "length (queues sys) = 8" using queues_nth(3) [OF sh] .
  have j: "j < 8" "j mod 4 = w" using w by (simp_all add: j_def turn_def)
  have t: "t \<in> set (queues sys ! j)" using take by (simp add: j_def)
  then have "task_placed calls sys j t" using placed_task [OF pl j(1)] take(2) by blast
  then obtain r where r: "calls ! task_inflight t = Some r" "slot_of r = task_inflight t" "good_request (nvm_blocks (sys_nvm sys)) r"
    "home r = j" "task_for r t" "sys_inflight sys ! slot_of r = int (blocks_of r)"
    by (auto simp: task_placed_def)
  define s where "s = slot_of r"
  have s: "s < 16" using good_slot(1) [OF r(3)] by (simp add: s_def)
  define qs where "qs = (queues sys)[j := q]"
  define sys1 where "sys1 = set_queues qs (bump w sys)"
  have l1: "length qs = 8" using q8 by (simp add: qs_def)
  have "mset (concat (queues sys)) = add_mset t (mset (concat qs))"
    unfolding qs_def using mset_concat_tail [of j "queues sys" t q] take(1) j(1) q8 by (simp add: j_def)
  then have m: "mset (slots sys) = mset (s # slots sys1)" using r(2) take(2) by (simp add: slots_def sys1_def mset_map mset_filter s_def)
  have "distinct (s # slots sys1)" using mset_eq_imp_distinct_iff [OF m] pl by (simp only: placed_def)
  moreover have "set (slots sys) = insert s (set (slots sys1))" using mset_eq_setD [OF m] by (simp only: list.set)
  ultimately have slots: "set (slots sys1) = set (slots sys) - {s}" "distinct (slots sys1)" "s \<in> set (slots sys)" by auto
  have sub: "u \<in> set (queues sys ! k)" if "k < 8" "u \<in> set (qs ! k)" for k u
    using that take q8 j(1) by (auto simp: qs_def j_def nth_list_update split: if_splits)
  have st1: "store_ok sys1" using st by (simp add: store_ok_def sys1_def)
  have sh1: "shaped sys1" using shaped_update [OF sh l1] by (simp add: sys1_def)
  have g1: "good_request (nvm_blocks (sys_nvm sys1)) r" "home r mod 4 = w" using r(3,4) j(2) by (simp_all add: sys1_def)
  obtain md' nvm' ssd' c' out sys' where v: "nvm_worker_task env ts w t sys1 = Some sys'" "store_ok sys'"
    "sys' = sys1\<lparr>sys_meta := md', sys_nvm := nvm', sys_ssd := ssd', sys_completed := c', sys_out := out,
       sys_inflight := (sys_inflight sys1)[slot_of r := sys_inflight sys1 ! slot_of r - int (blocks_of r)]\<rparr>"
    "nvm_blocks nvm' = nvm_blocks (sys_nvm sys1)" "length out = length (sys_out sys1)" "disk_of blk sys' = execute r (disk_of blk sys1)"
    "mix_buffer_migrating md' = mix_buffer_migrating (sys_meta sys1)"
    by (rule serve_request [OF pf sh1 st1 g1(1) r(5) g1(2)]) blast
  have q': "queues sys' = qs" by (simp add: v(3) sys1_def queues_def set_queues_def)
  then have s': "slots sys' = slots sys1" by (simp add: slots_def sys1_def)
  have infl: "sys_inflight sys' = (sys_inflight sys)[s := 0]" using r(6) by (simp add: v(3) sys1_def s_def)
  have sh': "shaped sys'" using sh1 v(5) by (simp add: v(3) shaped_def)
  have "if clearing u then 4 \<le> k else task_placed calls sys' k u" if k: "k < 8" "u \<in> set (qs ! k)" for k u
  proof (cases "clearing u")
    case True
    then show ?thesis using pl k(1) sub [OF k] by (auto simp: placed_def split: if_splits)
  next
    case False
    have "task_inflight u \<in> set (slots sys1)" using in_slots [OF sh1 k(1) _ False] k(2) by (simp add: sys1_def)
    then have "task_inflight u \<noteq> s" using slots(1) by auto
    moreover have "task_placed calls sys k u" by (rule placed_task [OF pl k(1) sub [OF k] False])
    moreover have "nvm_blocks (sys_nvm sys') = nvm_blocks (sys_nvm sys)" using v(4) by (simp add: v(3) sys1_def)
    ultimately show ?thesis using False by (auto simp: task_placed_def infl)
  qed
  moreover have "slot_of r' = s' \<and> (s' \<notin> set (slots sys') \<longrightarrow> sys_inflight sys' ! s' = 0)" if c: "s' < 16" "calls ! s' = Some r'" for s' r'
  proof -
    have "length (sys_inflight sys) = 16" using sh by (simp add: shaped_def)
    then show ?thesis using c pl slots(1) by (cases "s' = s") (simp_all add: placed_def infl s')
  qed
  ultimately have "placed calls sys'" using pl slots(2) by (simp add: placed_def q' s')
  then have "conc_ok (sys', calls)" using sh' v(2) by (simp add: conc_ok_def)
  moreover have "phases (sys, calls) (slot_of r) = Waiting r" using s r(1,2) slots(3) by (simp add: phases_def s_def)
  moreover have "phases (sys', calls) = (phases (sys, calls))(slot_of r := Finished r)"
    using s r(1,2) slots(1) by (auto simp: phases_def fun_eq_iff s_def s' split: option.split)
  moreover have "disk_of blk sys1 = disk_of blk sys" by (rule disk_of_same) (simp_all add: sys1_def)
  moreover have "sys_seq sys' = bump_seq w (sys_seq sys)" "nvm_blocks (sys_nvm sys') = nvm_blocks (sys_nvm sys)"
      "mix_buffer_migrating (sys_meta sys') = mix_buffer_migrating (sys_meta sys)"
    using v(4,7) by (simp_all add: v(3) sys1_def bump_def)
  ultimately show thesis
    using that [OF r(1,2), of sys'] v(1,6) q' unfolding sys1_def qs_def j_def by simp
qed

text \<open>The worker takes a clearing subtask, and does nothing.\<close>

lemma clear_poll_step:
  assumes ok: "conc_ok (sys, calls)" and w: "w < 4" and take: "queues sys ! turn w sys = t # q" "clearing t"
  defines "sys1 \<equiv> set_queues ((queues sys)[turn w sys := q]) (bump w sys)"
  shows "nvm_worker_task env ts w t sys1 = Some sys1" "conc_ok (sys1, calls)" "phases (sys1, calls) = phases (sys, calls)"
    "disk_of blk sys1 = disk_of blk sys"
proof -
  define j where "j = turn w sys"
  define qs where "qs = (queues sys)[j := q]"
  have sh: "shaped sys" and pl: "placed calls sys" and st: "store_ok sys"
    using ok by (simp_all add: conc_ok_def)
  have q8: "length (queues sys) = 8" "length qs = 8" using queues_nth(3) [OF sh] by (simp_all add: qs_def)
  have j: "j < 8" using w by (simp add: j_def turn_def)
  have qs: "queues sys1 = qs" by (simp add: sys1_def qs_def j_def)
  have keep: "sys_nvm sys1 = sys_nvm sys" "sys_inflight sys1 = sys_inflight sys" "sys_meta sys1 = sys_meta sys" "sys_ssd sys1 = sys_ssd sys"
      "sys_completed sys1 = sys_completed sys" "sys_out sys1 = sys_out sys"
    by (simp_all add: sys1_def)
  have pend: "pending (qs ! k) = pending (queues sys ! k)" if "k < 8" for k
    using that q8(1) take by (cases "k = j") (simp_all add: qs_def j_def)
  then have "map pending qs = map pending (queues sys)" using q8 by (intro nth_equalityI) simp_all
  then have slots: "slots sys1 = slots sys" unfolding slots_def qs filter_concat by simp
  have "if clearing u then 4 \<le> k else task_placed calls sys1 k u" if k: "k < 8" "u \<in> set (qs ! k)" for k u
  proof -
    have "u \<in> set (queues sys ! k)" using k q8(1) take(1) by (cases "k = j") (auto simp: qs_def j_def)
    then show ?thesis using pl k(1) by (auto simp: placed_def task_placed_def keep split: if_splits)
  qed
  then have "placed calls sys1" using pl by (simp add: placed_def qs slots keep)
  moreover have "shaped sys1" using shaped_update [OF sh q8(2)] by (simp add: sys1_def qs_def j_def)
  moreover have "store_ok sys1" using st by (simp add: store_ok_def keep)
  ultimately show "conc_ok (sys1, calls)" by (simp add: conc_ok_def)
  show "nvm_worker_task env ts w t sys1 = Some sys1" by (rule clearing_ignored [OF take(2)])
  show "phases (sys1, calls) = phases (sys, calls)" by (simp add: phases_def slots cong: if_cong option.case_cong)
  show "disk_of blk sys1 = disk_of blk sys" by (rule disk_of_same) (simp_all add: keep)
qed

section \<open>Runs\<close>

text \<open>The actions that are allowed: the NVM area has \<open>N\<close> blocks and the SSD \<open>cap\<close>, and the SSD is used only
  while not all segments are flagged as migrating, since the caller would spin.\<close>

fun good_action :: "nat \<Rightarrow> nat \<Rightarrow> bool \<Rightarrow> action \<Rightarrow> bool" where
  "good_action N cap open (Call r) = good_request N r"
| "good_action N cap open (Poll w) = (w < 4)"
| "good_action N cap open (Return s) = (s < 16)"
| "good_action N cap open (ReadSsd s k n) = (s < 16 \<and> k + n \<le> cap \<and> k + n < 2 ^ 63 \<and> n < 2 ^ 31 \<and> open)"
| "good_action N cap open (PostClear w t) = (w < 4 \<and> clearing t)"
| "good_action N cap open (WriteSsd s k n d) =
     (s < 16 \<and> k + n \<le> cap \<and> k + n < 2 ^ 63 \<and> n < 2 ^ 31 \<and> n * 4096 \<le> length d \<and> open)"

abbreviation allowed :: "nat \<Rightarrow> 's system \<Rightarrow> action \<Rightarrow> bool" where
  "allowed cap sys \<equiv> good_action (nvm_blocks (sys_nvm sys)) cap (mix_buffer_migrating (sys_meta sys) = Some False)"

text \<open>What one action does: \<open>step_ok\<close> is the simulation of the specification.\<close>

definition step_ok :: "('s \<Rightarrow> u64 \<Rightarrow> u8 list) \<Rightarrow> 's system \<times> request option list \<Rightarrow> event list \<Rightarrow>
    's system \<times> request option list \<Rightarrow> bool" where
  "step_ok blk st h st' \<longleftrightarrow> conc_ok st' \<and> legal h (phases st) = Some (phases st') \<and>
     disk_of blk (fst st') = fold effect h (disk_of blk (fst st)) \<and>
     nvm_blocks (sys_nvm (fst st')) = nvm_blocks (sys_nvm (fst st)) \<and>
     mix_buffer_migrating (sys_meta (fst st')) = mix_buffer_migrating (sys_meta (fst st))"

lemma step_ok_trans:
  assumes "step_ok blk st h st'" "step_ok blk st' h' st''"
  shows "step_ok blk st (h @ h') st''"
  using assms by (simp add: step_ok_def legal_append)

lemma call_act:
  assumes "conc_ok (sys, calls)" "good_request (nvm_blocks (sys_nvm sys)) r"
  obtains sys' calls' h where "act env ts (Call r) (sys, calls) = Some ((sys', calls'), h)" "step_ok blk (sys, calls) h (sys', calls')"
    "sys_seq sys' = sys_seq sys" "\<And>j. \<exists>ts. queues sys' ! j = queues sys ! j @ ts"
    "\<And>s r'. calls ! s = Some r' \<Longrightarrow> calls' ! s = Some r'"
    "calls ! slot_of r = None \<Longrightarrow> \<not> spins (home r) sys \<Longrightarrow> calls' ! slot_of r = Some r \<and> h = [Invoked r] \<and>
       (\<exists>t. queues sys' ! home r = queues sys ! home r @ [t] \<and> task_inflight t = slot_of r \<and> \<not> clearing t)"
proof (cases "calls ! slot_of r = None \<and> \<not> spins (home r) sys")
  case True
  then have None: "calls ! slot_of r = None" "\<not> spins (home r) sys" by simp_all
  have sh: "shaped sys" and pl: "placed calls sys" using assms(1) by (simp_all add: conc_ok_def)
  have s: "slot_of r < length calls" using good_slot(1) [OF assms(2)] pl by (simp add: placed_def)
  have new: "slot_of r \<notin> set (slots sys)" using placed_slot [OF pl sh] None(1) by (metis option.distinct(1))
  obtain t sys' where c: "issue r sys = Some sys'" "conc_ok (sys', calls[slot_of r := Some r])"
    "phases (sys', calls[slot_of r := Some r]) = (phases (sys, calls))(slot_of r := Waiting r)"
    "disk_of blk sys' = disk_of blk sys" "queues sys' = (queues sys)[home r := queues sys ! home r @ [t]]"
    "sys_seq sys' = sys_seq sys" "sys_nvm sys' = sys_nvm sys" "task_inflight t = slot_of r" "sys_meta sys' = sys_meta sys" "\<not> clearing t"
    by (rule call_step [OF assms None]) blast
  have "phases (sys, calls) (slot_of r) = Idle" using None by (simp add: phases_def)
  then have ok: "step_ok blk (sys, calls) [Invoked r] (sys', calls[slot_of r := Some r])" using c(2-4,7,9) by (simp add: step_ok_def)
  have q8: "home r < length (queues sys)" using queues_nth(3) [OF sh] home_less by simp
  show thesis
  proof (rule that [OF _ ok])
    show "\<exists>ts. queues sys' ! j = queues sys ! j @ ts" for j
      using q8 by (cases "j = home r") (simp_all add: c(5))
    show "calls[slot_of r := Some r] ! slot_of r = Some r \<and> [Invoked r] = [Invoked r] \<and>
        (\<exists>t. queues sys' ! home r = queues sys ! home r @ [t] \<and> task_inflight t = slot_of r \<and> \<not> clearing t)"
      using s q8 c(8,10) by (auto simp: c(5))
    show "calls[slot_of r := Some r] ! u = Some r'" if "calls ! u = Some r'" for u r'
      using that None by (cases "u = slot_of r") simp_all
  qed (use None c(1,6) in simp_all)
next
  case False
  have "step_ok blk (sys, calls) [] (sys, calls)" using assms(1) by (simp add: step_ok_def)
  then show thesis using that [of sys calls "[]"] False by auto
qed

lemma poll_act:
  assumes "platform env blk cap ts" "conc_ok (sys, calls)" "w < 4"
  obtains sys' h where "act env ts (Poll w) (sys, calls) = Some ((sys', calls), h)" "step_ok blk (sys, calls) h (sys', calls)"
    "sys_seq sys' = bump_seq w (sys_seq sys)" "queues sys' = (queues sys)[turn w sys := tl (queues sys ! turn w sys)]"
    "\<And>t q. queues sys ! turn w sys = t # q \<Longrightarrow> \<not> clearing t \<Longrightarrow> \<exists>r. calls ! task_inflight t = Some r \<and> h = [Served r]"
    "\<And>t q. queues sys ! turn w sys = t # q \<Longrightarrow> clearing t \<Longrightarrow> h = []"
proof (cases "queues sys ! turn w sys")
  case Nil
  have sh: "shaped sys" using assms(2) by (simp add: conc_ok_def)
  note s = idle_poll_step [OF assms(2,3)]
  have "act env ts (Poll w) (sys, calls) = Some ((bump w sys, calls), [])" using poll_queue [OF sh assms(3)] Nil by simp
  moreover have "step_ok blk (sys, calls) [] (bump w sys, calls)" using s by (simp add: step_ok_def)
  moreover have "queues (bump w sys) = (queues sys)[turn w sys := tl (queues sys ! turn w sys)]" using Nil by (metis list.sel(2) list_update_id queues_keep(1))
  ultimately show thesis using that Nil by (simp add: bump_def)
next
  case (Cons t q)
  have sh: "shaped sys" using assms(2) by (simp add: conc_ok_def)
  show thesis
  proof (cases "clearing t")
    case True
    define sys1 where "sys1 = set_queues ((queues sys)[turn w sys := q]) (bump w sys)"
    note c = clear_poll_step [OF assms(2,3) Cons True, folded sys1_def]
    have "act env ts (Poll w) (sys, calls) = Some ((sys1, calls), [])"
      using poll_queue [OF sh assms(3)] Cons True c(1) [of env ts] by (simp flip: sys1_def)
    moreover have "step_ok blk (sys, calls) [] (sys1, calls)" using c(2-4) by (simp add: step_ok_def) (simp add: sys1_def)
    moreover have "sys_seq sys1 = bump_seq w (sys_seq sys)" by (simp add: sys1_def bump_def)
    moreover have "queues sys1 = (queues sys)[turn w sys := tl (queues sys ! turn w sys)]" using Cons by (simp add: sys1_def)
    ultimately show thesis using that Cons True by simp
  next
    case False
    obtain r sys' where s: "calls ! task_inflight t = Some r" "slot_of r = task_inflight t"
      "nvm_worker_task env ts w t (set_queues ((queues sys)[turn w sys := q]) (bump w sys)) = Some sys'"
      "conc_ok (sys', calls)" "phases (sys, calls) (slot_of r) = Waiting r"
      "phases (sys', calls) = (phases (sys, calls))(slot_of r := Finished r)"
      "disk_of blk sys' = execute r (disk_of blk sys)" "queues sys' = (queues sys)[turn w sys := q]"
      "sys_seq sys' = bump_seq w (sys_seq sys)" "nvm_blocks (sys_nvm sys') = nvm_blocks (sys_nvm sys)"
      "mix_buffer_migrating (sys_meta sys') = mix_buffer_migrating (sys_meta sys)"
      by (rule serve_step [OF assms(1-3) Cons False]) blast
    have "act env ts (Poll w) (sys, calls) = Some ((sys', calls), [Served r])" using poll_queue [OF sh assms(3)] Cons False s(1,3) by simp
    moreover have "step_ok blk (sys, calls) [Served r] (sys', calls)" using s(4-7,10,11) by (simp add: step_ok_def)
    ultimately show thesis using that s(1,8,9) Cons False by simp
  qed
qed

lemma return_act:
  assumes "conc_ok (sys, calls)" "s < 16"
  obtains calls' h where "act env ts (Return s) (sys, calls) = Some ((sys, calls'), h)" "step_ok blk (sys, calls) h (sys, calls')"
    "\<And>u r. calls ! u = Some r \<Longrightarrow> u \<in> set (slots sys) \<Longrightarrow> calls' ! u = Some r"
proof (cases "\<exists>r. calls ! s = Some r \<and> \<not> 0 < sys_inflight sys ! s")
  case True
  then obtain r where r: "calls ! s = Some r" "\<not> 0 < sys_inflight sys ! s" by blast
  have sh: "shaped sys" and pl: "placed calls sys" using assms(1) by (simp_all add: conc_ok_def)
  have l: "s < length calls" and sr: "slot_of r = s" using pl assms(2) r(1) by (simp_all add: placed_def)
  have out: "s \<notin> set (slots sys)" using placed_slot [OF pl sh] r(2) by blast
  have "if clearing t then 4 \<le> j else task_placed (calls[s := None]) sys j t" if j: "j < 8" "t \<in> set (queues sys ! j)" for j t
  proof (cases "clearing t")
    case True
    then show ?thesis using pl j by (auto simp: placed_def split: if_splits)
  next
    case False
    have "task_inflight t \<noteq> s" using in_slots [OF sh j False] out by blast
    then show ?thesis using placed_task [OF pl j False] False by (simp add: task_placed_def)
  qed
  moreover have "slot_of r' = u \<and> (u \<notin> set (slots sys) \<longrightarrow> sys_inflight sys ! u = 0)" if "u < 16" "calls[s := None] ! u = Some r'" for u r'
    using that pl l by (cases "u = s") (simp_all add: placed_def)
  ultimately have "placed (calls[s := None]) sys" using pl by (simp add: placed_def)
  then have "conc_ok (sys, calls[s := None])" using assms(1) by (simp add: conc_ok_def)
  moreover have "phases (sys, calls[s := None]) = (phases (sys, calls))(s := Idle)"
    using l assms(2) by (auto simp: phases_def fun_eq_iff nth_list_update split: option.split)
  moreover have "phases (sys, calls) s = Finished r" using r(1) out assms(2) by (simp add: phases_def)
  ultimately have "step_ok blk (sys, calls) [Returned r] (sys, calls[s := None])" by (simp add: step_ok_def sr)
  moreover have "act env ts (Return s) (sys, calls) = Some ((sys, calls[s := None]), [Returned r])" using r by simp
  moreover have "calls[s := None] ! u = Some r'" if "calls ! u = Some r'" "u \<in> set (slots sys)" for u r'
    using that out by (cases "u = s") simp_all
  ultimately show thesis using that by blast
next
  case False
  then have "act env ts (Return s) (sys, calls) = Some ((sys, calls), [])" by (auto split: option.split)
  moreover have "step_ok blk (sys, calls) [] (sys, calls)" using assms(1) by (simp add: step_ok_def)
  ultimately show thesis using that by blast
qed

text \<open>A call that is one step: its caller has no task in a queue, so its counter is nobody's.\<close>

lemma sync_step:
  assumes ok: "conc_ok (sys, calls)" and free: "calls ! s = None"
    and sys': "sys' = sys\<lparr>sys_ssd := ssd, sys_inflight := (sys_inflight sys)[s := c], sys_out := out, sys_read_ptrs := ps\<rparr>" "length out = length (sys_out sys)"
  shows "conc_ok (sys', calls)" "phases (sys', calls) = phases (sys, calls)" "phases (sys, calls) s = Idle" "queues sys' = queues sys"
proof -
  have sh: "shaped sys" and pl: "placed calls sys" using ok by (simp_all add: conc_ok_def)
  show q: "queues sys' = queues sys" by (simp add: sys' queues_def)
  then have sl: "slots sys' = slots sys" by (simp add: slots_def)
  have out: "s \<notin> set (slots sys)" using placed_slot [OF pl sh] free by (metis option.distinct(1))
  have "if clearing t then 4 \<le> j else task_placed calls sys' j t" if j: "j < 8" "t \<in> set (queues sys ! j)" for j t
  proof (cases "clearing t")
    case True
    then show ?thesis using pl j by (auto simp: placed_def split: if_splits)
  next
    case False
    have "task_inflight t \<noteq> s" using in_slots [OF sh j False] out by metis
    then show ?thesis using placed_task [OF pl j False] False by (simp add: task_placed_def sys')
  qed
  moreover have "sys_inflight sys' ! u = sys_inflight sys ! u" if "calls ! u = Some r" for u r
    using that free by (cases "u = s") (simp_all add: sys')
  ultimately have "placed calls sys'" using pl by (auto simp: placed_def q sl)
  moreover have "shaped sys'" using sh by (simp add: shaped_def sys')
  moreover have "store_ok sys'" using ok by (simp add: conc_ok_def store_ok_def seg_inv_def sys')
  ultimately show "conc_ok (sys', calls)" using ok by (simp add: conc_ok_def q)
  show "phases (sys', calls) = phases (sys, calls)" by (simp add: phases_def sl cong: if_cong option.case_cong)
  show "phases (sys, calls) s = Idle" using free by (simp add: phases_def)
qed

text \<open>A read of the SSD fills the memory of its caller; a write of several blocks changes the SSD.\<close>

lemma fetch_act:
  assumes pf: "platform env blk cap ts" and ok: "conc_ok (sys, calls)" and good: "allowed cap sys (ReadSsd s k n)"
  obtains sys' h where "act env ts (ReadSsd s k n) (sys, calls) = Some ((sys', calls), h)" "step_ok blk (sys, calls) h (sys', calls)"
    "sys_seq sys' = sys_seq sys" "queues sys' = queues sys"
proof (cases "calls ! s")
  case None
  have dev: "ssd_device env blk cap" using pf by (simp add: platform_def)
  have g: "s < 16" "k + n \<le> cap" "k + n < 2 ^ 63" "n < 2 ^ 31" "mix_buffer_migrating (sys_meta sys) = Some False" using good by simp_all
  have l: "s < length (sys_inflight sys)" "s < length (sys_out sys)" using ok g(1) by (simp_all add: conc_ok_def shaped_def)
  define bytes where "bytes = concat (map (\<lambda>j. blk (sys_ssd sys) (of_nat (k + j))) [0..<n])"
  define sys' where "sys' = sys\<lparr>sys_inflight := (sys_inflight sys)[s := int n], sys_out := (sys_out sys)[s := bytes],
    sys_read_ptrs := (sys_read_ptrs sys)[s := (True, True)]\<rparr>"
  have "mixdk_read env ts [] t (of_nat n) (of_nat (k + 1928765)) 0 s sys = Some (sys', of_nat n)" for t
    unfolding sys'_def bytes_def by (rule ssd_read_completes [OF dev g(5) l no_flags g(2-4)])
  then have "ssd_read_call env (of_nat n) (of_nat (k + 1928765)) 0 s sys = Some sys'"
    unfolding read_fetches [OF ssd_range(1) [OF g(3)] no_flags] by (auto simp: map_option_eq_Some)
  then have run: "act env ts (ReadSsd s k n) (sys, calls) = Some ((sys', calls), [Fetched s k n])" using None by simp
  have "sys' = sys\<lparr>sys_ssd := sys_ssd sys, sys_inflight := (sys_inflight sys)[s := int n], sys_out := (sys_out sys)[s := bytes],
    sys_read_ptrs := (sys_read_ptrs sys)[s := (True, True)]\<rparr>"
    by (simp add: sys'_def)
  note step = sync_step [OF ok None this, simplified]
  have "bytes = concat (map (disk_ssd (disk_of blk sys)) [k..<k + n])"
    unfolding bytes_def using g(3) by (intro arg_cong [of _ _ concat] nth_equalityI) (simp_all add: disk_of_def)
  then have "disk_of blk sys' = effect (Fetched s k n) (disk_of blk sys)"
    by (simp add: disk_of_def sys'_def cong: if_cong)
  then have "step_ok blk (sys, calls) [Fetched s k n] (sys', calls)" using step by (simp add: step_ok_def) (simp add: sys'_def)
  then show thesis using that [OF run] step(4) by (simp add: sys'_def)
next
  case (Some r)
  then have "act env ts (ReadSsd s k n) (sys, calls) = Some ((sys, calls), [])" by simp
  moreover have "step_ok blk (sys, calls) [] (sys, calls)" using ok by (simp add: step_ok_def)
  ultimately show thesis using that by blast
qed

lemma store_act:
  assumes pf: "platform env blk cap ts" and ok: "conc_ok (sys, calls)" and good: "allowed cap sys (WriteSsd s k n d)"
  obtains sys' h where "act env ts (WriteSsd s k n d) (sys, calls) = Some ((sys', calls), h)" "step_ok blk (sys, calls) h (sys', calls)"
    "sys_seq sys' = sys_seq sys" "queues sys' = queues sys"
proof (cases "calls ! s")
  case None
  have dev: "ssd_device env blk cap" using pf by (simp add: platform_def)
  have g: "s < 16" "k + n \<le> cap" "k + n < 2 ^ 63" "n < 2 ^ 31" "n * 4096 \<le> length d" "mix_buffer_migrating (sys_meta sys) = Some False"
    using good by simp_all
  have l: "s < length (sys_inflight sys)" using ok g(1) by (simp add: conc_ok_def shaped_def)
  obtain ssd where ssd: "env_ssd_write env (sys_ssd sys) d (of_nat n) (of_nat k) ((0 OR MIX_WRITE) OR MIX_CLEAR) = Some ssd"
    "\<forall>b < 2 ^ 64. blk ssd (of_nat b) = (if k \<le> b \<and> b < k + n then chunk 4096 d (b - k) else blk (sys_ssd sys) (of_nat b))"
    using dev g(2,5) unfolding ssd_device_def by meson
  define sys' where "sys' = sys\<lparr>sys_ssd := ssd, sys_inflight := (sys_inflight sys)[s := int n],
    sys_read_ptrs := (sys_read_ptrs sys)[s := (False, False)]\<rparr>"
  have "ssd_store_call env d (of_nat n) (of_nat (k + 1928765)) 0 s sys = Some sys'"
    using ssd(1) ssd_range(2) [OF g(3)] l g(6) plain_opcode [OF no_flags, of MIX_WRITE] small_words(2) [OF g(4)]
    by (cases sys) (simp add: ssd_store_call_def init_io_task_def mix_post_task_to_ssd_def sys'_def Let_def)
  then have run: "act env ts (WriteSsd s k n d) (sys, calls) = Some ((sys', calls), [Stored s k n d])" using None by simp
  have "sys' = sys\<lparr>sys_ssd := ssd, sys_inflight := (sys_inflight sys)[s := int n], sys_out := sys_out sys,
    sys_read_ptrs := (sys_read_ptrs sys)[s := (False, False)]\<rparr>"
    by (simp add: sys'_def)
  note step = sync_step [OF ok None this refl]
  have "disk_ssd (disk_of blk sys') = put_blocks k n d (disk_ssd (disk_of blk sys))"
    using ssd(2) g(3) by (auto simp: fun_eq_iff disk_of_def sys'_def put_blocks_def)
  then have "disk_of blk sys' = effect (Stored s k n d) (disk_of blk sys)"
    by (simp add: disk_of_def sys'_def cong: if_cong)
  then have "step_ok blk (sys, calls) [Stored s k n d] (sys', calls)" using step by (simp add: step_ok_def) (simp add: sys'_def)
  then show thesis using that [OF run] step(4) by (simp add: sys'_def)
next
  case (Some r)
  then have "act env ts (WriteSsd s k n d) (sys, calls) = Some ((sys, calls), [])" by simp
  moreover have "step_ok blk (sys, calls) [] (sys, calls)" using ok by (simp add: step_ok_def)
  ultimately show thesis using that by blast
qed

text \<open>A clearing subtask is posted, if its queue has room.\<close>

lemma clear_act:
  assumes ok: "conc_ok (sys, calls)" and good: "w < 4" "clearing t"
  obtains sys' where "act env ts (PostClear w t) (sys, calls) = Some ((sys', calls), [])" "step_ok blk (sys, calls) [] (sys', calls)"
    "sys_seq sys' = sys_seq sys" "\<And>j. \<exists>ts. queues sys' ! j = queues sys ! j @ ts"
proof -
  have sh: "shaped sys" and pl: "placed calls sys" using ok by (simp_all add: conc_ok_def)
  define sys' where "sys' = sys\<lparr>sys_buffer_queue := fst (put_task (sys_queue_size sys) (sys_buffer_queue sys) w t)\<rparr>"
  have run: "act env ts (PostClear w t) (sys, calls) = Some ((sys', calls), [])" by (simp add: sys'_def)
  have keep: "sys_nvm sys' = sys_nvm sys" "sys_inflight sys' = sys_inflight sys" "sys_meta sys' = sys_meta sys" "sys_ssd sys' = sys_ssd sys"
      "sys_completed sys' = sys_completed sys" "sys_out sys' = sys_out sys" "sys_seq sys' = sys_seq sys"
    by (simp_all add: sys'_def)
  have q: "queues sys' = (queues sys)[4 + w := queues sys ! (4 + w) @ [t]] \<or> queues sys' = queues sys"
    using sh good(1) queues_nth(2) [OF sh] by (auto simp: sys'_def put_task_def queues_def shaped_def list_update_append)
  have q8: "length (queues sys) = 8" "length (queues sys') = 8" using q queues_nth(3) [OF sh] by auto
  have pend: "pending (queues sys' ! j) = pending (queues sys ! j)" if "j < 8" for j
    using q that good q8(1) by (cases "j = 4 + w") auto
  then have "map pending (queues sys') = map pending (queues sys)" using q8 by (intro nth_equalityI) simp_all
  then have slots: "slots sys' = slots sys" unfolding slots_def filter_concat by simp
  have "if clearing u then 4 \<le> j else task_placed calls sys' j u" if j: "j < 8" "u \<in> set (queues sys' ! j)" for j u
  proof (cases "u \<in> set (queues sys ! j)")
    case True
    then show ?thesis using pl j(1) by (auto simp: placed_def task_placed_def keep split: if_splits)
  next
    case False
    then have "u = t \<and> j = 4 + w" using j q q8(1) by (cases "j = 4 + w") auto
    then show ?thesis using good(2) by simp
  qed
  then have "placed calls sys'" using pl by (simp add: placed_def slots keep)
  moreover have "shaped sys'" using sh by (simp add: shaped_def sys'_def put_task_def)
  moreover have "store_ok sys'" using ok by (simp add: conc_ok_def store_ok_def keep)
  ultimately have "conc_ok (sys', calls)" by (simp add: conc_ok_def)
  moreover have "phases (sys', calls) = phases (sys, calls)" by (simp add: phases_def slots cong: if_cong option.case_cong)
  moreover have "disk_of blk sys' = disk_of blk sys" by (rule disk_of_same) (simp_all add: keep)
  ultimately have "step_ok blk (sys, calls) [] (sys', calls)" by (simp add: step_ok_def keep)
  moreover have "\<exists>ts. queues sys' ! j = queues sys ! j @ ts" for j
    using q q8(1) good(1) by (cases "j = 4 + w") auto
  ultimately show thesis using that [OF run] keep(7) by blast
qed

lemma act_step:
  assumes "platform env blk cap ts" "conc_ok st" "allowed cap (fst st) a"
  shows "\<exists>st' h. act env ts a st = Some (st', h) \<and> step_ok blk st h st'"
proof -
  obtain sys calls where st: "st = (sys, calls)" by (cases st)
  show ?thesis
  proof (cases a)
    case (Call r)
    have "conc_ok (sys, calls)" "good_request (nvm_blocks (sys_nvm sys)) r"
      using assms(2,3) by (simp_all add: st Call)
    then obtain sys' calls' h where "act env ts (Call r) (sys, calls) = Some ((sys', calls'), h)" "step_ok blk (sys, calls) h (sys', calls')"
      by (rule call_act)
    then show ?thesis by (auto simp: st Call)
  next
    case (Poll w)
    have "conc_ok (sys, calls)" "w < 4" using assms(2,3) by (simp_all add: st Poll)
    from poll_act [OF assms(1) this] obtain sys' h where
      "act env ts (Poll w) (sys, calls) = Some ((sys', calls), h)" "step_ok blk (sys, calls) h (sys', calls)" by metis
    then show ?thesis by (auto simp: st Poll)
  next
    case (Return s)
    have "conc_ok (sys, calls)" "s < 16" using assms(2,3) by (simp_all add: st Return)
    then obtain calls' h where "act env ts (Return s) (sys, calls) = Some ((sys, calls'), h)" "step_ok blk (sys, calls) h (sys, calls')"
      by (rule return_act)
    then show ?thesis by (auto simp: st Return)
  next
    case (ReadSsd s k n)
    have "conc_ok (sys, calls)" "allowed cap sys (ReadSsd s k n)" using assms(2,3) by (simp_all add: st ReadSsd)
    then obtain sys' h where "act env ts (ReadSsd s k n) (sys, calls) = Some ((sys', calls), h)" "step_ok blk (sys, calls) h (sys', calls)"
      by (rule fetch_act [OF assms(1)])
    then show ?thesis by (auto simp: st ReadSsd)
  next
    case (WriteSsd s k n d)
    have "conc_ok (sys, calls)" "allowed cap sys (WriteSsd s k n d)" using assms(2,3) by (simp_all add: st WriteSsd)
    then obtain sys' h where "act env ts (WriteSsd s k n d) (sys, calls) = Some ((sys', calls), h)" "step_ok blk (sys, calls) h (sys', calls)"
      by (rule store_act [OF assms(1)])
    then show ?thesis by (auto simp: st WriteSsd)
  next
    case (PostClear w t)
    have "conc_ok (sys, calls)" "w < 4" "clearing t" using assms(2,3) by (simp_all add: st PostClear)
    then obtain sys' where "act env ts (PostClear w t) (sys, calls) = Some ((sys', calls), [])" "step_ok blk (sys, calls) [] (sys', calls)"
      by (rule clear_act)
    then show ?thesis by (auto simp: st PostClear)
  qed
qed

lemma run_step:
  assumes "platform env blk cap ts"
  shows "conc_ok st \<Longrightarrow> \<forall>a \<in> set as. allowed cap (fst st) a \<Longrightarrow>
    \<exists>st' h. run_actions env ts as st = Some (st', h) \<and> step_ok blk st h st'"
proof (induction as arbitrary: st)
  case Nil
  then show ?case by (simp add: step_ok_def)
next
  case (Cons a as)
  obtain st1 h1 where 1: "act env ts a st = Some (st1, h1)" "step_ok blk st h1 st1"
    using act_step [OF assms, of st a] Cons.prems by auto
  moreover obtain st2 h2 where "run_actions env ts as st1 = Some (st2, h2)" "step_ok blk st1 h2 st2"
    using Cons.IH [of st1] Cons.prems(2) 1(2) by (auto simp: step_ok_def)
  ultimately show ?case using step_ok_trans [OF 1(2)] by auto
qed

section \<open>Waiting\<close>

lemma turn_bump:
  assumes "shaped sys" "v < 4" "w < 4" "sys_seq sys' = bump_seq v (sys_seq sys)"
  shows "turn w sys' = (if v = w then (if turn w sys = w then 4 + w else w) else turn w sys)"
  using assms bump_parity [of v "sys_seq sys" w] by (auto simp: turn_def shaped_def)

text \<open>A request with \<open>us\<close> before it in its queue is served within \<open>2 * length us + 2\<close> polls of its worker,
  whatever the other callers and workers do in the meantime.\<close>

lemma waiting_served:
  assumes pf: "platform env blk cap ts" and w: "w < 4" "j mod 4 = w" "j < 8"
  shows "conc_ok (sys, calls) \<Longrightarrow> \<forall>a \<in> set as. allowed cap sys a \<Longrightarrow>
    queues sys ! j = us @ t # vs \<Longrightarrow> \<not> clearing t \<Longrightarrow> calls ! task_inflight t = Some r \<Longrightarrow>
    2 * length us + (if turn w sys = j then 1 else 2) \<le> count_list as (Poll w) \<Longrightarrow>
    \<exists>st' h. run_actions env ts as (sys, calls) = Some (st', h) \<and> Served r \<in> set h"
proof (induction as arbitrary: sys calls us vs)
  case Nil
  then show ?case by (simp split: if_splits)
next
  case (Cons a as)
  note prems = Cons.prems
  note ok = Cons.prems(1)
  have sh: "shaped sys" and pl: "placed calls sys" using Cons.prems(1) by (simp_all add: conc_ok_def)
  have slot: "task_inflight t \<in> set (slots sys)"
    using in_slots [OF sh w(3) _ Cons.prems(4)] Cons.prems(3) by simp
  have go: ?case if "act env ts a (sys, calls) = Some ((sys1, calls1), h1)" "step_ok blk (sys, calls) h1 (sys1, calls1)"
      "queues sys1 ! j = us1 @ t # vs1" "calls1 ! task_inflight t = Some r"
      "2 * length us1 + (if turn w sys1 = j then 1 else 2) \<le> count_list as (Poll w)" for sys1 calls1 h1 us1 vs1
    using Cons.IH [OF _ _ that(3) Cons.prems(4) that(4,5)] that(1,2) Cons.prems(2) by (auto simp: step_ok_def)
  show ?case
  proof (cases a)
    case (Call r')
    have "conc_ok (sys, calls)" "good_request (nvm_blocks (sys_nvm sys)) r'"
      using ok Cons.prems(2) by (simp_all add: Call)
    then obtain sys1 calls1 h1 where c: "act env ts (Call r') (sys, calls) = Some ((sys1, calls1), h1)"
        "step_ok blk (sys, calls) h1 (sys1, calls1)"
        "sys_seq sys1 = sys_seq sys" "\<And>j. \<exists>ts. queues sys1 ! j = queues sys ! j @ ts" "\<And>s r'. calls ! s = Some r' \<Longrightarrow> calls1 ! s = Some r'"
      by (rule call_act [where env = env and ts = ts and blk = blk]) blast
    obtain vs1 where "queues sys1 ! j = us @ t # vs1" using c(4) [of j] Cons.prems(3) by auto
    moreover have "turn w sys1 = turn w sys" by (simp add: turn_def c(3))
    ultimately show ?thesis using go [OF _ c(2), of us vs1] c(1,5) Cons.prems(5,6) by (simp add: Call)
  next
    case (Return s)
    have "conc_ok (sys, calls)" "s < 16" using ok Cons.prems(2) by (simp_all add: Return)
    then obtain calls1 h1 where c: "act env ts (Return s) (sys, calls) = Some ((sys, calls1), h1)"
        "step_ok blk (sys, calls) h1 (sys, calls1)"
        "\<And>u r. calls ! u = Some r \<Longrightarrow> u \<in> set (slots sys) \<Longrightarrow> calls1 ! u = Some r"
      by (rule return_act [where env = env and ts = ts and blk = blk]) blast
    show ?thesis using go [OF _ c(2) Cons.prems(3)] c(1) c(3) [OF Cons.prems(5) slot] Cons.prems(6) by (simp add: Return)
  next
    case (ReadSsd s k n)
    have rd: "conc_ok (sys, calls)" "allowed cap sys (ReadSsd s k n)"
      using ok Cons.prems(2) by (simp_all add: ReadSsd)
    obtain sys1 h1 where c: "act env ts (ReadSsd s k n) (sys, calls) = Some ((sys1, calls), h1)"
        "step_ok blk (sys, calls) h1 (sys1, calls)" "sys_seq sys1 = sys_seq sys" "queues sys1 = queues sys"
      by (rule fetch_act [OF pf rd]) blast
    moreover have "turn w sys1 = turn w sys" by (simp add: turn_def c(3))
    ultimately show ?thesis using go [OF _ c(2), of us vs] Cons.prems(3,5,6) by (simp add: ReadSsd)
  next
    case (WriteSsd s k n d)
    have wr: "conc_ok (sys, calls)" "allowed cap sys (WriteSsd s k n d)"
      using ok Cons.prems(2) by (simp_all add: WriteSsd)
    obtain sys1 h1 where c: "act env ts (WriteSsd s k n d) (sys, calls) = Some ((sys1, calls), h1)"
        "step_ok blk (sys, calls) h1 (sys1, calls)" "sys_seq sys1 = sys_seq sys" "queues sys1 = queues sys"
      by (rule store_act [OF pf wr]) blast
    moreover have "turn w sys1 = turn w sys" by (simp add: turn_def c(3))
    ultimately show ?thesis using go [OF _ c(2), of us vs] Cons.prems(3,5,6) by (simp add: WriteSsd)
  next
    case (PostClear v u)
    have pc: "conc_ok (sys, calls)" "v < 4" "clearing u"
      using ok Cons.prems(2) by (simp_all add: PostClear)
    obtain sys1 where c: "act env ts (PostClear v u) (sys, calls) = Some ((sys1, calls), [])"
        "step_ok blk (sys, calls) [] (sys1, calls)" "sys_seq sys1 = sys_seq sys"
        "\<And>j. \<exists>ts. queues sys1 ! j = queues sys ! j @ ts"
      by (rule clear_act [OF pc, where env = env and ts = ts and blk = blk]) blast
    obtain vs1 where "queues sys1 ! j = us @ t # vs1" using c(4) [of j] Cons.prems(3) by auto
    moreover have "turn w sys1 = turn w sys" by (simp add: turn_def c(3))
    ultimately show ?thesis using go [OF _ c(2), of us vs1] c(1) Cons.prems(5,6) by (simp add: PostClear)
  next
    case (Poll v)
    have v: "conc_ok (sys, calls)" "v < 4" using ok Cons.prems(2) by (simp_all add: Poll)
    obtain sys1 h1 where c: "act env ts (Poll v) (sys, calls) = Some ((sys1, calls), h1)"
      "step_ok blk (sys, calls) h1 (sys1, calls)"
      "sys_seq sys1 = bump_seq v (sys_seq sys)" "queues sys1 = (queues sys)[turn v sys := tl (queues sys ! turn v sys)]"
      "\<And>t q. queues sys ! turn v sys = t # q \<Longrightarrow> \<not> clearing t \<Longrightarrow> \<exists>r. calls ! task_inflight t = Some r \<and> h1 = [Served r]"
      by (rule poll_act [OF pf v]) blast
    note tb = turn_bump [OF sh v(2) w(1) c(3)]
    have jw: "j = w \<or> j = 4 + w" and turns: "turn w sys = w \<or> turn w sys = 4 + w" using w by presburger (simp add: turn_def)
    have tm: "turn v sys mod 4 = v" using v(2) by (simp add: turn_def)
    show ?thesis
    proof (cases "turn v sys = j")
      case False
      then have "queues sys1 ! j = us @ t # vs" using Cons.prems(3) by (simp add: c(4))
      moreover have "v = w \<Longrightarrow> turn w sys1 = j" using tb False jw turns by auto
      then have "2 * length us + (if turn w sys1 = j then 1 else 2) \<le> count_list as (Poll w)"
        using Cons.prems(6) False tb by (cases "v = w") (simp_all add: Poll)
      ultimately show ?thesis using go [OF _ c(2)] c(1) Cons.prems(5) by (simp add: Poll)
    next
      case True
      then have vw: "v = w" using tm w(2) by simp
      have q1: "queues sys1 ! j = tl (us @ t # vs)" using Cons.prems(3) w(3) queues_nth(3) [OF sh] by (simp add: c(4) True)
      show ?thesis
      proof (cases us)
        case Nil
        have "conc_ok (sys1, calls)" "\<forall>a \<in> set as. allowed cap sys1 a"
          using c(2) Cons.prems(2) by (simp_all add: step_ok_def)
        from run_step [OF pf this(1)] this(2) obtain st' h where "run_actions env ts as (sys1, calls) = Some (st', h)" by fastforce
        moreover have "h1 = [Served r]" using c(5) Cons.prems(3-5) by (simp add: True Nil)
        ultimately show ?thesis using c(1) by (simp add: Poll)
      next
        case (Cons u us')
        have "turn w sys1 \<noteq> j" using tb True vw by auto
        moreover have "queues sys1 ! j = us' @ t # vs" using q1 Cons by simp
        moreover have "2 * length us' + 2 \<le> count_list as (Poll w)" using prems(6) Cons by (simp add: Poll vw split: if_splits)
        ultimately show ?thesis using go [OF _ c(2)] c(1) prems(5) by (simp add: Poll)
      qed
    qed
  qed
qed

section \<open>Properties\<close>

text \<open>The system before the calls: idle, with its store in order.\<close>

definition ready :: "nat \<Rightarrow> action list \<Rightarrow> 's system \<Rightarrow> bool" where
  "ready cap acts sys \<longleftrightarrow> idle sys \<and> 16 \<le> sys_queue_size sys \<and> length (sys_inflight sys) = 16 \<and> length (sys_out sys) = 16 \<and>
     store_ok sys \<and>
     (\<forall>a \<in> set acts. allowed cap sys a)"

lemma ready_start:
  assumes "ready cap acts sys"
  shows "conc_ok (sys, replicate 16 None)" "phases (sys, replicate 16 None) = (\<lambda>_. Idle)"
proof -
  have q: "queues sys = replicate 8 []" using assms by (simp add: ready_def idle_def queues_def flip: replicate_add)
  then have "slots sys = []" by (simp add: slots_def)
  moreover have "shaped sys" using assms by (simp add: ready_def idle_def shaped_def)
  moreover have "store_ok sys" using assms by (simp add: ready_def)
  ultimately show "conc_ok (sys, replicate 16 None)" by (auto simp: conc_ok_def placed_def q)
  show "phases (sys, replicate 16 None) = (\<lambda>_. Idle)" by (auto simp: phases_def fun_eq_iff)
qed

lemma count_replicate: "count_list (replicate n a) a = n"
  by (induction n) simp_all

lemma fresh_store_ok:
  assumes "\<And>i. i < 4 \<Longrightarrow> seg_inv i 0 (sys_store sys)"
  shows "store_ok sys"
proof -
  have "hash_stack (seg_hash (sys_meta sys) i) k = []" if "i < 4" for i k
    using filled_0_none assms [OF that] by (simp add: seg_inv_def)
  then show ?thesis using assms unfolding store_ok_def by blast
qed

lemma run_prefix:
  assumes "platform env blk cap ts" "ready cap (as @ bs) sys" "run_actions env ts as (sys, replicate 16 None) = Some (st, h)"
  shows "conc_ok st" "allowed cap (fst st) = allowed cap sys"
  using run_step [OF assms(1) ready_start(1) [OF assms(2)], of as] assms(2,3) by (auto simp: ready_def step_ok_def)

lemma run_is_atomic:
  assumes "platform env blk cap ts" "ready cap acts sys"
  shows "\<exists>sys' calls hist ph. run_actions env ts acts (sys, replicate 16 None) = Some ((sys', calls), hist) \<and>
    legal hist (\<lambda>_. Idle) = Some ph \<and> disk_of blk sys' = fold effect hist (disk_of blk sys)"
  using run_step [OF assms(1) ready_start(1) [OF assms(2)], of acts] assms(2) ready_start(2) [OF assms(2)]
  by (fastforce simp: ready_def step_ok_def)

text \<open>C1. Calls of several threads are atomic: in every interleaving of their calls and returns with the
  polls of the workers, and with the migrations these lead to, nothing fails, every request takes effect
  exactly once, between its call and its return, and what the NVM area, the write buffer and its index, the
  SSD and the memory of the callers hold at the end is what the requests give when they are executed one
  after the other on the disk of the specification, in the order in which they took effect. Behind the
  threshold writes of one block change only the buffer, until one finds its part full and empties it into
  the SSD, larger writes change only the SSD, and reads show the SSD.\<close>

theorem concurrent_calls_are_atomic:
  assumes "platform env blk cap ts" "ready cap acts sys"
  shows "\<exists>sys' calls hist ph. run_actions env ts acts (sys, replicate 16 None) = Some ((sys', calls), hist) \<and>
    legal hist (\<lambda>_. Idle) = Some ph \<and> disk_of blk sys' = fold effect hist (disk_of blk sys)"
  by (rule run_is_atomic [OF assms])

text \<open>Writers and readers on the system after its start; then one caller writes 600 blocks of part 1, which has
  room for 512.\<close>

definition sample_actions :: "action list" where
  "sample_actions = [Call (NvmWrite 0 8 1 (replicate 4096 7)), Call (NvmRead 3 8 1), Poll 0, Call (BufferWrite 5 9 (replicate 4096 1)),
     Poll 0, WriteSsd 6 8 2 (replicate 8192 3), ReadSsd 7 8 3, Return 0, Poll 1, Poll 0, Return 3, Return 5] @
     concat (map (\<lambda>j. [Call (BufferWrite 8 (4 * j + 1) (replicate 4096 1)), Poll 1, Poll 1, Return 8]) [0..<600])"

lemma ram_ready:
  assumes "\<forall>a \<in> set acts. good_action (3 * 1024 * 1024) 1000 True a"
  obtains sys where "mixdk_init ram_env (ram_boot ssd) 1 = Some (0, Some sys)" "ready 1000 acts sys" "platform ram_env id 1000 [0..<8]"
proof -
  obtain sys where s: "mixdk_init ram_env (ram_boot ssd) 1 = Some (0, Some sys)" "idle sys" "sys_queue_size sys = 4096" "sys_ssd sys = ssd"
    "\<And>i. i < 4 \<Longrightarrow> seg_inv i 0 (sys_store sys) \<and> ssd_open (sys_meta sys) i \<and> (\<forall>k. hash_stack (seg_hash (sys_meta sys) i) k = [])"
    "layout_ok (sys_nvm sys)" "nvm_blocks (sys_nvm sys) = 3 * 1024 * 1024" "unat (md_per_block_num (sys_meta sys)) = 512"
    "length (sys_inflight sys) = 16" "length (sys_out sys) = 16"
    by (rule ram_system [of ssd]) blast
  have "store_ok sys" by (rule fresh_store_ok) (use s(5) in blast)
  moreover have "mix_buffer_migrating (sys_meta sys) = Some False" using s(5) [of 0] ssd_open_migrating [of "sys_meta sys" 0] by simp
  ultimately have "ready 1000 acts sys" using s assms by (simp add: ready_def)
  moreover have "platform ram_env id 1000 [0..<8]" by (rule ram_platform) simp
  ultimately show thesis using that s(1) by blast
qed

lemma sample_ready: "\<forall>a \<in> set sample_actions. good_action (3 * 1024 * 1024) 1000 True a"
  by (auto simp: sample_actions_def)

theorem concurrent_calls_are_atomic_witness:
  "\<exists>sys sys' calls hist ph. mixdk_init ram_env (ram_boot (\<lambda>_. [])) 1 = Some (0, Some sys) \<and>
     run_actions ram_env [0..<8] sample_actions (sys, replicate 16 None) = Some ((sys', calls), hist) \<and>
     legal hist (\<lambda>_. Idle) = Some ph \<and> disk_of id sys' = fold effect hist (disk_of id sys)"
proof -
  obtain sys where s: "mixdk_init ram_env (ram_boot (\<lambda>_. [])) 1 = Some (0, Some sys)" "ready 1000 sample_actions sys"
      "platform ram_env id 1000 [0..<8]"
    by (rule ram_ready [OF sample_ready])
  show ?thesis using s(1) concurrent_calls_are_atomic [OF s(3,2)] by blast
qed

lemma queue_split: "length q = length (pending q) + length (filter clearing q)"
  using sum_length_filter_compl [of clearing q] by simp

lemma call_served:
  assumes pf: "platform env blk cap ts"
    and ok: "conc_ok (sys, calls)"
    and good: "\<forall>a \<in> set (Call r # as). allowed cap sys a" and free: "calls ! slot_of r = None" "\<not> spins (home r) sys"
    and polls: "2 * (16 + length (filter clearing (queues sys ! home r))) \<le> count_list as (Poll (home r mod 4))"
  shows "\<exists>st h. run_actions env ts (Call r # as) (sys, calls) = Some (st, Invoked r # h) \<and> Served r \<in> set h"
proof -
  have cr: "conc_ok (sys, calls)" "good_request (nvm_blocks (sys_nvm sys)) r"
    using ok good by simp_all
  obtain sys1 calls1 h1 where c: "act env ts (Call r) (sys, calls) = Some ((sys1, calls1), h1)"
      "step_ok blk (sys, calls) h1 (sys1, calls1)"
      "calls1 ! slot_of r = Some r \<and> h1 = [Invoked r] \<and>
       (\<exists>t. queues sys1 ! home r = queues sys ! home r @ [t] \<and> task_inflight t = slot_of r \<and> \<not> clearing t)"
    by (rule call_act [OF cr, where env = env and ts = ts and blk = blk]) (use free in blast)
  then obtain t where t: "queues sys1 ! home r = queues sys ! home r @ [t]" "task_inflight t = slot_of r" "\<not> clearing t" by blast
  have sh: "shaped sys" and pl: "placed calls sys" using ok by (simp_all add: conc_ok_def)
  have new: "slot_of r \<notin> set (slots sys)" using placed_slot [OF pl sh] free(1) by (metis option.distinct(1))
  have w: "home r mod 4 < 4" "home r mod 4 = home r mod 4" "home r < 8" using home_less by simp_all
  have ok1: "conc_ok (sys1, calls1)" "\<forall>a \<in> set as. allowed cap sys1 a"
    using c(2) good by (simp_all add: step_ok_def)
  have "2 * length (queues sys ! home r) + 2 \<le> count_list as (Poll (home r mod 4))"
    using slots_bound [OF pl sh w(3) good_slot(1) [OF cr(2)] new] queue_split [of "queues sys ! home r"] polls by simp
  then have n: "2 * length (queues sys ! home r) + (if turn (home r mod 4) sys1 = home r then 1 else 2) \<le> count_list as (Poll (home r mod 4))"
    by simp
  have "calls1 ! task_inflight t = Some r" using c(3) t(2) by simp
  from waiting_served [OF pf w ok1 t(1,3) this n] show ?thesis using c(1,3) by auto
qed

text \<open>C4. No caller starves: a call that finds room in its queue is served before its worker has polled 32
  times, and twice more for every clearing subtask that was in the queue, whatever the fifteen other callers
  ask for in the meantime, since the two queues of a worker take turns and each holds at most one task of
  every caller besides the subtasks.\<close>

theorem no_caller_starves:
  assumes "platform env blk cap ts" "ready cap (as @ Call r # bs) sys"
    "run_actions env ts as (sys, replicate 16 None) = Some ((sys1, calls1), h1)" "calls1 ! slot_of r = None"
    "\<not> spins (home r) sys1" "2 * (16 + length (filter clearing (queues sys1 ! home r))) \<le> count_list bs (Poll (home r mod 4))"
  shows "\<exists>st h. run_actions env ts (Call r # bs) (sys1, calls1) = Some (st, Invoked r # h) \<and> Served r \<in> set h"
proof -
  note p = run_prefix [OF assms(1-3)]
  have "\<forall>a \<in> set (Call r # bs). allowed cap sys1 a" using assms(2) p(2) by (simp add: ready_def)
  with p(1) show ?thesis by (intro call_served [OF assms(1) _ _ assms(4-6)])
qed

text \<open>A write of one block behind a subtask.\<close>

definition sample_clear :: io_task where
  "sample_clear = (small_write 6 [])\<lparr>task_type := SSD_TASK, task_opcode := MIX_WRITE OR MIX_CLEAR\<rparr>"

lemma sample_clear_clearing: "clearing sample_clear"
  by (simp add: sample_clear_def clearing_def MIX_READ_def MIX_WRITE_def MIX_CLEAR_def)

theorem no_caller_starves_witness:
  "\<exists>sys sys1 st h. mixdk_init ram_env (ram_boot (\<lambda>_. [])) 1 = Some (0, Some sys) \<and>
     run_actions ram_env [0..<8] [PostClear 2 sample_clear] (sys, replicate 16 None) = Some ((sys1, replicate 16 None), []) \<and>
     queues sys1 ! 6 = [sample_clear] \<and>
     run_actions ram_env [0..<8] (Call (BufferWrite 5 6 (replicate 4096 1)) # replicate 34 (Poll 2)) (sys1, replicate 16 None) =
       Some (st, Invoked (BufferWrite 5 6 (replicate 4096 1)) # h) \<and> Served (BufferWrite 5 6 (replicate 4096 1)) \<in> set h"
proof -
  let ?r = "BufferWrite 5 6 (replicate 4096 1)"
  let ?acts = "[PostClear 2 sample_clear] @ Call ?r # replicate 34 (Poll 2)"
  have "\<forall>a \<in> set ?acts. good_action (3 * 1024 * 1024) 1000 True a" by (simp add: sample_clear_clearing)
  then obtain sys where s: "mixdk_init ram_env (ram_boot (\<lambda>_. [])) 1 = Some (0, Some sys)" "ready 1000 ?acts sys"
      "platform ram_env id 1000 [0..<8]"
    by (rule ram_ready)
  define sys1 where "sys1 = sys\<lparr>sys_buffer_queue := fst (put_task (sys_queue_size sys) (sys_buffer_queue sys) 2 sample_clear)\<rparr>"
  have run: "run_actions ram_env [0..<8] [PostClear 2 sample_clear] (sys, replicate 16 None) = Some ((sys1, replicate 16 None), [])"
    by (simp add: sys1_def)
  have i: "sys_nvm_queue sys = replicate 4 []" "sys_buffer_queue sys = replicate 4 []" "16 \<le> sys_queue_size sys"
    using s(2) by (simp_all add: ready_def idle_def)
  have q: "queues sys1 ! 6 = [sample_clear]" "sys_buffer_queue sys1 ! 2 = [sample_clear]" "sys_queue_size sys1 = sys_queue_size sys"
    using i by (simp_all add: sys1_def queues_def put_task_def nth_append)
  have "replicate 16 None ! slot_of ?r = None" "\<not> spins (home ?r) sys1" using q i(3) by (simp_all add: spins_def)
  moreover have "2 * (16 + length (filter clearing (queues sys1 ! home ?r))) \<le> count_list (replicate 34 (Poll 2)) (Poll (home ?r mod 4))"
    using q(1) sample_clear_clearing by (simp add: count_replicate)
  ultimately show ?thesis
    using s(1) run q(1) no_caller_starves [OF s(3,2) run] by blast
qed

text \<open>The loop of a caller and the run in which only the workers act.\<close>

lemma wait_ends:
  assumes pf: "platform env blk cap ts" and s: "s < 16"
  shows "conc_ok (sys, calls) \<Longrightarrow> calls ! s = Some r \<Longrightarrow> set ws \<subseteq> {..<4} \<Longrightarrow>
    run_actions env ts (map Poll ws) (sys, calls) = Some (st, h) \<Longrightarrow> Served r \<in> set h \<Longrightarrow>
    \<exists>sys'. mix_wait_for_task_completed env ts ws s sys = Some sys' \<and> sys_inflight sys' ! s \<le> 0"
proof (induction ws arbitrary: sys h)
  case (Cons w ws)
  have sh: "shaped sys" and pl: "placed calls sys" and w: "w < 4" using Cons.prems(1,3) by (simp_all add: conc_ok_def)
  obtain sys1 h1 where c: "act env ts (Poll w) (sys, calls) = Some ((sys1, calls), h1)"
    "step_ok blk (sys, calls) h1 (sys1, calls)"
    "\<And>t q. queues sys ! turn w sys = t # q \<Longrightarrow> \<not> clearing t \<Longrightarrow> \<exists>r. calls ! task_inflight t = Some r \<and> h1 = [Served r]"
    "\<And>t q. queues sys ! turn w sys = t # q \<Longrightarrow> clearing t \<Longrightarrow> h1 = []"
    by (rule poll_act [OF pf Cons.prems(1) w]) blast
  have ok1: "conc_ok (sys1, calls)" and poll: "nvm_worker_poll env ts w sys = Some sys1"
    using c(1,2) by (auto simp: step_ok_def)
  obtain h2 where h: "run_actions env ts (map Poll ws) (sys1, calls) = Some (st, h2)" "h = h1 @ h2"
    using Cons.prems(4) c(1) by (auto split: bind_splits simp del: act.simps)
  show ?case
  proof (cases "0 < sys_inflight sys ! s")
    case True
    show ?thesis
    proof (cases "Served r \<in> set h1")
      case False
      then have "Served r \<in> set h2" using Cons.prems(5) h(2) by simp
      from Cons.IH [OF ok1 Cons.prems(2) _ h(1) this] show ?thesis using Cons.prems(3) True poll by simp
    next
      case served: True
      have sr: "slot_of r = s" using pl s Cons.prems(2) by (simp add: placed_def)
      have "h1 = [Served r]"
        using served c(1,3,4) poll_queue(2) [OF sh w] by (cases "queues sys ! turn w sys") (fastforce simp: poll)+
      then have "phases (sys1, calls) s = Finished r" using c(2) sr by (auto simp: step_ok_def split: if_splits dest: fun_cong [of _ _ s])
      then have "s \<notin> set (slots sys1)" using s Cons.prems(2) by (auto simp: phases_def)
      then have "sys_inflight sys1 ! s = 0" using ok1 s Cons.prems(2) by (simp add: conc_ok_def placed_def)
      then have "mix_wait_for_task_completed env ts ws s sys1 = Some sys1 \<and> sys_inflight sys1 ! s \<le> 0" by (cases ws) simp_all
      then show ?thesis using True poll by simp
    qed
  qed simp
qed simp

lemma count_polls: "count_list (map Poll ws) (Poll w) = count_list ws w"
  by (induction ws) simp_all

lemma queue_bound:
  assumes "placed calls sys" "shaped sys" "j < 8"
  shows "length (queues sys ! j) \<le> 16 + length (filter clearing (queues sys ! j))"
proof -
  have "set (slots sys) \<subseteq> {..<16}" using placed_slot [OF assms(1,2)] by (metis lessThan_iff subsetI)
  then have "card (set (slots sys)) \<le> 16" using card_mono [of "{..<16 :: nat}"] by fastforce
  moreover have "card (set (slots sys)) = length (slots sys)" using assms(1) by (intro distinct_card) (simp add: placed_def)
  ultimately have "length (slots sys) \<le> 16" by simp
  then have "length (concat (map pending (queues sys))) \<le> 16" by (simp add: slots_def filter_concat)
  then have "length (pending (queues sys ! j)) \<le> 16"
    using length_le_concat [of j "map pending (queues sys)"] assms(3) queues_nth(3) [OF assms(2)] by simp
  then show ?thesis using queue_split [of "queues sys ! j"] by simp
qed

text \<open>A caller in its loop has a task in the queue of its request, with at most fifteen others and the
  subtasks before it.\<close>

lemma waiting_position:
  assumes "conc_ok (sys, calls)" "calls ! s = Some r" "s \<in> set (slots sys)"
  obtains us t vs where "queues sys ! home r = us @ t # vs" "\<not> clearing t" "task_inflight t = s"
    "length us < 16 + length (filter clearing (queues sys ! home r))"
proof -
  have sh: "shaped sys" and pl: "placed calls sys" using assms(1) by (simp_all add: conc_ok_def)
  obtain j t where t: "j < 8" "t \<in> set (queues sys ! j)" "\<not> clearing t" "task_inflight t = s" by (rule slots_task [OF sh assms(3)])
  then have "home r = j" using placed_task [OF pl t(1-3)] assms(2) by (auto simp: task_placed_def)
  then obtain us vs where q: "queues sys ! home r = us @ t # vs" using t(2) by (auto simp: in_set_conv_decomp)
  have "length us < length (queues sys ! home r)" using q by simp
  also have "\<dots> \<le> 16 + length (filter clearing (queues sys ! home r))" by (rule queue_bound [OF pl sh home_less])
  finally show thesis using that [OF q t(3,4)] by blast
qed

text \<open>C5. The loop in which a caller waits for its request ends: in every state that a run can reach, with
  any number of other calls in progress, \<open>mix_wait_for_task_completed\<close> returns under every schedule in which
  the worker of the request polls 32 times, and twice more for every clearing subtask in the queue.\<close>

theorem wait_loop_ends:
  assumes "platform env blk cap ts" "ready cap as sys"
    "run_actions env ts as (sys, replicate 16 None) = Some ((sys1, calls1), h1)" "slot < 16" "calls1 ! slot = Some r"
    "set ws \<subseteq> {..<4}" "2 * (16 + length (filter clearing (queues sys1 ! home r))) \<le> count_list ws (home r mod 4)"
  shows "\<exists>sys2. mix_wait_for_task_completed env ts ws slot sys1 = Some sys2 \<and> sys_inflight sys2 ! slot \<le> 0"
proof -
  have ok: "conc_ok (sys1, calls1)" using run_prefix(1) [OF assms(1), of as "[]"] assms(2,3) by simp
  show ?thesis
  proof (cases "slot \<in> set (slots sys1)")
    case True
    obtain us t vs where q: "queues sys1 ! home r = us @ t # vs" "\<not> clearing t" "task_inflight t = slot"
        "length us < 16 + length (filter clearing (queues sys1 ! home r))"
      by (rule waiting_position [OF ok assms(5) True])
    have w: "home r mod 4 < 4" "home r mod 4 = home r mod 4" "home r < 8" using home_less by simp_all
    have "2 * length us + (if turn (home r mod 4) sys1 = home r then 1 else 2) \<le> count_list (map Poll ws) (Poll (home r mod 4))"
      using q(4) assms(7) by (simp add: count_polls)
    moreover have "\<forall>a \<in> set (map Poll ws). allowed cap sys1 a" using assms(6) by auto
    moreover have "calls1 ! task_inflight t = Some r" using q(3) assms(5) by simp
    ultimately obtain st h where "run_actions env ts (map Poll ws) (sys1, calls1) = Some (st, h)" "Served r \<in> set h"
      using waiting_served [OF assms(1) w ok _ q(1,2), of "map Poll ws" r] by blast
    from wait_ends [OF assms(1,4) ok assms(5,6) this] show ?thesis .
  next
    case False
    then have "sys_inflight sys1 ! slot = 0" using ok assms(4,5) by (simp add: conc_ok_def placed_def)
    then show ?thesis by (cases ws) simp_all
  qed
qed

theorem wait_loop_ends_witness:
  "\<exists>sys sys1 calls1 h1 sys2. mixdk_init ram_env (ram_boot (\<lambda>_. [])) 1 = Some (0, Some sys) \<and>
     run_actions ram_env [0..<8] [Call (NvmRead 15 6 2), Call (NvmRead 3 2 1)] (sys, replicate 16 None) = Some ((sys1, calls1), h1) \<and>
     mix_wait_for_task_completed ram_env [0..<8] (replicate 32 2) 3 sys1 = Some sys2 \<and> sys_inflight sys2 ! 3 \<le> 0"
proof -
  let ?acts = "[Call (NvmRead 15 6 2), Call (NvmRead 3 2 1)]"
  have "\<forall>a \<in> set ?acts. good_action (3 * 1024 * 1024) 1000 True a" by simp
  then obtain sys where s: "mixdk_init ram_env (ram_boot (\<lambda>_. [])) 1 = Some (0, Some sys)" "ready 1000 ?acts sys"
      "platform ram_env id 1000 [0..<8]"
    by (rule ram_ready)
  have "conc_ok (sys, replicate 16 None)" by (rule ready_start(1) [OF s(2)])
  then have "conc_ok (sys, replicate 16 None)" "good_request (nvm_blocks (sys_nvm sys)) (NvmRead 15 6 2)"
    using s(2) by (simp_all add: ready_def)
  from this obtain sys1 calls1 h1 where 1: "act ram_env [0..<8] (Call (NvmRead 15 6 2)) (sys, replicate 16 None) = Some ((sys1, calls1), h1)"
    "step_ok id (sys, replicate 16 None) h1 (sys1, calls1)"
    by (rule call_act [where env = ram_env and ts = "[0..<8]" and blk = id])
  have c1: "calls1 = (replicate 16 None)[15 := Some (NvmRead 15 6 2)]" using 1(1) by (auto simp del: issue.simps)
  have "conc_ok (sys1, calls1)" "good_request (nvm_blocks (sys_nvm sys1)) (NvmRead 3 2 1)"
    using 1(2) s(2) by (simp_all add: step_ok_def ready_def)
  from this obtain sys2 calls2 h2 where 2: "act ram_env [0..<8] (Call (NvmRead 3 2 1)) (sys1, calls1) = Some ((sys2, calls2), h2)"
    "step_ok id (sys1, calls1) h2 (sys2, calls2)"
    by (rule call_act [where env = ram_env and ts = "[0..<8]" and blk = id])
  have "placed calls2 sys2" using 2(2) by (simp add: step_ok_def conc_ok_def)
  then have nc: "filter clearing (queues sys2 ! 2) = []" using nvm_pending [of calls2 sys2 2] by (simp add: filter_empty_conv filter_id_conv)
  have c2: "calls2 ! 3 = Some (NvmRead 3 2 1)" using 2(1) by (auto simp: c1 simp del: issue.simps)
  have run: "run_actions ram_env [0..<8] ?acts (sys, replicate 16 None) = Some ((sys2, calls2), h1 @ h2)"
    using 1(1) 2(1) by (simp del: act.simps)
  have "set (replicate 32 2) \<subseteq> {..<4 :: nat}" "2 * (16 + length (filter clearing (queues sys2 ! home (NvmRead 3 2 1)))) \<le> count_list (replicate 32 2) (home (NvmRead 3 2 1) mod 4)"
    using nc by (auto simp: count_replicate)
  from wait_loop_ends [OF s(3,2) run _ c2 this] show ?thesis using s(1) run by auto
qed

text \<open>C9. In every state that a run can reach the system is well-formed: besides the clearing subtasks, which
  are in the queues of the buffer only, no caller has two tasks in the eight queues, no queue holds more than
  sixteen, every task belongs to a caller that is in a call, whose counter is the length of the task and
  positive, and the counter of a caller whose task was served is 0.\<close>

theorem running_system_well_formed:
  assumes "platform env blk cap ts" "ready cap acts sys"
    "run_actions env ts acts (sys, replicate 16 None) = Some ((sys1, calls1), h)"
  shows "distinct (map task_inflight (pending (concat (sys_nvm_queue sys1 @ sys_buffer_queue sys1)))) \<and>
    (\<forall>q \<in> set (sys_nvm_queue sys1). pending q = q) \<and>
    (\<forall>q \<in> set (sys_nvm_queue sys1 @ sys_buffer_queue sys1). length (pending q) \<le> 16 \<and>
       (\<forall>t \<in> set (pending q). calls1 ! task_inflight t \<noteq> None \<and>
         sys_inflight sys1 ! task_inflight t = sint (task_len t) \<and> 0 < sint (task_len t))) \<and>
    (\<forall>s < 16. calls1 ! s \<noteq> None \<longrightarrow> s \<notin> task_inflight ` set (pending (concat (sys_nvm_queue sys1 @ sys_buffer_queue sys1))) \<longrightarrow>
       sys_inflight sys1 ! s = 0)"
proof -
  have ok: "conc_ok (sys1, calls1)" using run_prefix(1) [OF assms(1), of acts "[]"] assms(2,3) by simp
  then have sh: "shaped sys1" and pl: "placed calls1 sys1" by (simp_all add: conc_ok_def)
  have q8: "\<exists>j < 8. queues sys1 ! j = q" if "q \<in> set (queues sys1)" for q
    using that queues_nth(3) [OF sh] by (auto simp: in_set_conv_nth)
  have len: "length (pending q) \<le> 16" if "q \<in> set (queues sys1)" for q
    using q8 [OF that] queue_bound [OF pl sh] queue_split [of q] by fastforce
  have nvm: "pending q = q" if "q \<in> set (sys_nvm_queue sys1)" for q
    using that sh nvm_pending [OF pl] queues_nth(1) [OF sh] by (auto simp: shaped_def in_set_conv_nth)
  have task: "calls1 ! task_inflight t \<noteq> None \<and> sys_inflight sys1 ! task_inflight t = sint (task_len t) \<and> 0 < sint (task_len t)"
    if tq: "q \<in> set (queues sys1)" "t \<in> set (pending q)" for q t
  proof -
    obtain j where "j < 8" "t \<in> set (queues sys1 ! j)" "\<not> clearing t" using q8 [OF tq(1)] tq(2) by auto
    from placed_task [OF pl this] obtain r where r: "calls1 ! task_inflight t = Some r" "good_request (nvm_blocks (sys_nvm sys1)) r" "task_for r t"
        "sys_inflight sys1 ! task_inflight t = int (blocks_of r)"
      unfolding task_placed_def by blast
    have "blocks_of r < 2 ^ 31" "task_len t = of_nat (blocks_of r)" using r(2,3) by (cases r; simp)+
    then show ?thesis using r small_words(2) good_slot(2) by simp
  qed
  show ?thesis
    using pl len nvm task unfolding placed_def slots_def queues_def [symmetric] by (auto simp del: set_concat)
qed

theorem running_system_well_formed_witness:
  "\<exists>sys sys1 calls1 h. mixdk_init ram_env (ram_boot (\<lambda>_. [])) 1 = Some (0, Some sys) \<and>
     run_actions ram_env [0..<8] sample_actions (sys, replicate 16 None) = Some ((sys1, calls1), h) \<and>
     distinct (map task_inflight (pending (concat (sys_nvm_queue sys1 @ sys_buffer_queue sys1))))"
proof -
  obtain sys where s: "mixdk_init ram_env (ram_boot (\<lambda>_. [])) 1 = Some (0, Some sys)" "ready 1000 sample_actions sys"
      "platform ram_env id 1000 [0..<8]"
    by (rule ram_ready [OF sample_ready])
  obtain sys1 calls1 h where r: "run_actions ram_env [0..<8] sample_actions (sys, replicate 16 None) = Some ((sys1, calls1), h)"
    using run_is_atomic [OF s(3,2)] by blast
  show ?thesis using s(1) r running_system_well_formed [OF s(3,2) r] by blast
qed

end
