(* ===== verification/Last_Write.thy ===== *)
theory Last_Write
  imports Interleaving
begin

text \<open>
  What a caller may rely on behind the threshold while others run: the lemmas on the disk of \<open>Concurrent\<close>
  show that its buffer behaves as a cache whose part 0 is emptied correctly, and the simulation of
  \<open>Interleaving\<close> carries this over to the running program, migrations included.
\<close>

section \<open>The buffer of the disk\<close>

text \<open>Every address in the index has a block of its own among the used ones of its part.\<close>

definition disk_ok :: "disk \<Rightarrow> bool" where
  "disk_ok dk \<longleftrightarrow> 0 < disk_per dk \<and> (\<forall>i. disk_used dk i \<le> disk_per dk) \<and>
     (\<forall>k b. disk_index dk k = Some b \<longrightarrow> b < disk_used dk (k mod 4)) \<and>
     (\<forall>k k' b. disk_index dk k = Some b \<longrightarrow> disk_index dk k' = Some b \<longrightarrow> k mod 4 = k' mod 4 \<longrightarrow> k = k')"

text \<open>What is stored for an address: its block of the buffer, or that of the SSD.\<close>

definition disk_view :: "disk \<Rightarrow> nat \<Rightarrow> u8 list" where
  "disk_view dk k = (case disk_index dk k of None \<Rightarrow> disk_ssd dk k | Some b \<Rightarrow> disk_cells dk (k mod 4 * disk_per dk + b))"

lemma part_cells:
  assumes "i * per + b = i' * per + b'" "b < per" "b' < (per :: nat)"
  shows "i = i' \<and> b = b'"
proof -
  have "0 < per" using assms(2) by simp
  then have "i = i'" using arg_cong [OF assms(1), of "\<lambda>x. x div per"] assms(2,3) by simp
  then show ?thesis using assms(1) by simp
qed

lemma flush_ok: "disk_ok dk \<Longrightarrow> disk_ok (flush i dk)"
  by (auto simp: disk_ok_def flush_def split: if_splits)

text \<open>Emptying part 0 changes what is stored for no address; any other part gets the blocks of part 0.\<close>

lemma flush_view:
  "disk_view (flush i dk) k =
     (if k mod 4 = i then (case disk_index dk k of None \<Rightarrow> disk_ssd dk k | Some b \<Rightarrow> disk_cells dk b) else disk_view dk k)"
  by (simp add: disk_view_def flush_def cong: option.case_cong)

lemma flush_view_0: "disk_view (flush 0 dk) = disk_view dk"
proof
  show "disk_view (flush 0 dk) k = disk_view dk k" for k
    unfolding flush_view by (simp add: disk_view_def cong: option.case_cong)
qed

lemma put_buffered_room:
  assumes "disk_ok dk" "disk_index dk k \<noteq> None \<or> disk_used dk (k mod 4) < disk_per dk"
  shows "disk_ok (put_buffered (k mod 4) k d dk)"
    "disk_view (put_buffered (k mod 4) k d dk) = (disk_view dk)(k := take 4096 d)"
proof -
  have ok: "b < disk_per dk" if "disk_index dk j = Some b" for j b
    using assms(1) that unfolding disk_ok_def by (meson less_le_trans)
  have own: "j = j'" if "disk_index dk j = Some b" "disk_index dk j' = Some b" "j mod 4 = j' mod 4" for j j' b
    using assms(1) that unfolding disk_ok_def by blast
  have used: "b < disk_used dk (j mod 4)" if "disk_index dk j = Some b" for j b
    using assms(1) that unfolding disk_ok_def by blast
  have "disk_ok (put_buffered (k mod 4) k d dk) \<and> disk_view (put_buffered (k mod 4) k d dk) j = (if j = k then take 4096 d else disk_view dk j)" for j
  proof (cases "disk_index dk k")
    case None
    define u where "u = disk_used dk (k mod 4)"
    have u: "u < disk_per dk" using assms(2) None by (simp add: u_def)
    have new: "put_buffered (k mod 4) k d dk =
        put_cell (k mod 4) u d (dk\<lparr>disk_index := (disk_index dk)(k \<mapsto> u), disk_used := (disk_used dk)(k mod 4 := Suc u)\<rparr>)"
      using None u by (simp add: put_buffered_def Let_def u_def)
    have fresh: "b < u" if "disk_index dk j = Some b" "j mod 4 = k mod 4" for j b
      using used [OF that(1)] that(2) by (simp add: u_def)
    have "disk_index dk j = Some b \<Longrightarrow> j mod 4 * disk_per dk + b \<noteq> k mod 4 * disk_per dk + u" for b
      using part_cells [of "j mod 4" "disk_per dk" b "k mod 4" u] ok u fresh by blast
    then have "disk_view (put_buffered (k mod 4) k d dk) j = (if j = k then take 4096 d else disk_view dk j)"
      unfolding new by (auto simp: put_cell_def disk_view_def split: option.split)
    moreover have "disk_ok (put_buffered (k mod 4) k d dk)"
      using assms(1) u unfolding new disk_ok_def
      by (auto simp: put_cell_def less_Suc_eq dest: fresh fresh [OF _ sym])
    ultimately show ?thesis by blast
  next
    case (Some u)
    have old: "put_buffered (k mod 4) k d dk = put_cell (k mod 4) u d dk" using Some by (simp add: put_buffered_def)
    have "disk_index dk j = Some b \<Longrightarrow> j \<noteq> k \<Longrightarrow> j mod 4 * disk_per dk + b \<noteq> k mod 4 * disk_per dk + u" for b
      using part_cells [of "j mod 4" "disk_per dk" b "k mod 4" u] ok own Some by blast
    then have "disk_view (put_buffered (k mod 4) k d dk) j = (if j = k then take 4096 d else disk_view dk j)"
      unfolding old using Some by (auto simp: put_cell_def disk_view_def split: option.split)
    moreover have "disk_ok (put_buffered (k mod 4) k d dk)" using assms(1) unfolding old by (simp add: disk_ok_def put_cell_def)
    ultimately show ?thesis by blast
  qed
  then show "disk_ok (put_buffered (k mod 4) k d dk)"
    "disk_view (put_buffered (k mod 4) k d dk) = (disk_view dk)(k := take 4096 d)" by (auto simp: fun_eq_iff)
qed

lemma put_buffered_flush:
  assumes "disk_index dk k = None" "\<not> disk_used dk i < disk_per dk" "0 < disk_per dk"
  shows "put_buffered i k d dk = put_buffered i k d (flush i dk)"
  using assms by (simp add: put_buffered_def flush_def Let_def)

lemma put_buffered_part0:
  assumes "disk_ok dk"
  shows "disk_ok (put_buffered (k mod 4) k d dk)"
    "j mod 4 = 0 \<Longrightarrow> disk_view (put_buffered (k mod 4) k d dk) j = (if j = k then take 4096 d else disk_view dk j)"
proof -
  have "disk_ok (put_buffered (k mod 4) k d dk) \<and>
      (j mod 4 = 0 \<longrightarrow> disk_view (put_buffered (k mod 4) k d dk) j = (if j = k then take 4096 d else disk_view dk j))"
  proof (cases "disk_index dk k \<noteq> None \<or> disk_used dk (k mod 4) < disk_per dk")
    case True
    then show ?thesis using put_buffered_room [OF assms True, of d] by simp
  next
    case False
    let ?dk = "flush (k mod 4) dk"
    have p: "0 < disk_per dk" using assms by (simp add: disk_ok_def)
    then have "disk_used ?dk (k mod 4) < disk_per ?dk" by (simp add: flush_def)
    note r = put_buffered_room [OF flush_ok [OF assms] disjI2 [OF this], of d]
    have "put_buffered (k mod 4) k d dk = put_buffered (k mod 4) k d ?dk"
      by (rule put_buffered_flush) (use False p in simp_all)
    moreover have "disk_view ?dk j = disk_view dk j" if "j mod 4 = 0"
      using that flush_view_0 [of dk] by (cases "k mod 4 = 0") (simp_all add: flush_view)
    ultimately show ?thesis using r by simp
  qed
  then show "disk_ok (put_buffered (k mod 4) k d dk)"
    "j mod 4 = 0 \<Longrightarrow> disk_view (put_buffered (k mod 4) k d dk) j = (if j = k then take 4096 d else disk_view dk j)" by simp_all
qed

text \<open>The block that a history stores for an address.\<close>

fun written :: "nat \<Rightarrow> event \<Rightarrow> u8 list option" where
  "written k (Served (BufferWrite s j d)) = (if j = k then Some (take 4096 d) else None)"
| "written k e = None"

fun last_write :: "nat \<Rightarrow> event list \<Rightarrow> u8 list option" where
  "last_write k [] = None"
| "last_write k (e # es) = (case last_write k es of None \<Rightarrow> written k e | Some d \<Rightarrow> Some d)"

fun large_over :: "nat \<Rightarrow> event \<Rightarrow> bool" where
  "large_over k (Stored s j n d) \<longleftrightarrow> j \<le> k \<and> k < j + n"
| "large_over k e \<longleftrightarrow> False"

lemma effect_part0:
  assumes "disk_ok dk" "\<not> large_over k e" "k mod 4 = 0"
  shows "disk_ok (effect e dk) \<and> disk_view (effect e dk) k = (case written k e of None \<Rightarrow> disk_view dk k | Some d \<Rightarrow> d)"
proof (cases e)
  case (Served r)
  show ?thesis
  proof (cases r)
    case (BufferWrite s j d)
    then show ?thesis using put_buffered_part0(1) [OF assms(1), of j d] put_buffered_part0(2) [OF assms(1,3), of j d]
      by (auto simp: Served)
  qed (use assms(1) in \<open>simp_all add: Served disk_ok_def disk_view_def cong: option.case_cong\<close>)
next
  case (Stored s j n d)
  then show ?thesis using assms by (auto simp: disk_ok_def disk_view_def put_blocks_def split: option.split)
qed (use assms(1) in \<open>simp_all add: disk_ok_def disk_view_def cong: option.case_cong\<close>)

lemma history_part0:
  assumes "k mod 4 = 0"
  shows "disk_ok dk \<Longrightarrow> \<forall>e \<in> set hist. \<not> large_over k e \<Longrightarrow>
    disk_view (fold effect hist dk) k = (case last_write k hist of None \<Rightarrow> disk_view dk k | Some d \<Rightarrow> d)"
proof (induction hist arbitrary: dk)
  case (Cons e hist)
  then show ?case using effect_part0 [of dk k e] assms by (auto split: option.split)
qed simp

section \<open>The buffer of the program\<close>

lemma disk_of_ok:
  assumes "store_ok sys"
  shows "disk_ok (disk_of blk sys)"
proof -
  let ?per = "unat (md_per_block_num (sys_meta sys))"
  have seg: "\<exists>n. filled (sys_meta sys) i n" if "i < 4" for i
    using assms that by (auto simp: store_ok_def seg_inv_def)
  have used: "nat (sg_used_block_num (md_segments (sys_meta sys) ! i)) \<le> ?per" if "i < 4" for i
    using seg [OF that] by (auto simp: filled_def)
  have idx: "unat v < nat (sg_used_block_num (md_segments (sys_meta sys) ! i))"
    if "i < 4" "hash_stack (seg_hash (sys_meta sys) i) k = v # vs" for i k v vs
  proof -
    have "v \<in> set (hash_stack (seg_hash (sys_meta sys) i) k)" using that(2) by simp
    then show ?thesis using seg [OF that(1)] unfolding filled_def by auto
  qed
  have inj: "k = k'" if "k < 2 ^ 32" "k' < 2 ^ 32" "i < 4" "hash_stack (seg_hash (sys_meta sys) i) (of_nat k) = v # vs"
      "hash_stack (seg_hash (sys_meta sys) i) (of_nat k') = v # vs'" for i k k' v vs vs'
  proof -
    have "v \<in> set (hash_stack (seg_hash (sys_meta sys) i) (of_nat k))" "v \<in> set (hash_stack (seg_hash (sys_meta sys) i) (of_nat k'))"
      using that(4,5) by simp_all
    then have "(of_nat k :: u32) = of_nat k'" using seg [OF that(3)] unfolding filled_def by blast
    then have "unat (of_nat k :: u32) = unat (of_nat k' :: u32)" by simp
    then show ?thesis using that(1,2) by (simp add: unsigned_of_nat take_bit_nat_eq_self)
  qed
  have "0 < ?per" using seg [of 0] by (auto simp: filled_def segment_ok_def)
  moreover have "disk_used (disk_of blk sys) i \<le> ?per" for i using used by (simp add: disk_of_def)
  moreover have "b < disk_used (disk_of blk sys) (k mod 4)" if "disk_index (disk_of blk sys) k = Some b" for k b
    using that idx [of "k mod 4" "of_nat k"] by (auto simp: disk_of_def split: if_splits list.splits)
  moreover have "k = k'" if "disk_index (disk_of blk sys) k = Some b" "disk_index (disk_of blk sys) k' = Some b" "k mod 4 = k' mod 4" for k k' b
    using that inj [of k k' "k mod 4"] by (auto simp: disk_of_def word_unat_eq_iff split: if_splits list.splits)
  moreover have "disk_per (disk_of blk sys) = ?per" by (simp add: disk_of_def)
  ultimately show ?thesis unfolding disk_ok_def by metis
qed

lemma view_part0:
  assumes "store_ok sys" "k mod 4 = 0" "k < 2 ^ 32"
  shows "disk_view (disk_of blk sys) k = seg_view blk 0 (fst (sys_store sys)) (of_nat k)"
proof -
  obtain n where n: "seg_inv 0 n (sys_store sys)" by (rule store_ok_segment [OF assms(1), of 0]) simp_all
  have "unat v < buffer_blocks (sys_nvm sys)" if "hash_stack (seg_hash (sys_meta sys) 0) (of_nat k) = v # vs" for v vs
  proof -
    have "v \<in> set (hash_stack (seg_hash (sys_meta sys) 0) (of_nat k))" using that by simp
    then have "unat v < n" using n unfolding seg_inv_def filled_def by auto
    then show ?thesis using n by (simp add: seg_inv_def filled_def)
  qed
  moreover have "(ucast (of_nat k :: u32) :: u64) = of_nat k" using assms(3) by (simp add: unsigned_of_nat take_bit_nat_eq_self)
  ultimately show ?thesis using assms(2,3) by (auto simp: disk_view_def disk_of_def seg_view_def split: list.split)
qed

text \<open>The events of a run come from its actions, and a request that was served has been issued.\<close>

lemma act_events:
  assumes "act env ts a st = Some (st', h)" "e \<in> set h"
  shows "(\<forall>s j n d. e = Stored s j n d \<longrightarrow> a = WriteSsd s j n d) \<and> (\<forall>r. e = Invoked r \<longrightarrow> a = Call r)"
  using assms by (cases st; cases a) (auto split: if_splits option.splits)

lemma run_events:
  assumes "run_actions env ts acts st = Some (st', hist)"
  shows "Stored s j n d \<in> set hist \<Longrightarrow> WriteSsd s j n d \<in> set acts" "Invoked r \<in> set hist \<Longrightarrow> Call r \<in> set acts"
proof -
  have "(Stored s j n d \<in> set hist \<longrightarrow> WriteSsd s j n d \<in> set acts) \<and> (Invoked r \<in> set hist \<longrightarrow> Call r \<in> set acts)"
    using assms
  proof (induction acts arbitrary: st hist)
    case (Cons a acts)
    then obtain st1 h1 h2 where 1: "act env ts a st = Some (st1, h1)" "run_actions env ts acts st1 = Some (st', h2)" "hist = h1 @ h2"
      by (auto split: bind_splits)
    show ?case using Cons.IH [OF 1(2)] act_events [OF 1(1)] 1(3) by auto
  qed simp
  then show "Stored s j n d \<in> set hist \<Longrightarrow> WriteSsd s j n d \<in> set acts" "Invoked r \<in> set hist \<Longrightarrow> Call r \<in> set acts" by blast+
qed

lemma served_invoked:
  "legal hist ph = Some ph' \<Longrightarrow> Served r \<in> set hist \<Longrightarrow> Invoked r \<in> set hist \<or> ph (slot_of r) = Waiting r"
proof (induction hist arbitrary: ph)
  case (Cons e hist)
  then obtain ph1 where 1: "event_step e ph = Some ph1" "legal hist ph1 = Some ph'" by (auto split: bind_splits)
  show ?case
  proof (cases "Served r = e")
    case True
    then show ?thesis using 1(1) by (auto split: if_splits)
  next
    case False
    then have "Invoked r \<in> set hist \<or> ph1 (slot_of r) = Waiting r" using Cons.IH [OF 1(2)] Cons.prems(2) by simp
    then show ?thesis using 1(1) by (cases e) (auto split: if_splits)
  qed
qed simp

lemma last_write_cases: "last_write k hist = Some x \<Longrightarrow> \<exists>s d. Served (BufferWrite s k d) \<in> set hist \<and> x = take 4096 d"
proof (induction hist)
  case (Cons e hist)
  then show ?case by (cases "last_write k hist"; cases "(k, e)" rule: written.cases) (auto split: if_splits)
qed simp

lemma last_write_served: "Served (BufferWrite s k d) \<in> set hist \<Longrightarrow> last_write k hist \<noteq> None"
  by (induction hist) (auto split: option.split)

text \<open>C2. For the addresses behind the threshold that are divisible by four the last write wins, whatever the
  other callers do: after any run, migrations included, the buffer, or else the SSD, holds for such an
  address the block of the last one-block write to it that was served, or what was there before the run if
  there was none, as long as no write of several blocks covers the address.\<close>

theorem concurrent_last_write_wins:
  assumes "platform env blk cap ts" "ready cap acts sys"
    "run_actions env ts acts (sys, replicate 16 None) = Some ((sys', calls), hist)"
    "k mod 4 = 0" "k < 2 ^ 32" "\<And>s j n d. WriteSsd s j n d \<in> set acts \<Longrightarrow> k < j \<or> j + n \<le> k"
  shows "seg_view blk 0 (fst (sys_store sys')) (of_nat k) =
    (case last_write k hist of None \<Rightarrow> seg_view blk 0 (fst (sys_store sys)) (of_nat k) | Some d \<Rightarrow> d)"
proof -
  have s: "store_ok sys" using assms(2) by (simp add: ready_def)
  have "conc_ok (sys', calls)" using run_prefix(1) [OF assms(1), of acts "[]"] assms(2,3) by simp
  then have s': "store_ok sys'" by (simp add: conc_ok_def)
  have d: "disk_of blk sys' = fold effect hist (disk_of blk sys)" using run_is_atomic [OF assms(1,2)] assms(3) by auto
  have "\<not> large_over k e" if e: "e \<in> set hist" for e
  proof (cases e)
    case (Stored s j n d)
    then have "WriteSsd s j n d \<in> set acts" using run_events(1) [OF assms(3)] e by blast
    from assms(6) [OF this] show ?thesis by (auto simp: Stored)
  qed simp_all
  then have "\<forall>e \<in> set hist. \<not> large_over k e" by blast
  from history_part0 [OF assms(4) disk_of_ok [OF s, of blk] this] show ?thesis
    unfolding d [symmetric] view_part0 [OF s assms(4,5)] view_part0 [OF s' assms(4,5)] .
qed

theorem concurrent_last_write_wins_witness:
  "\<exists>sys sys' calls hist. mixdk_init ram_env (ram_boot (\<lambda>_. [])) 1 = Some (0, Some sys) \<and>
     run_actions ram_env [0..<8] (Call (BufferWrite 6 8 (replicate 4096 1)) # replicate 34 (Poll 0)) (sys, replicate 16 None) =
       Some ((sys', calls), hist) \<and>
     seg_view id 0 (fst (sys_store sys')) 8 = replicate 4096 1"
proof -
  let ?r = "BufferWrite 6 8 (replicate 4096 1)"
  let ?acts = "Call ?r # replicate 34 (Poll 0)"
  have "\<forall>a \<in> set ?acts. good_action (3 * 1024 * 1024) 1000 True a" by simp
  then obtain sys where s: "mixdk_init ram_env (ram_boot (\<lambda>_. [])) 1 = Some (0, Some sys)" "ready 1000 ?acts sys"
      "platform ram_env id 1000 [0..<8]"
    by (rule ram_ready)
  have q: "queues sys = replicate 8 []" using s(2) by (simp add: ready_def idle_def queues_def flip: replicate_add)
  have "sys_buffer_queue sys = replicate 4 []" "16 \<le> sys_queue_size sys" using s(2) by (simp_all add: ready_def idle_def)
  then have "replicate 16 None ! slot_of ?r = None" "\<not> spins (home ?r) sys"
      "2 * (16 + length (filter clearing (queues sys ! home ?r))) \<le> count_list (replicate 34 (Poll 0)) (Poll (home ?r mod 4))"
    by (simp_all add: q spins_def count_replicate)
  note served = call_served [OF s(3) ready_start(1) [OF s(2)] _ this]
  have "\<forall>a \<in> set ?acts. allowed 1000 sys a" using s(2) unfolding ready_def by blast
  from served [OF this] obtain sys' calls h where
    r: "run_actions ram_env [0..<8] ?acts (sys, replicate 16 None) = Some ((sys', calls), Invoked ?r # h)" "Served ?r \<in> set h" by auto
  let ?hist = "Invoked ?r # h"
  obtain ph where l: "legal ?hist (\<lambda>_. Idle) = Some ph" using run_is_atomic [OF s(3,2)] r(1) by auto
  have only: "r' = ?r" if "Served r' \<in> set ?hist" for r'
  proof -
    have "Invoked r' \<in> set ?hist" using served_invoked [OF l that] by simp
    from run_events(2) [OF r(1) this] show ?thesis by simp
  qed
  have "Served ?r \<in> set ?hist" using r(2) by simp
  then obtain x where x: "last_write 8 ?hist = Some x" using last_write_served by fast
  from last_write_cases [OF this] obtain u d where "Served (BufferWrite u 8 d) \<in> set ?hist" "x = take 4096 d" by blast
  with only [of "BufferWrite u 8 d"] have "x = replicate 4096 1" by simp
  moreover have "seg_view id 0 (fst (sys_store sys')) (of_nat 8) =
      (case last_write 8 ?hist of None \<Rightarrow> seg_view id 0 (fst (sys_store sys)) (of_nat 8) | Some d \<Rightarrow> d)"
    by (rule concurrent_last_write_wins [OF s(3,2) r(1)]) simp_all
  ultimately have "seg_view id 0 (fst (sys_store sys')) 8 = replicate 4096 1" using x by simp
  then show ?thesis using s(1) r(1) by blast
qed

end
