(* ===== verification/Driver.thy ===== *)
theory Driver
  imports Interleaving
begin

text \<open>
  The benchmark driver \<open>src/src/main.c\<close>: its arguments, the start of the threads, and the calls that the
  threads make; the number of iterations a thread makes is arbitrary. How the threads are started and stopped is
  in \<open>Benchmark\<close>. Printing and the processor affinity are left out.
\<close>

section \<open>The arguments\<close>

text \<open>The functions the threads call through \<open>func\<close>; it is null when the type is not known.\<close>

datatype call_kind = ReadCall | WriteCall

record driver =
  dr_thread_num :: int
  dr_task_num :: int
  dr_nblock :: int
  dr_func :: "call_kind option"
  dr_offset :: u64

definition nvm_block_num :: u64 where "nvm_block_num = 2000000"

text \<open>\<open>atoi\<close> of the C library: white space, a sign, digits; what follows is ignored.\<close>

fun digits :: "int \<Rightarrow> string \<Rightarrow> int" where
  "digits acc [] = acc"
| "digits acc (ch # cs) =
     (if 48 \<le> (of_char ch :: int) \<and> (of_char ch :: int) \<le> 57 then digits (10 * acc + (of_char ch - 48)) cs else acc)"

fun atoi :: "string \<Rightarrow> int" where
  "atoi [] = 0"
| "atoi (ch # cs) =
     (if ch = CHR '' '' \<or> (9 \<le> (of_char ch :: int) \<and> (of_char ch :: int) \<le> 13) then atoi cs
      else if ch = CHR ''-'' then - digits 0 cs
      else if ch = CHR ''+'' then digits 0 cs
      else digits 0 (ch # cs))"

definition select_func :: "string \<Rightarrow> call_kind option \<times> u64" where
  "select_func type =
     (if type = ''ssd_read'' then (Some ReadCall, nvm_block_num)
      else if type = ''ssd_write'' then (Some WriteCall, nvm_block_num)
      else if type = ''nvm_read'' then (Some ReadCall, 0)
      else if type = ''nvm_write'' then (Some WriteCall, 0)
      else (None, 0))"

definition parse_args :: "string list \<Rightarrow> driver option" where
  "parse_args argv =
     (if length argv \<noteq> 7 then None
      else let (f, off) = select_func (argv ! 6)
           in Some \<lparr>dr_thread_num = atoi (argv ! 1), dr_task_num = atoi (argv ! 2), dr_nblock = atoi (argv ! 3),
                dr_func = f, dr_offset = off\<rparr>)"

section \<open>The start of the threads\<close>

text \<open>\<open>BLOCK_SIZE * nblock\<close> is an \<open>int\<close>; a negative size becomes a huge one, \<open>valloc\<close> returns the null pointer
  and \<open>memset\<close> fails. The character stored is the letter c, not the variable \<open>c\<close>.\<close>

definition alloc_buf :: "int \<Rightarrow> u8 list option" where
  "alloc_buf nblock = (if 0 \<le> nblock \<and> 4096 * nblock < 2 ^ 31 then Some (replicate (nat (4096 * nblock)) 99) else None)"

text \<open>What goes wrong before the threads run: a crash in \<open>mixdk_init\<close>, \<open>memset\<close> on the null pointer, and the
  first store behind the end of one of the two arrays, with its index.\<close>

datatype start_error = InitCrash | NullBuffer | IdxOverrun nat | PidsOverrun nat

text \<open>Filling \<open>idx\<close>, an array of 16 integers.\<close>

fun fill_idx :: "nat \<Rightarrow> nat \<Rightarrow> int list \<Rightarrow> start_error + int list" where
  "fill_idx i 0 idx = Inr idx"
| "fill_idx i (Suc m) idx =
     (if i < length idx then fill_idx (Suc i) m (idx[i := int i]) else Inl (IdxOverrun i))"

text \<open>The two loops over \<open>pthread_create\<close>, which stores the identifier of the thread in \<open>pids\<close>, an array of
  \<open>size0\<close> elements; \<open>created i\<close> says whether thread \<open>i\<close> can be had. The result says whether all could.\<close>

fun create_threads :: "(nat \<Rightarrow> bool) \<Rightarrow> nat \<Rightarrow> nat \<Rightarrow> nat \<Rightarrow> start_error + bool" where
  "create_threads created size0 i 0 = Inr True"
| "create_threads created size0 i (Suc m) =
     (if size0 \<le> i then Inl (PidsOverrun i)
      else if \<not> created i then Inr False else create_threads created size0 (Suc i) m)"

text \<open>\<open>main\<close> up to the barrier; the result of \<open>mixdk_init\<close> is not looked at, and \<open>thread_num\<close> is cut to 8 bits
  for it. \<open>Inr None\<close> is an early return.\<close>

definition main_start ::
    "'s environment \<Rightarrow> 's boot \<Rightarrow> (nat \<Rightarrow> bool) \<Rightarrow> string list \<Rightarrow>
       start_error + (driver \<times> 's system option \<times> u8 list \<times> int list) option" where
  "main_start env boot created argv =
     (case parse_args argv of
        None \<Rightarrow> Inr None
      | Some dr \<Rightarrow>
          case mixdk_init env boot (word_of_int (dr_thread_num dr)) of
            None \<Rightarrow> Inl InitCrash
          | Some (_, sys) \<Rightarrow>
              case alloc_buf (dr_nblock dr) of
                None \<Rightarrow> Inl NullBuffer
              | Some buf1 \<Rightarrow>
                  case fill_idx 0 (nat (dr_thread_num dr * 2)) (replicate 16 0) of
                    Inl err \<Rightarrow> Inl err
                  | Inr idx \<Rightarrow>
                      case create_threads created (nat (dr_thread_num dr)) 0 (nat (2 * dr_thread_num dr)) of
                        Inl err \<Rightarrow> Inl err
                      | Inr ok \<Rightarrow> Inr (if ok then Some (dr, sys, buf1, idx) else None))"

section \<open>The threads\<close>

text \<open>A call of \<open>func\<close>, and the calls the threads make in iteration \<open>i\<close>. The products are computed in \<open>int\<close>:
  \<open>None\<close> when they do not fit.\<close>

record driver_call =
  dc_buf :: "u8 list"
  dc_len :: u64
  dc_offset :: u64
  dc_flags :: u64
  dc_slot :: nat

definition int_ok :: "int \<Rightarrow> bool" where
  "int_ok x \<longleftrightarrow> - (2 ^ 31) \<le> x \<and> x < 2 ^ 31"

definition ssd_write_call :: "driver \<Rightarrow> u8 list \<Rightarrow> nat \<Rightarrow> nat \<Rightarrow> driver_call option" where
  "ssd_write_call dr buf1 idx i =
     (if int_ok (int i) \<and> int_ok (int i * dr_nblock dr)
      then Some \<lparr>dc_buf = buf1, dc_len = word_of_int (dr_nblock dr), dc_offset = dr_offset dr + word_of_int (int i * dr_nblock dr),
             dc_flags = 0, dc_slot = idx\<rparr>
      else None)"

definition nvm_write_call :: "u8 list \<Rightarrow> nat \<Rightarrow> nat \<Rightarrow> driver_call option" where
  "nvm_write_call buf2 idx i =
     (if int_ok (int i) then Some \<lparr>dc_buf = buf2, dc_len = 1, dc_offset = of_nat (i mod 10000), dc_flags = 0, dc_slot = idx\<rparr>
      else None)"

text \<open>\<open>write_func\<close>, which no thread runs any more: every iteration makes the same call; a division by zero
  is a crash.\<close>

definition write_func_calls :: "driver \<Rightarrow> u8 list \<Rightarrow> nat \<Rightarrow> driver_call list option" where
  "write_func_calls dr buf1 idx =
     (if dr_thread_num dr = 0 then None
      else let part = dr_task_num dr sdiv dr_thread_num dr; start = int idx * part; end0 = (int idx + 1) * part
           in if int_ok start \<and> int_ok end0
              then Some (replicate (nat (end0 - start)) \<lparr>dc_buf = buf1, dc_len = word_of_int (dr_nblock dr), dc_offset = dr_offset dr + 0,
                     dc_flags = 0, dc_slot = idx\<rparr>)
              else None)"

definition call_func ::
    "'s environment \<Rightarrow> nat list \<Rightarrow> nat list \<Rightarrow> io_task \<Rightarrow> call_kind option \<Rightarrow> driver_call \<Rightarrow> 's system \<Rightarrow> ('s system \<times> u64) option" where
  "call_func env ts ws junk func dc sys =
     (case func of None \<Rightarrow> None
      | Some ReadCall \<Rightarrow> mixdk_read env ts ws junk (dc_len dc) (dc_offset dc) (dc_flags dc) (dc_slot dc) sys
      | Some WriteCall \<Rightarrow> mixdk_write env ts ws junk (dc_buf dc) (dc_len dc) (dc_offset dc) (dc_flags dc) (dc_slot dc) sys)"

text \<open>The action of \<open>Concurrent\<close> a call amounts to; a write of several blocks behind the threshold posts the
  tasks \<open>call_clears\<close> before it, on top of what the stack variable \<open>post_task\<close> holds.\<close>

definition call_action :: "call_kind \<Rightarrow> driver_call \<Rightarrow> action option" where
  "call_action kind dc =
     (if dc_offset dc + dc_len dc < sched_threshold
      then Some (Call (case kind of ReadCall \<Rightarrow> NvmRead (dc_slot dc) (unat (dc_offset dc)) (unat (dc_len dc))
                  | WriteCall \<Rightarrow> NvmWrite (dc_slot dc) (unat (dc_offset dc)) (unat (dc_len dc)) (dc_buf dc)))
      else case kind of
          ReadCall \<Rightarrow> Some (ReadSsd (dc_slot dc) (unat (dc_offset dc - sched_threshold)) (unat (dc_len dc)))
        | WriteCall \<Rightarrow> if dc_len dc = 1
            then Some (Call (BufferWrite (dc_slot dc) (unat (dc_offset dc - sched_threshold)) (dc_buf dc)))
            else if 1 < dc_len dc
            then Some (WriteSsd (dc_slot dc) (unat (dc_offset dc - sched_threshold)) (unat (dc_len dc)) (dc_buf dc)) else None)"

definition call_clears :: "io_task \<Rightarrow> driver_call \<Rightarrow> (nat \<times> io_task) list" where
  "call_clears junk dc =
     mix_post_task_to_buffer_tasks junk (large_task (dc_buf dc) (dc_len dc) (dc_offset dc) (dc_flags dc) (dc_slot dc))"

text \<open>\<open>call_func\<close> is the request up to the loop, followed by the loop, or the read of the SSD.\<close>

lemma call_func_request:
  assumes "call_action kind dc = Some (Call r)" "dc_flags dc = 0"
  shows "call_func env ts ws junk (Some kind) dc sys = issue r sys \<bind>
    (\<lambda>sys. map_option (\<lambda>sys. (sys, scast (ucast (dc_len dc) :: u32))) (mix_wait_for_task_completed env ts ws (dc_slot dc) sys))"
proof (cases "dc_offset dc + dc_len dc < sched_threshold")
  case True
  then show ?thesis
    using assms write_enters [of "dc_offset dc" "dc_len dc" 0] read_enters [of "dc_offset dc" "dc_len dc"]
    by (cases kind) (auto simp: call_action_def call_func_def)
next
  case False
  then have r: "kind = WriteCall" "dc_len dc = 1" "r = BufferWrite (dc_slot dc) (unat (dc_offset dc - sched_threshold)) (dc_buf dc)"
    using assms(1) by (auto simp: call_action_def split: if_splits call_kind.splits)
  have "of_nat (unat (dc_offset dc - sched_threshold) + 1928765) = dc_offset dc" by (simp add: sched_threshold_def)
  then have "issue r sys = begin_write (dc_buf dc) 1 (dc_offset dc) 0 (dc_slot dc) sys" by (simp only: r(3) issue.simps)
  then show ?thesis
    using assms(2) r(1,2) write_enters [of "dc_offset dc" 1 0] by (simp add: call_func_def small_threshold_def no_flags)
qed

lemma call_func_read:
  assumes "call_action kind dc = Some (ReadSsd s k n)" "dc_flags dc = 0"
  shows "call_func env ts ws junk (Some kind) dc sys =
    map_option (\<lambda>sys. (sys, scast (ucast (dc_len dc) :: u32))) (ssd_read_call env (of_nat n) (of_nat (k + 1928765)) 0 s sys)"
proof -
  have c: "kind = ReadCall" "\<not> dc_offset dc + dc_len dc < sched_threshold"
      "s = dc_slot dc" "k = unat (dc_offset dc - sched_threshold)" "n = unat (dc_len dc)"
    using assms(1) by (auto simp: call_action_def split: if_splits call_kind.splits)
  have "of_nat (k + 1928765) = dc_offset dc" by (simp add: c(4) sched_threshold_def)
  then show ?thesis
    using assms(2) c(1,3,5) read_fetches [OF c(2) no_flags] by (simp add: call_func_def)
qed

lemma call_func_write:
  assumes "call_action kind dc = Some (WriteSsd s k n d)" "dc_flags dc = 0" "k + n < 2 ^ 63"
    "call_func env ws' ws junk (Some kind) dc sys = Some (sys', len)" "s < length (sys_inflight sys)" "calls ! s = None"
  shows "run_actions env ts (map (\<lambda>(w, t). PostClear w t) (call_clears junk dc) @ [WriteSsd s k n d]) (sys, calls) =
    Some ((sys', calls), [Stored s k n d])"
proof -
  have c: "kind = WriteCall" "1 < dc_len dc" "s = dc_slot dc" "k = unat (dc_offset dc - sched_threshold)" "n = unat (dc_len dc)"
      "d = dc_buf dc"
    using assms(1) by (auto simp: call_action_def split: if_splits call_kind.splits)
  have w: "of_nat (k + 1928765) = dc_offset dc" "of_nat n = dc_len dc" "1 < n"
    using c(2) by (simp_all add: c(4,5) sched_threshold_def word_less_nat_alt)
  have "mixdk_write env ws' ws junk d (of_nat n) (of_nat (k + 1928765)) 0 s sys = Some (sys', len)"
    using assms(2,4) unfolding w(1,2) by (simp add: call_func_def c(1,3,6))
  from large_write_steps [OF this w(3) assms(3,5,6)] show ?thesis
    unfolding call_clears_def w(1,2) using assms(2) c(3,6) by simp
qed

text \<open>The actions of a run of the benchmark: the calls of its threads, polls and returns.\<close>

definition driver_makes :: "driver \<Rightarrow> u8 list \<Rightarrow> u8 list \<Rightarrow> call_kind \<Rightarrow> driver_call \<Rightarrow> bool" where
  "driver_makes dr buf1 buf2 kind dc \<longleftrightarrow> dr_func dr = Some kind \<and> (\<exists>idx i.
     idx < nat (dr_thread_num dr) \<and> ssd_write_call dr buf1 idx i = Some dc \<or>
     nat (dr_thread_num dr) \<le> idx \<and> idx < nat (2 * dr_thread_num dr) \<and> nvm_write_call buf2 idx i = Some dc)"

definition driver_calls :: "driver \<Rightarrow> u8 list \<Rightarrow> u8 list \<Rightarrow> action \<Rightarrow> bool" where
  "driver_calls dr buf1 buf2 a \<longleftrightarrow> (\<exists>kind dc. driver_makes dr buf1 buf2 kind dc \<and> call_action kind dc = Some a)"

fun driver_action :: "driver \<Rightarrow> u8 list \<Rightarrow> u8 list \<Rightarrow> action \<Rightarrow> bool" where
  "driver_action dr buf1 buf2 (Poll w) = (w < 4)"
| "driver_action dr buf1 buf2 (Return s) = (s < 16)"
| "driver_action dr buf1 buf2 (PostClear w t) =
     (\<exists>dc junk s k n d. driver_makes dr buf1 buf2 WriteCall dc \<and> call_action WriteCall dc = Some (WriteSsd s k n d) \<and>
        (w, t) \<in> set (call_clears junk dc))"
| "driver_action dr buf1 buf2 a = driver_calls dr buf1 buf2 a"

lemma ssd_thread_makes:
  "dr_func dr = Some kind \<Longrightarrow> ssd_write_call dr buf1 idx i = Some dc \<Longrightarrow> idx < nat (dr_thread_num dr) \<Longrightarrow>
     driver_makes dr buf1 buf2 kind dc"
  unfolding driver_makes_def by blast

lemma nvm_thread_makes:
  "dr_func dr = Some kind \<Longrightarrow> nvm_write_call buf2 idx i = Some dc \<Longrightarrow> nat (dr_thread_num dr) \<le> idx \<Longrightarrow>
     idx < nat (2 * dr_thread_num dr) \<Longrightarrow> driver_makes dr buf1 buf2 kind dc"
  unfolding driver_makes_def by blast

section \<open>Properties\<close>

lemma fill_idx_full: "i + m \<le> length idx \<Longrightarrow> \<exists>xs. fill_idx i m idx = Inr xs"
  by (induction i m idx rule: fill_idx.induct) auto

lemma fill_idx_overrun:
  "length idx < i + m \<Longrightarrow> i \<le> length idx \<Longrightarrow> fill_idx i m idx = Inl (IdxOverrun (length idx))"
  by (induction i m idx rule: fill_idx.induct) auto

lemma create_threads_overrun:
  "size0 < i + m \<Longrightarrow> i \<le> size0 \<Longrightarrow> \<forall>j < size0. created j \<Longrightarrow>
     create_threads created size0 i m = Inl (PidsOverrun size0)"
  by (induction created size0 i m rule: create_threads.induct) auto

text \<open>C21. The benchmark stores behind the end of an array whenever it starts a thread. With one to eight
  threads \<open>idx\<close> is filled, but \<open>pids\<close> has room for \<open>thread_num\<close> identifiers and twice as many threads are
  created: the first store behind its end is that of thread number \<open>thread_num\<close>. With nine to sixteen
  threads, which \<open>mixdk_init\<close> accepts, element 16 of \<open>idx\<close> is stored before any thread is created. Without
  a thread the benchmark starts, but nothing is initialised.\<close>

theorem benchmark_overruns_arrays:
  assumes "pmem_copies (env_cpy env)" "good_boot boot mem ssd" "parse_args argv = Some dr" "\<forall>j. created j"
    "0 \<le> dr_thread_num dr" "dr_thread_num dr \<le> 16" "alloc_buf (dr_nblock dr) = Some buf1"
  shows "main_start env boot created argv =
    (if dr_thread_num dr = 0 then Inr (Some (dr, None, buf1, replicate 16 0))
     else if dr_thread_num dr \<le> 8 then Inl (PidsOverrun (nat (dr_thread_num dr)))
     else Inl (IdxOverrun 16))"
proof (cases "dr_thread_num dr = 0")
  case True
  then show ?thesis using assms(3,7) by (simp add: main_start_def mixdk_init_def)
next
  case False
  define n where "n = nat (dr_thread_num dr)"
  have n: "1 \<le> n" "nat (dr_thread_num dr * 2) = 2 * n" "nat (2 * dr_thread_num dr) = 2 * n" "dr_thread_num dr \<le> 8 \<longleftrightarrow> n \<le> 8"
    using False assms(5) by (auto simp: n_def nat_mult_distrib)
  have "uint (word_of_int (dr_thread_num dr) :: u8) = dr_thread_num dr" using assms(5,6) by (simp add: uint_word_of_int)
  then have w: "1 \<le> (word_of_int (dr_thread_num dr) :: u8)" "(word_of_int (dr_thread_num dr) :: u8) \<le> 16"
    using False assms(5,6) by (simp_all add: word_le_def)
  obtain sys where sys: "mixdk_init env boot (word_of_int (dr_thread_num dr)) = Some (0, Some sys)"
    by (rule mixdk_init_system [OF assms(1,2) w]) blast
  have "create_threads created n 0 (2 * n) = Inl (PidsOverrun n)"
    using create_threads_overrun [of n 0 "2 * n" created] n(1) assms(4) by simp
  moreover have "\<exists>xs. fill_idx 0 (2 * n) (replicate 16 0) = Inr xs" if "n \<le> 8"
    using that by (intro fill_idx_full) simp
  moreover have "fill_idx 0 (2 * n) (replicate 16 0) = Inl (IdxOverrun 16)" if "\<not> n \<le> 8"
    using fill_idx_overrun [of "replicate 16 0" 0 "2 * n"] that by simp
  ultimately show ?thesis
    using False assms(3,7) sys n(2-4) by (auto simp: main_start_def n_def)
qed

theorem benchmark_overruns_arrays_witness:
  "main_start ram_env (ram_boot (\<lambda>_. [])) (\<lambda>_. True) [''main'', ''4'', ''1000'', ''1'', ''x'', ''path'', ''ssd_write''] = Inl (PidsOverrun 4) \<and>
   main_start ram_env (ram_boot (\<lambda>_. [])) (\<lambda>_. True) [''main'', ''9'', ''1000'', ''1'', ''x'', ''path'', ''ssd_write''] = Inl (IdxOverrun 16)"
proof -
  let ?argv = "\<lambda>n. [''main'', n, ''1000'', ''1'', ''x'', ''path'', ''ssd_write'']"
  obtain dr dr' where "parse_args (?argv ''4'') = Some dr" "dr_thread_num dr = 4" "dr_nblock dr = 1"
      "parse_args (?argv ''9'') = Some dr'" "dr_thread_num dr' = 9" "dr_nblock dr' = 1"
    by (simp add: parse_args_def select_func_def)
  then show ?thesis
    using benchmark_overruns_arrays [OF ram_env_ok(1) ram_boot_good, of "?argv ''4''" dr "\<lambda>_. True" _ "\<lambda>_. []"]
      benchmark_overruns_arrays [OF ram_env_ok(1) ram_boot_good, of "?argv ''9''" dr' "\<lambda>_. True" _ "\<lambda>_. []"] by (simp add: alloc_buf_def)
qed

lemma stripe_tasks_clearing:
  "(w, t) \<in> set (stripe_tasks junk task off end0 i idx n) \<Longrightarrow> 0 \<le> idx \<Longrightarrow> idx < 4 \<Longrightarrow>
     w < 4 \<and> task_opcode t = task_opcode task \<and> task_type t = task_type task"
proof (induction n arbitrary: i idx)
  case (Suc n)
  have "0 \<le> (idx + 1) AND 3" "(idx + 1) AND 3 < 4" by (simp_all add: and_3)
  note IH = Suc.IH [OF _ this]
  from Suc.prems(1) consider "w = nat idx" "task_opcode t = task_opcode task" "task_type t = task_type task"
    | "(w, t) \<in> set (stripe_tasks junk task off end0 (Suc i) ((idx + 1) AND 3) n)"
    by (simp only: stripe_tasks.simps Let_def split: if_splits) auto
  then show ?case
  proof cases
    case 1
    then show ?thesis using Suc.prems(2,3) by simp
  next
    case 2
    then show ?thesis by (rule IH)
  qed
qed simp

lemma call_clears_clearing:
  assumes "(w, t) \<in> set (call_clears junk dc)" "dc_flags dc = 0"
  shows "w < 4 \<and> clearing t"
proof -
  define x where "x = (dc_offset dc - sched_threshold) div stripe_size mod BUFFER_QUEUE_NUM"
  have "unat x < 4" by (simp add: x_def unat_mod BUFFER_QUEUE_NUM_def)
  then have "int (unat x) < 4" by (simp del: of_nat_unat)
  then have "0 \<le> uint x" "uint x < 4" by simp_all
  note st = stripe_tasks_clearing [OF _ this]
  let ?t = "large_task (dc_buf dc) (dc_len dc) (dc_offset dc) (dc_flags dc) (dc_slot dc)"
  have "w < 4 \<and> task_opcode t = task_opcode ?t \<and> task_type t = task_type ?t"
    using assms(1) st unfolding call_clears_def mix_post_task_to_buffer_tasks_def by (auto simp: Let_def large_task_def x_def)
  then show ?thesis
    using assms(2) by (simp add: clearing_def large_task_def MIX_READ_def MIX_WRITE_def MIX_CLEAR_def)
qed

text \<open>What the threads of the benchmark of writes behind the threshold do is allowed.\<close>

lemma benchmark_action:
  assumes a: "driver_action dr buf1 buf2 a" and dr: "dr_func dr = Some WriteCall" "dr_offset dr = 2000000"
    and n: "1 \<le> dr_nblock dr" "4096 * dr_nblock dr < 2 ^ 31" "1 \<le> dr_thread_num dr" "dr_thread_num dr \<le> 8"
    and len: "int (length buf1) = 4096 * dr_nblock dr" "4096 \<le> length buf2"
    and cap: "\<And>s k n d. a = WriteSsd s k n d \<Longrightarrow> k + n \<le> cap"
  shows "good_action (3 * 1024 * 1024) cap True a"
proof (cases "\<exists>w t. a = PostClear w t \<or> a = Poll w \<or> a = Return w")
  case True
  have "dc_flags dc = 0" if "driver_makes dr buf1 buf2 WriteCall dc" for dc
    using that by (auto simp: driver_makes_def ssd_write_call_def nvm_write_call_def split: if_splits)
  then show ?thesis using True a call_clears_clearing by auto
next
  case False
  then have "driver_calls dr buf1 buf2 a" using a by (cases a) auto
  then obtain idx i dc where c: "call_action WriteCall dc = Some a"
    "idx < nat (dr_thread_num dr) \<and> ssd_write_call dr buf1 idx i = Some dc \<or>
     idx < nat (2 * dr_thread_num dr) \<and> nvm_write_call buf2 idx i = Some dc"
    using dr(1) by (auto simp: driver_calls_def driver_makes_def)
  have idx: "idx < 16" using c(2) n(3,4) by auto
  from c(2) show ?thesis
  proof (elim disjE conjE)
    assume w: "ssd_write_call dr buf1 idx i = Some dc"
    define m where "m = nat (dr_nblock dr)"
    define k where "k = 71235 + i * m"
    have m: "dr_nblock dr = int m" "1 \<le> m" "m < 2 ^ 19" using n(1,2) by (simp_all add: m_def)
    have im: "i * m < 2 ^ 31" and dc: "dc_buf dc = buf1" "dc_len dc = of_nat m" "dc_slot dc = idx" "dc_offset dc = of_nat (k + 1928765)"
      using w dr(2) m(1) by (auto simp: ssd_write_call_def int_ok_def k_def simp flip: of_nat_mult split: if_splits)
    have k: "k < 2 ^ 32 - 1" "k + m < 2 ^ 63" "m < 2 ^ 31" using im m(3) by (simp_all add: k_def)
    have u: "unat (of_nat k :: u64) = k" "unat (of_nat m :: u64) = m" using k by (simp_all add: unsigned_of_nat take_bit_nat_eq_self)
    have m1: "(of_nat m :: u64) = 1 \<longleftrightarrow> m = 1" using u(2) by (metis of_nat_1 unat_1)
    have b: "length buf1 = m * 4096" using len(1) m(1) by simp
    have "a = (if m = 1 then Call (BufferWrite idx k buf1) else WriteSsd idx k m buf1)"
      using c(1) m(2) unfolding call_action_def dc ssd_range(2) [OF k(2)] if_not_P [OF ssd_range(1) [OF k(2)]]
      by (auto simp: u m1 split: if_splits)
    then show ?thesis using idx k b cap by auto
  next
    assume w: "nvm_write_call buf2 idx i = Some dc"
    then have dc: "dc_buf dc = buf2" "dc_len dc = 1" "dc_slot dc = idx" "dc_offset dc = of_nat (i mod 10000)"
      by (auto simp: nvm_write_call_def split: if_splits)
    have m: "i mod 10000 < 10000" by simp
    have u: "unat (of_nat (i mod 10000) :: u64) = i mod 10000" using m by (simp add: unsigned_of_nat take_bit_nat_eq_self)
    have "dc_offset dc + dc_len dc < sched_threshold" unfolding dc using below_threshold [of "i mod 10000" 1] m by simp
    then have "a = Call (NvmWrite idx (i mod 10000) 1 buf2)" using c(1) u by (simp add: call_action_def dc)
    moreover have "i mod 10000 < 1928764" "i mod 10000 \<le> 3145727" using m by linarith+
    ultimately show ?thesis using idx len(2) by simp
  qed
qed

text \<open>C13. With at most eight threads the benchmark of writes behind the threshold is a run of \<open>Concurrent\<close>,
  whether a call writes one block or more and however often segments are migrated: every interleaving of the
  steps of its threads with the workers gives what the same requests give one after the other on the disk of
  the specification, as long as the SSD is large enough, and the memory of the four flags of migrations,
  which the start does not clear, does not hold four times true.\<close>

theorem benchmark_writes_are_atomic:
  assumes "platform env blk cap ts" "good_boot boot mem ssd" "parse_args argv = Some dr" "argv ! 6 = ''ssd_write''"
    "1 \<le> dr_nblock dr" "1 \<le> dr_thread_num dr" "dr_thread_num dr \<le> 8" "alloc_buf (dr_nblock dr) = Some buf1" "4096 \<le> length buf2"
    "\<forall>a \<in> set acts. driver_action dr buf1 buf2 a" "\<forall>s k n d. WriteSsd s k n d \<in> set acts \<longrightarrow> k + n \<le> cap"
    "i < 4" "\<not> boot_old_segs boot ! i"
  shows "\<exists>sys sys' calls hist ph. mixdk_init env boot (word_of_int (dr_thread_num dr)) = Some (0, Some sys) \<and>
    run_actions env ts acts (sys, replicate 16 None) = Some ((sys', calls), hist) \<and>
    legal hist (\<lambda>_. Idle) = Some ph \<and> disk_of blk sys' = fold effect hist (disk_of blk sys)"
proof -
  have dr: "dr_func dr = Some WriteCall" "dr_offset dr = 2000000"
    using assms(3,4) by (auto simp: parse_args_def select_func_def nvm_block_num_def split: if_splits)
  have b: "int (length buf1) = 4096 * dr_nblock dr" "4096 * dr_nblock dr < 2 ^ 31" using assms(8) by (auto simp: alloc_buf_def split: if_splits)
  define w where "w = (word_of_int (dr_thread_num dr) :: u8)"
  have "uint w = dr_thread_num dr" using assms(6,7) by (simp add: w_def uint_word_of_int)
  then have n: "1 \<le> w" "w \<le> 16" using assms(6,7) by (simp_all add: word_le_def)
  have cpy: "pmem_copies (env_cpy env)" using assms(1) by (simp add: platform_def)
  obtain sys where s: "mixdk_init env boot w = Some (0, Some sys)" "idle sys" "sys_queue_size sys = 4096"
    "\<And>i. i < 4 \<Longrightarrow> seg_inv i 0 (sys_store sys)" "nvm_blocks (sys_nvm sys) = 3 * 1024 * 1024"
    "unat (md_per_block_num (sys_meta sys)) = 512" "length (sys_inflight sys) = 16" "length (sys_out sys) = 16"
    "length (md_segments (sys_meta sys)) = 4" "\<And>i. i < 4 \<Longrightarrow> sg_migration (md_segments (sys_meta sys) ! i) = boot_old_segs boot ! i"
    by (rule mixdk_init_system [OF cpy assms(2) n]) blast
  have "ssd_open (sys_meta sys) 4" using s(9,10) assms(12,13) by (auto simp: ssd_open_def)
  then have o: "mix_buffer_migrating (sys_meta sys) = Some False" by (rule ssd_open_migrating)
  have "allowed cap sys a" if "a \<in> set acts" for a
  proof -
    have "k + n \<le> cap" if "a = WriteSsd s k n d" for s k n d using assms(11) that \<open>a \<in> set acts\<close> by metis
    from benchmark_action [OF _ dr assms(5) b(2) assms(6,7) b(1) assms(9) this] show ?thesis using assms(10) that s(5) o by simp
  qed
  moreover have "store_ok sys" by (rule fresh_store_ok) (rule s(4))
  ultimately have "ready cap acts sys" using s by (simp add: ready_def)
  from run_is_atomic [OF assms(1) this] show ?thesis using s(1) unfolding w_def by blast
qed

text \<open>A run with one thread of each kind, two blocks per call.\<close>

theorem benchmark_writes_are_atomic_witness:
  "\<exists>sys sys' calls hist ph t. mixdk_init ram_env (ram_boot (\<lambda>_. [])) 1 = Some (0, Some sys) \<and>
     run_actions ram_env [0..<8] [PostClear 0 t, Call (NvmWrite 1 0 1 (replicate 4096 0)), Poll 0, WriteSsd 0 71235 2 (replicate 8192 99), Poll 0]
       (sys, replicate 16 None) = Some ((sys', calls), hist) \<and>
     legal hist (\<lambda>_. Idle) = Some ph \<and> disk_of id sys' = fold effect hist (disk_of id sys)"
proof -
  let ?argv = "[''main'', ''1'', ''1000'', ''2'', ''x'', ''path'', ''ssd_write'']"
  let ?b1 = "replicate 8192 99 :: u8 list" and ?b2 = "replicate 4096 0 :: u8 list"
  define dr where "dr = \<lparr>dr_thread_num = 1, dr_task_num = 1000, dr_nblock = 2, dr_func = Some WriteCall, dr_offset = 2000000\<rparr>"
  have p: "parse_args ?argv = Some dr" by (simp add: parse_args_def select_func_def nvm_block_num_def dr_def)
  define dc where "dc = \<lparr>dc_buf = ?b1, dc_len = 2, dc_offset = 2000000, dc_flags = 0, dc_slot = 0\<rparr>"
  have dc: "ssd_write_call dr ?b1 0 0 = Some dc" by (simp add: ssd_write_call_def int_ok_def dr_def dc_def)
  have dk: "dr_func dr = Some WriteCall" by (simp add: dr_def)
  have dn: "nvm_write_call ?b2 1 0 = Some \<lparr>dc_buf = ?b2, dc_len = 1, dc_offset = 0, dc_flags = 0, dc_slot = 1\<rparr>"
    by (simp add: nvm_write_call_def int_ok_def)
  have m: "driver_makes dr ?b1 ?b2 WriteCall dc" by (rule ssd_thread_makes [OF dk dc]) (simp add: dr_def)
  have c: "call_action WriteCall dc = Some (WriteSsd 0 71235 2 ?b1)" by (simp add: call_action_def sched_threshold_def dc_def)
  define lt where "lt = large_task (dc_buf dc) (dc_len dc) (dc_offset dc) (dc_flags dc) (dc_slot dc)"
  have lt: "task_offset lt = 71235" "task_len lt = 2" by (simp_all add: lt_def large_task_def dc_def sched_threshold_def)
  have "call_clears junk dc = map (\<lambda>i. ((71235 div 4 + i) mod 4, junk\<lparr>task_inflight := task_inflight lt, task_opcode := task_opcode lt,
      task_type := task_type lt, task_offset := of_nat (71235 + i), task_len := of_nat ((2 + 3 - i) div 4),
      task_original := Some (task_inflight lt)\<rparr>))
      (filter (\<lambda>i. i < 2) [0..<4])" for junk
    unfolding call_clears_def lt_def [symmetric] by (rule stripe_tasks_of_request) (simp_all add: lt)
  then obtain t where t: "(0, t) \<in> set (call_clears (small_write 0 []) dc)" by (simp add: upt_rec)
  let ?acts = "[PostClear 0 t, Call (NvmWrite 1 0 1 ?b2), Poll 0, WriteSsd 0 71235 2 ?b1, Poll 0]"
  have "driver_calls dr ?b1 ?b2 (WriteSsd 0 71235 2 ?b1)" using m c unfolding driver_calls_def by blast
  moreover have "driver_makes dr ?b1 ?b2 WriteCall \<lparr>dc_buf = ?b2, dc_len = 1, dc_offset = 0, dc_flags = 0, dc_slot = 1\<rparr>"
    by (rule nvm_thread_makes [OF dk dn]) (simp_all add: dr_def)
  then have "driver_calls dr ?b1 ?b2 (Call (NvmWrite 1 0 1 ?b2))"
    unfolding driver_calls_def by (intro exI conjI, assumption) (simp add: call_action_def sched_threshold_def)
  moreover have "driver_action dr ?b1 ?b2 (PostClear 0 t)" using m c t by auto
  ultimately have acts: "\<forall>a \<in> set ?acts. driver_action dr ?b1 ?b2 a" by simp
  have a: "?argv ! 6 = ''ssd_write''" "1 \<le> dr_nblock dr" "1 \<le> dr_thread_num dr" "dr_thread_num dr \<le> 8"
    "alloc_buf (dr_nblock dr) = Some ?b1" "4096 \<le> length ?b2"
    by (simp_all add: dr_def alloc_buf_def)
  have n: "(word_of_int (dr_thread_num dr) :: u8) = 1" by (simp add: dr_def)
  have d: "platform ram_env id 100000 [0..<8]" by (rule ram_platform) simp
  have f: "\<forall>s k n d. WriteSsd s k n d \<in> set ?acts \<longrightarrow> k + n \<le> 100000" "0 < (4 :: nat)" "\<not> boot_old_segs (ram_boot (\<lambda>_. [])) ! 0"
    by (simp_all add: ram_boot_def)
  from benchmark_writes_are_atomic [OF d ram_boot_good p a acts f] show ?thesis unfolding n by blast
qed

text \<open>In the modes for the NVM area the threads that are meant for the SSD start at block 0 and run into the
  threshold of the scheduler: the call that reaches it is sent to the SSD with an offset that has wrapped
  around below 0.\<close>

lemma nvm_benchmark_wraps:
  assumes "parse_args argv = Some dr" "argv ! 6 = ''nvm_read''" "dr_nblock dr = int n" "0 < n" "n < 2 ^ 19"
    "i = 1928764 div n" "mix_buffer_migrating (sys_meta sys) = Some False" "slot < length (sys_inflight sys)" "slot < length (sys_out sys)"
  shows "\<exists>dc. ssd_write_call dr buf1 slot i = Some dc \<and> call_func env ts ws junk (dr_func dr) dc sys =
    map_option (\<lambda>bytes. (sys\<lparr>sys_inflight := (sys_inflight sys)[slot := int n], sys_out := (sys_out sys)[slot := bytes],
      sys_read_ptrs := (sys_read_ptrs sys)[slot := (True, True)]\<rparr>, of_nat n))
      (env_ssd_read env (sys_ssd sys) (of_nat n) (of_nat (2 ^ 64 - (1928765 - i * n))) (MIX_READ OR 0))"
proof -
  have dr: "dr_func dr = Some ReadCall" "dr_offset dr = 0"
    using assms(1,2) by (auto simp: parse_args_def select_func_def split: if_splits)
  have off: "i * n < 1928765" "1928765 \<le> i * n + n" "i * n + n < 2 ^ 31"
  proof -
    have "i * n + 1928764 mod n = 1928764" unfolding assms(6) by simp
    moreover have "1928764 mod n < n" using assms(4) by simp
    ultimately show "i * n < 1928765" "1928765 \<le> i * n + n" "i * n + n < 2 ^ 31" using assms(5) by simp_all
  qed
  have "i < 1928765" using assms(4) le_less_trans [OF _ off(1), of i] by simp
  then have "i < 2 ^ 31" by simp
  then have "int_ok (int i)" "int_ok (int i * int n)" using off(1) by (simp_all add: int_ok_def flip: of_nat_mult)
  then have "ssd_write_call dr buf1 slot i = Some \<lparr>dc_buf = buf1, dc_len = of_nat n, dc_offset = of_nat (i * n), dc_flags = 0, dc_slot = slot\<rparr>"
    using assms(3) dr(2) by (simp add: ssd_write_call_def flip: of_nat_mult)
  then show ?thesis
    using straddling_read_wraps [OF off assms(7-9) no_flags, of env ts ws junk] dr(1) by (simp add: call_func_def del: of_nat_mult)
qed

end
