(* ===== verification/Benchmark.thy ===== *)
theory Benchmark
  imports Driver
begin

text \<open>
  The threads of the benchmark \<open>src/src/main.c\<close> and how \<open>main\<close> starts and stops them: a barrier on
  \<open>threads_start\<close>, calls until \<open>threads_end\<close> is set, and the joins. Every access to one of the two shared
  variables and every call of \<open>func\<close> is a step; a loop that only waits is a step that is not possible yet. Which
  calls return is a parameter. Twice the number of threads is taken to fit an \<open>int\<close>, and the
  arrays \<open>pids\<close> and \<open>idx\<close> are taken to be large enough (\<open>benchmark_overruns_arrays\<close> shows that they are not).
\<close>

section \<open>The steps\<close>

text \<open>Where a thread is: not created, before its increment, at the barrier, at the test of \<open>threads_end\<close> with
  \<open>i\<close> calls made, in call \<open>i\<close>, at its end, or stopped by an overflow or the null pointer \<open>func\<close>.\<close>

datatype bench_pc = NotCreated | Starting | Waits | Tests nat | Calls nat | Ended nat | Stopped

datatype main_pc = Create nat | Clock | Join nat | MainDone

record bench =
  bn_main :: main_pc
  bn_threads :: "bench_pc list"
  bn_start :: int
  bn_end :: bool
  bn_made :: "(call_kind \<times> driver_call) list"

definition bench_init :: "driver \<Rightarrow> bench" where
  "bench_init dr = \<lparr>bn_main = Create 0, bn_threads = replicate (nat (2 * dr_thread_num dr)) NotCreated, bn_start = 0, bn_end = False, bn_made = []\<rparr>"

definition at_pc :: "nat \<Rightarrow> bench_pc \<Rightarrow> bench \<Rightarrow> bench" where
  "at_pc idx pc st = st\<lparr>bn_threads := (bn_threads st)[idx := pc]\<rparr>"

text \<open>A call of \<open>func\<close> in iteration \<open>i\<close>.\<close>

definition make_call :: "driver \<Rightarrow> nat \<Rightarrow> nat \<Rightarrow> driver_call option \<Rightarrow> bench \<Rightarrow> bench" where
  "make_call dr idx i dc st =
     (case (dr_func dr, dc) of
        (Some kind, Some dc) \<Rightarrow> (at_pc idx (Calls i) st)\<lparr>bn_made := bn_made st @ [(kind, dc)]\<rparr>
      | _ \<Rightarrow> at_pc idx Stopped st)"

text \<open>The two functions of the threads differ in the call they make. \<open>returns idx i\<close> says whether call \<open>i\<close> of
  thread \<open>idx\<close> ever returns: a call waits for its worker, and a worker can be blocked for good
  (\<open>Migrate_Protocol\<close>).\<close>

definition bench_thread :: "driver \<Rightarrow> (nat \<Rightarrow> nat \<Rightarrow> bool) \<Rightarrow> (nat \<Rightarrow> driver_call option) \<Rightarrow> nat \<Rightarrow> bench \<Rightarrow> bench option" where
  "bench_thread dr returns call idx st =
     (case bn_threads st ! idx of
        Starting \<Rightarrow> Some ((at_pc idx Waits st)\<lparr>bn_start := bn_start st + 1\<rparr>)
      | Waits \<Rightarrow> if bn_start st < 2 * dr_thread_num dr then None else Some (at_pc idx (Tests 0) st)
      | Tests i \<Rightarrow> Some (if \<not> bn_end st then make_call dr idx i (call i) st else at_pc idx (Ended i) st)
      | Calls i \<Rightarrow> if returns idx i then Some (at_pc idx (Tests (Suc i)) st) else None
      | _ \<Rightarrow> None)"

definition ssd_write :: "driver \<Rightarrow> (nat \<Rightarrow> nat \<Rightarrow> bool) \<Rightarrow> u8 list \<Rightarrow> nat \<Rightarrow> bench \<Rightarrow> bench option" where
  "ssd_write dr returns buf1 idx = bench_thread dr returns (ssd_write_call dr buf1 idx) idx"

definition nvm_write :: "driver \<Rightarrow> (nat \<Rightarrow> nat \<Rightarrow> bool) \<Rightarrow> u8 list \<Rightarrow> nat \<Rightarrow> bench \<Rightarrow> bench option" where
  "nvm_write dr returns buf2 idx = bench_thread dr returns (nvm_write_call buf2 idx) idx"

text \<open>\<open>main\<close> from the loops over \<open>pthread_create\<close> on; \<open>time\<close> is what it reads from the clock. When it returns, the
  process ends.\<close>

definition main_threads :: "driver \<Rightarrow> (nat \<Rightarrow> bool) \<Rightarrow> nat \<Rightarrow> bench \<Rightarrow> bench option" where
  "main_threads dr created time st =
     (case bn_main st of
        Create k \<Rightarrow>
          if int k < 2 * dr_thread_num dr
          then Some (if created k then (at_pc k Starting st)\<lparr>bn_main := Create (Suc k)\<rparr> else st\<lparr>bn_main := MainDone\<rparr>)
          else if bn_start st < 2 * dr_thread_num dr then None else Some (st\<lparr>bn_main := Clock\<rparr>)
      | Clock \<Rightarrow> Some (if time < 2000000 then st else st\<lparr>bn_end := True, bn_main := Join 0\<rparr>)
      | Join k \<Rightarrow>
          if int k < 2 * dr_thread_num dr
          then (case bn_threads st ! k of Ended i \<Rightarrow> Some (st\<lparr>bn_main := Join (Suc k)\<rparr>) | _ \<Rightarrow> None)
          else Some (st\<lparr>bn_main := MainDone\<rparr>)
      | MainDone \<Rightarrow> None)"

inductive bench_step :: "driver \<Rightarrow> (nat \<Rightarrow> bool) \<Rightarrow> (nat \<Rightarrow> nat \<Rightarrow> bool) \<Rightarrow> u8 list \<Rightarrow> u8 list \<Rightarrow> bench \<Rightarrow> bench \<Rightarrow> bool"
  for dr created returns buf1 buf2 where
  main: "main_threads dr created time st = Some st' \<Longrightarrow> bench_step dr created returns buf1 buf2 st st'"
| ssd: "bn_main st \<noteq> MainDone \<Longrightarrow> int idx < dr_thread_num dr \<Longrightarrow> ssd_write dr returns buf1 idx st = Some st' \<Longrightarrow>
    bench_step dr created returns buf1 buf2 st st'"
| nvm: "bn_main st \<noteq> MainDone \<Longrightarrow> dr_thread_num dr \<le> int idx \<Longrightarrow> int idx < 2 * dr_thread_num dr \<Longrightarrow>
    nvm_write dr returns buf2 idx st = Some st' \<Longrightarrow> bench_step dr created returns buf1 buf2 st st'"

text \<open>A schedule: who moves, and what \<open>main\<close> reads from the clock.\<close>

datatype bench_move = MainMoves nat | ThreadMoves nat

fun bench_exec :: "driver \<Rightarrow> (nat \<Rightarrow> bool) \<Rightarrow> (nat \<Rightarrow> nat \<Rightarrow> bool) \<Rightarrow> u8 list \<Rightarrow> u8 list \<Rightarrow> bench_move list \<Rightarrow> bench \<Rightarrow> bench option" where
  "bench_exec dr created returns buf1 buf2 [] st = Some st"
| "bench_exec dr created returns buf1 buf2 (MainMoves time # ms) st =
     main_threads dr created time st \<bind> bench_exec dr created returns buf1 buf2 ms"
| "bench_exec dr created returns buf1 buf2 (ThreadMoves idx # ms) st =
     (if bn_main st = MainDone \<or> 2 * dr_thread_num dr \<le> int idx then None
      else (if int idx < dr_thread_num dr then ssd_write dr returns buf1 idx st else nvm_write dr returns buf2 idx st) \<bind>
        bench_exec dr created returns buf1 buf2 ms)"

lemma bench_exec_steps: "bench_exec dr created returns buf1 buf2 ms st = Some st' \<Longrightarrow> (bench_step dr created returns buf1 buf2)\<^sup>*\<^sup>* st st'"
proof (induction ms arbitrary: st)
  case (Cons m ms)
  obtain st1 where "bench_step dr created returns buf1 buf2 st st1" "bench_exec dr created returns buf1 buf2 ms st1 = Some st'"
    using Cons.prems bench_step.intros by (cases m) (fastforce split: if_splits bind_splits simp: not_less not_le)+
  then show ?case using Cons.IH by (metis converse_rtranclp_into_rtranclp)
qed simp

abbreviation bench_reach :: "driver \<Rightarrow> (nat \<Rightarrow> bool) \<Rightarrow> (nat \<Rightarrow> nat \<Rightarrow> bool) \<Rightarrow> u8 list \<Rightarrow> u8 list \<Rightarrow> bench \<Rightarrow> bool" where
  "bench_reach dr created returns buf1 buf2 \<equiv> (bench_step dr created returns buf1 buf2)\<^sup>*\<^sup>* (bench_init dr)"

section \<open>The invariant\<close>

fun counted :: "bench_pc \<Rightarrow> bool" where
  "counted NotCreated = False"
| "counted Starting = False"
| "counted _ = True"

fun past_barrier :: "bench_pc \<Rightarrow> bool" where
  "past_barrier NotCreated = False"
| "past_barrier Starting = False"
| "past_barrier Waits = False"
| "past_barrier _ = True"

fun finished :: "bench_pc \<Rightarrow> bool" where
  "finished (Ended i) = True"
| "finished _ = False"

fun main_ok :: "nat \<Rightarrow> main_pc \<Rightarrow> bench \<Rightarrow> bool" where
  "main_ok m (Create k) st \<longleftrightarrow> k \<le> m \<and> \<not> bn_end st \<and> (\<forall>j < m. bn_threads st ! j = NotCreated \<longleftrightarrow> k \<le> j)"
| "main_ok m Clock st \<longleftrightarrow> \<not> bn_end st \<and> bn_start st = int m"
| "main_ok m (Join k) st \<longleftrightarrow> bn_end st \<and> bn_start st = int m \<and> k \<le> m \<and> (\<forall>j < k. finished (bn_threads st ! j))"
| "main_ok m MainDone st \<longleftrightarrow> bn_end st \<longrightarrow> (\<forall>j < m. finished (bn_threads st ! j))"

definition bench_ok :: "driver \<Rightarrow> u8 list \<Rightarrow> u8 list \<Rightarrow> bench \<Rightarrow> bool" where
  "bench_ok dr buf1 buf2 st \<longleftrightarrow> int (length (bn_threads st)) = 2 * dr_thread_num dr \<and>
     bn_start st = int (length (filter counted (bn_threads st))) \<and>
     (\<forall>t \<in> set (bn_threads st). past_barrier t \<longrightarrow> bn_start st = 2 * dr_thread_num dr) \<and>
     (\<forall>t \<in> set (bn_threads st). finished t \<longrightarrow> bn_end st) \<and>
     (bn_made st \<noteq> [] \<longrightarrow> bn_start st = 2 * dr_thread_num dr) \<and>
     (\<forall>(kind, dc) \<in> set (bn_made st). driver_makes dr buf1 buf2 kind dc) \<and>
     main_ok (length (bn_threads st)) (bn_main st) st"

lemma counted_update:
  "i < length ts \<Longrightarrow> int (length (filter P (ts[i := pc]))) =
     int (length (filter P ts)) - of_bool (P (ts ! i)) + of_bool (P pc)"
proof (induction ts arbitrary: i)
  case (Cons a ts)
  then show ?case using Cons.IH [of "i - 1"] by (cases i) simp_all
qed simp

text \<open>What a step of a thread does to the shared variables.\<close>

lemma bench_thread_effect:
  assumes "bench_thread dr returns call idx st = Some st'"
  obtains pc where "bn_threads st' = (bn_threads st)[idx := pc]" "bn_main st' = bn_main st" "bn_end st' = bn_end st"
    "bn_threads st ! idx \<noteq> NotCreated" "pc \<noteq> NotCreated" "\<not> finished (bn_threads st ! idx)" "finished pc \<Longrightarrow> bn_end st"
    "bn_start st' = bn_start st - of_bool (counted (bn_threads st ! idx)) + of_bool (counted pc)"
    "counted (bn_threads st ! idx) \<Longrightarrow> counted pc"
    "past_barrier pc \<Longrightarrow> counted (bn_threads st ! idx) \<and> (past_barrier (bn_threads st ! idx) \<or> 2 * dr_thread_num dr \<le> bn_start st)"
    "bn_made st' = bn_made st \<or> past_barrier pc \<and>
       (\<exists>kind i dc. dr_func dr = Some kind \<and> call i = Some dc \<and> bn_made st' = bn_made st @ [(kind, dc)])"
  using assms
  by (cases "bn_threads st ! idx")
    (force simp: bench_thread_def at_pc_def make_call_def split: if_splits option.splits intro: that)+

lemma counted_bound: "length (filter P ts) = length ts \<Longrightarrow> i < length ts \<Longrightarrow> P (ts ! i)"
  using length_filter_less [of "ts ! i" ts P] by fastforce

lemma bench_counts:
  assumes "bench_ok dr buf1 buf2 st"
  shows "int (length (bn_threads st)) = 2 * dr_thread_num dr" "bn_start st = int (length (filter counted (bn_threads st)))"
    "bn_start st \<le> int (length (bn_threads st))" "main_ok (length (bn_threads st)) (bn_main st) st"
proof -
  show start: "bn_start st = int (length (filter counted (bn_threads st)))" using assms by (simp add: bench_ok_def)
  then show "bn_start st \<le> int (length (bn_threads st))" by simp
qed (use assms in \<open>simp_all add: bench_ok_def\<close>)

lemma bench_thread_ok:
  assumes ok: "bench_ok dr buf1 buf2 st" and run: "bn_main st \<noteq> MainDone" and idx: "idx < length (bn_threads st)"
    and step: "bench_thread dr returns call idx st = Some st'"
    and call: "\<And>kind i dc. dr_func dr = Some kind \<Longrightarrow> call i = Some dc \<Longrightarrow> driver_makes dr buf1 buf2 kind dc"
  shows "bench_ok dr buf1 buf2 st'"
proof -
  let ?m = "length (bn_threads st)"
  obtain pc where e: "bn_threads st' = (bn_threads st)[idx := pc]" "bn_main st' = bn_main st" "bn_end st' = bn_end st"
    "bn_threads st ! idx \<noteq> NotCreated" "pc \<noteq> NotCreated" "\<not> finished (bn_threads st ! idx)" "finished pc \<Longrightarrow> bn_end st"
    "bn_start st' = bn_start st - of_bool (counted (bn_threads st ! idx)) + of_bool (counted pc)"
    "counted (bn_threads st ! idx) \<Longrightarrow> counted pc"
    "past_barrier pc \<Longrightarrow> counted (bn_threads st ! idx) \<and> (past_barrier (bn_threads st ! idx) \<or> 2 * dr_thread_num dr \<le> bn_start st)"
    "bn_made st' = bn_made st \<or> past_barrier pc \<and>
       (\<exists>kind i dc. dr_func dr = Some kind \<and> call i = Some dc \<and> bn_made st' = bn_made st @ [(kind, dc)])"
    by (rule bench_thread_effect [OF step]) blast
  note m = bench_counts [OF ok]
  have start: "bn_start st' = int (length (filter counted (bn_threads st')))"
    using counted_update [OF idx, of counted pc] e(1,8) m(2) by simp
  have full: "bn_start st' = int ?m" if "bn_start st = int ?m"
  proof -
    have "length (filter counted (bn_threads st)) = ?m" using that m(2) by simp
    then have "counted (bn_threads st ! idx)" using idx by (rule counted_bound)
    then show ?thesis using e(8,9) that by simp
  qed
  have past: "bn_start st = int ?m" if "past_barrier pc"
    using e(10) [OF that] ok m idx by (auto simp: bench_ok_def)
  have "past_barrier t \<longrightarrow> bn_start st' = 2 * dr_thread_num dr" if "t \<in> set (bn_threads st')" for t
  proof -
    have "t = pc \<or> t \<in> set (bn_threads st)" using that set_update_subset_insert [of "bn_threads st" idx pc] unfolding e(1) by blast
    then show ?thesis using past full ok m(1) by (auto simp: bench_ok_def)
  qed
  moreover have "finished t \<longrightarrow> bn_end st'" if "t \<in> set (bn_threads st')" for t
  proof -
    have "t = pc \<or> t \<in> set (bn_threads st)" using that set_update_subset_insert [of "bn_threads st" idx pc] unfolding e(1) by blast
    then show ?thesis using e(3,7) ok by (auto simp: bench_ok_def)
  qed
  moreover have "bn_made st' \<noteq> [] \<longrightarrow> bn_start st' = 2 * dr_thread_num dr"
    using e(11) past full ok m(1) by (auto simp: bench_ok_def)
  moreover have "\<forall>(kind, dc) \<in> set (bn_made st'). driver_makes dr buf1 buf2 kind dc"
    using e(11) call ok by (auto simp: bench_ok_def)
  moreover have "main_ok (length (bn_threads st')) (bn_main st') st'"
  proof (cases "bn_main st")
    case (Create k)
    have "bn_threads st' ! j = NotCreated \<longleftrightarrow> bn_threads st ! j = NotCreated" for j
      using e(1,4,5) idx by (cases "j = idx") simp_all
    then show ?thesis using m(4) e(1-3) by (simp add: Create)
  next
    case Clock
    then show ?thesis using m(4) e(1-3) full by simp
  next
    case (Join k)
    have "idx < k \<Longrightarrow> False" using m(4) e(6) by (simp add: Join)
    then have "bn_threads st' ! j = bn_threads st ! j" if "j < k" for j using that by (cases "j = idx") (auto simp: e(1))
    then show ?thesis using m(4) e(1-3) full by (simp add: Join)
  qed (use run in simp)
  ultimately show ?thesis using start m(1) by (simp add: bench_ok_def e(1))
qed

lemma main_threads_ok:
  assumes ok: "bench_ok dr buf1 buf2 st" and step: "main_threads dr created time st = Some st'"
  shows "bench_ok dr buf1 buf2 st'"
proof (cases "bn_main st")
  case (Create k)
  note m = bench_counts [OF ok]
  consider (new) "k < length (bn_threads st)" "st' = (at_pc k Starting st)\<lparr>bn_main := Create (Suc k)\<rparr>"
    | (fail) "st' = st\<lparr>bn_main := MainDone\<rparr>"
    | (all) "2 * dr_thread_num dr \<le> bn_start st" "st' = st\<lparr>bn_main := Clock\<rparr>"
    using step m(1) by (auto simp: main_threads_def Create split: if_splits)
  then show ?thesis
  proof cases
    case new
    have old: "bn_threads st ! k = NotCreated" using ok new(1) by (simp add: bench_ok_def Create)
    have sub: "t = Starting \<or> t \<in> set (bn_threads st)" if "t \<in> set ((bn_threads st)[k := Starting])" for t
      using that set_update_subset_insert [of "bn_threads st" k Starting] by blast
    have "length (filter counted ((bn_threads st)[k := Starting])) = length (filter counted (bn_threads st))"
      using counted_update [OF new(1), of counted Starting] old by simp
    moreover have "main_ok (length (bn_threads st)) (Create (Suc k)) st'"
      using m(4) new(1) by (auto simp: new(2) at_pc_def Create nth_list_update Suc_le_eq le_less)
    moreover have "past_barrier t \<longrightarrow> bn_start st = 2 * dr_thread_num dr" "finished t \<longrightarrow> bn_end st"
      if "t \<in> set ((bn_threads st)[k := Starting])" for t
      using sub [OF that] ok by (auto simp: bench_ok_def)
    ultimately show ?thesis
      using ok unfolding bench_ok_def new(2) at_pc_def by fastforce
  next
    case fail
    then show ?thesis using ok by (auto simp: bench_ok_def Create)
  next
    case all
    then show ?thesis using ok m(1,3,4) by (auto simp: bench_ok_def Create)
  qed
next
  case Clock
  then show ?thesis using ok step by (auto simp: main_threads_def bench_ok_def split: if_splits)
next
  case (Join k)
  then show ?thesis using ok step
    by (auto simp: main_threads_def bench_ok_def less_Suc_eq split: if_splits bench_pc.splits)
next
  case MainDone
  then show ?thesis using step by (simp add: main_threads_def)
qed

lemma bench_step_ok:
  assumes "bench_step dr created returns buf1 buf2 st st'" "bench_ok dr buf1 buf2 st"
  shows "bench_ok dr buf1 buf2 st'"
  using assms
proof (cases rule: bench_step.cases)
  case (main time)
  then show ?thesis using main_threads_ok assms(2) by blast
next
  case (ssd idx)
  have "idx < length (bn_threads st)" using assms(2) ssd(2) by (simp add: bench_ok_def)
  moreover have "idx < nat (dr_thread_num dr)" using ssd(2) by simp
  ultimately show ?thesis
    using bench_thread_ok [OF assms(2) ssd(1) _ ssd(3) [unfolded ssd_write_def]] ssd_thread_makes by blast
next
  case (nvm idx)
  have "idx < length (bn_threads st)" using assms(2) nvm(3) by (simp add: bench_ok_def)
  moreover have "nat (dr_thread_num dr) \<le> idx" "idx < nat (2 * dr_thread_num dr)" using nvm(2,3) by simp_all
  ultimately show ?thesis
    using bench_thread_ok [OF assms(2) nvm(1) _ nvm(4) [unfolded nvm_write_def]] nvm_thread_makes by blast
qed

lemma bench_reach_ok:
  assumes "0 \<le> dr_thread_num dr" "bench_reach dr created returns buf1 buf2 st"
  shows "bench_ok dr buf1 buf2 st"
  using assms(2)
proof (induction rule: rtranclp_induct)
  case base
  then show ?case using assms(1) by (simp add: bench_ok_def bench_init_def)
next
  case (step st st')
  then show ?case using bench_step_ok by blast
qed

section \<open>The end of the benchmark\<close>

text \<open>How many steps are left once \<open>threads_end\<close> is set.\<close>

fun pc_left :: "bench_pc \<Rightarrow> nat" where
  "pc_left Waits = 2"
| "pc_left (Tests i) = 1"
| "pc_left (Calls i) = 2"
| "pc_left _ = 0"

fun main_left :: "nat \<Rightarrow> main_pc \<Rightarrow> nat" where
  "main_left m (Join k) = Suc m - k"
| "main_left m _ = 0"

definition steps_left :: "bench \<Rightarrow> nat" where
  "steps_left st = main_left (length (bn_threads st)) (bn_main st) + sum_list (map pc_left (bn_threads st))"

lemma steps_left_bound: "steps_left st \<le> 3 * length (bn_threads st) + 1"
proof -
  have "main_left m pc \<le> Suc m" for m pc by (cases pc) simp_all
  moreover have "sum_list (map pc_left ts) \<le> 2 * length ts" for ts
  proof (induction ts)
    case (Cons t ts)
    have "pc_left t \<le> 2" by (cases t) simp_all
    then show ?case using Cons.IH by simp
  qed simp
  ultimately have "main_left (length (bn_threads st)) (bn_main st) + sum_list (map pc_left (bn_threads st)) \<le>
      Suc (length (bn_threads st)) + 2 * length (bn_threads st)" by (rule add_mono)
  then show ?thesis by (simp add: steps_left_def)
qed

lemma pc_left_update:
  assumes "i < length ts" "pc_left pc < pc_left (ts ! i)"
  shows "sum_list (map pc_left (ts[i := pc])) < sum_list (map pc_left ts)"
  using assms
proof (induction ts arbitrary: i)
  case (Cons t ts)
  then show ?case using Cons.IH [of "i - 1"] by (cases i) simp_all
qed simp

lemma bench_thread_left:
  assumes "bench_thread dr returns call idx st = Some st'" "bn_end st" "idx < length (bn_threads st)" "counted (bn_threads st ! idx)"
  shows "steps_left st' < steps_left st \<and> bn_end st'"
proof -
  obtain pc where "bn_threads st' = (bn_threads st)[idx := pc]" "bn_main st' = bn_main st" "bn_end st'"
    "pc_left pc < pc_left (bn_threads st ! idx)"
    using assms by (cases "bn_threads st ! idx") (auto simp: bench_thread_def at_pc_def split: if_splits)
  then show ?thesis using pc_left_update [OF assms(3)] by (simp add: steps_left_def)
qed

lemma ended_counted:
  assumes "bench_ok dr buf1 buf2 st" "bn_end st" "bn_main st \<noteq> MainDone" "idx < length (bn_threads st)"
  shows "counted (bn_threads st ! idx)"
proof -
  note m = bench_counts [OF assms(1)]
  have "bn_start st = int (length (bn_threads st))" using m(4) assms(2,3) by (cases "bn_main st") simp_all
  then have "length (filter counted (bn_threads st)) = length (bn_threads st)" using m(2) by simp
  then show ?thesis using assms(4) by (rule counted_bound)
qed

lemma bench_step_left:
  assumes ok: "bench_ok dr buf1 buf2 st" and e: "bn_end st" and step: "bench_step dr created returns buf1 buf2 st st'"
  shows "steps_left st' < steps_left st \<and> bn_end st'"
  using step
proof (cases rule: bench_step.cases)
  case (main time)
  note m = bench_counts [OF ok]
  obtain k where k: "bn_main st = Join k" "k \<le> length (bn_threads st)"
    using m(4) e main by (cases "bn_main st") (auto simp: main_threads_def)
  then show ?thesis
    using main e m(1) by (auto simp: main_threads_def steps_left_def split: if_splits bench_pc.splits)
next
  case (ssd idx)
  have idx: "idx < length (bn_threads st)" using ok ssd(2) by (simp add: bench_ok_def)
  show ?thesis by (rule bench_thread_left [OF ssd(3) [unfolded ssd_write_def] e idx ended_counted [OF ok e ssd(1) idx]])
next
  case (nvm idx)
  have idx: "idx < length (bn_threads st)" using ok nvm(3) by (simp add: bench_ok_def)
  show ?thesis by (rule bench_thread_left [OF nvm(4) [unfolded nvm_write_def] e idx ended_counted [OF ok e nvm(1) idx]])
qed

lemma bench_steps_left:
  "(bench_step dr created returns buf1 buf2 ^^ l) st st' \<Longrightarrow> bench_ok dr buf1 buf2 st \<Longrightarrow> bn_end st \<Longrightarrow> l + steps_left st' \<le> steps_left st"
proof (induction l arbitrary: st)
  case (Suc l)
  obtain st1 where 1: "bench_step dr created returns buf1 buf2 st st1" "(bench_step dr created returns buf1 buf2 ^^ l) st1 st'"
    using Suc.prems(1) by (meson relpowp_Suc_E2)
  have "bench_ok dr buf1 buf2 st1" by (rule bench_step_ok [OF 1(1) Suc.prems(2)])
  then show ?case using Suc.IH [OF 1(2)] bench_step_left [OF Suc.prems(2,3) 1(1)] by simp
qed simp

text \<open>A thread in a call that does not return.\<close>

fun stuck_call :: "(nat \<Rightarrow> nat \<Rightarrow> bool) \<Rightarrow> nat \<Rightarrow> bench_pc \<Rightarrow> bool" where
  "stuck_call returns idx (Calls i) = (\<not> returns idx i)"
| "stuck_call returns idx _ = False"

text \<open>A thread that has been created can move, unless it waits at the barrier, is in a call that does not return,
  has ended or was stopped.\<close>

lemma thread_moves:
  assumes run: "bn_main st \<noteq> MainDone" and idx: "int idx < 2 * dr_thread_num dr"
    and pc: "bn_threads st ! idx \<noteq> NotCreated" "bn_threads st ! idx \<noteq> Stopped" "\<not> finished (bn_threads st ! idx)"
      "\<not> stuck_call returns idx (bn_threads st ! idx)" "bn_threads st ! idx = Waits \<Longrightarrow> 2 * dr_thread_num dr \<le> bn_start st"
  shows "\<exists>st'. bench_step dr created returns buf1 buf2 st st'"
proof -
  have "\<exists>st'. bench_thread dr returns call idx st = Some st'" for call
    using pc by (cases "bn_threads st ! idx") (auto simp: bench_thread_def)
  then show ?thesis
    using bench_step.ssd [OF run, of idx dr returns buf1] bench_step.nvm [OF run _ idx, of returns buf2] idx
    unfolding ssd_write_def nvm_write_def by (cases "int idx < dr_thread_num dr") (fastforce simp: not_less)+
qed

lemma bench_progress:
  assumes ok: "bench_ok dr buf1 buf2 st" and "bn_main st \<noteq> MainDone" "Stopped \<notin> set (bn_threads st)"
    "\<And>idx. idx < length (bn_threads st) \<Longrightarrow> \<not> stuck_call returns idx (bn_threads st ! idx)"
  shows "\<exists>st'. bench_step dr created returns buf1 buf2 st st'"
proof -
  note m = bench_counts [OF ok]
  have main: ?thesis if "main_threads dr created time st \<noteq> None" for time
    using that bench_step.main by blast
  have live: "bn_threads st ! j \<noteq> Stopped" if "j < length (bn_threads st)" for j
    using that assms(3) nth_mem by metis
  show ?thesis
  proof (cases "bn_main st")
    case (Create k)
    show ?thesis
    proof (cases "int k < 2 * dr_thread_num dr \<or> 2 * dr_thread_num dr \<le> bn_start st")
      case True
      then show ?thesis using main [of 0] by (auto simp: main_threads_def Create)
    next
      case False
      then have "length (filter counted (bn_threads st)) < length (bn_threads st)" using m(1,2) by simp
      then obtain j where j: "j < length (bn_threads st)" "\<not> counted (bn_threads st ! j)"
        by (metis filter_True in_set_conv_nth less_irrefl)
      moreover have "bn_threads st ! j \<noteq> NotCreated" using m(1,4) j(1) False by (auto simp: Create)
      ultimately have "bn_threads st ! j = Starting" by (cases "bn_threads st ! j") simp_all
      then show ?thesis using thread_moves [OF assms(2), of j dr returns created buf1 buf2] j(1) m(1) by simp
    qed
  next
    case Clock
    then show ?thesis using main [of 0] by (simp add: main_threads_def)
  next
    case (Join k)
    show ?thesis
    proof (cases "int k < 2 * dr_thread_num dr \<and> \<not> finished (bn_threads st ! k)")
      case True
      then have k: "k < length (bn_threads st)" using m(1) by simp
      have "bn_end st" "bn_start st = int (length (bn_threads st))" using m(4) by (simp_all add: Join)
      then have "bn_threads st ! k \<noteq> NotCreated" "2 * dr_thread_num dr \<le> bn_start st"
        using ended_counted [OF ok _ assms(2) k] m(1) by auto
      then show ?thesis using thread_moves [OF assms(2), of k dr returns created buf1 buf2] live [OF k] assms(4) [OF k] True by blast
    next
      case False
      then show ?thesis using main [of 0] by (cases "bn_threads st ! k") (auto simp: main_threads_def Join)
    qed
  qed (use assms(2) in simp)
qed

text \<open>C20. The protocol of the benchmark: in every interleaving of its threads no call is made before all of them
  have passed the increment of \<open>threads_start\<close>, every call is one of those the threads are meant to make; once
  \<open>threads_end\<close> is set, at most six steps per pair of threads and one more follow; before \<open>main\<close> has returned
  a step is possible, unless a thread was stopped (by an overflow or the null pointer \<open>func\<close>) or is in a call
  that does not return; and if \<open>main\<close> has returned after the time was up, every thread had ended.\<close>

theorem benchmark_starts_and_ends:
  assumes "bench_reach dr created returns buf1 buf2 st" "1 \<le> dr_thread_num dr"
  shows "(bn_made st \<noteq> [] \<longrightarrow> list_all counted (bn_threads st)) \<and>
    list_all (\<lambda>(kind, dc). driver_makes dr buf1 buf2 kind dc) (bn_made st) \<and>
    (bn_end st \<longrightarrow> (bench_step dr created returns buf1 buf2 ^^ l) st st' \<longrightarrow> l \<le> 6 * nat (dr_thread_num dr) + 1) \<and>
    (bn_main st = MainDone \<or> Stopped \<in> set (bn_threads st) \<or>
       list_ex (\<lambda>idx. stuck_call returns idx (bn_threads st ! idx)) [0..<length (bn_threads st)] \<or> (\<exists>st'. bench_step dr created returns buf1 buf2 st st')) \<and>
    (bn_main st = MainDone \<longrightarrow> bn_end st \<longrightarrow> list_all finished (bn_threads st))"
proof -
  have ok: "bench_ok dr buf1 buf2 st" by (rule bench_reach_ok [OF _ assms(1)]) (use assms(2) in simp)
  note m = bench_counts [OF ok]
  have "list_all counted (bn_threads st)" if "bn_made st \<noteq> []"
  proof -
    have "length (filter counted (bn_threads st)) = length (bn_threads st)" using that ok m(1,2) by (simp add: bench_ok_def)
    then show ?thesis using counted_bound by (auto simp: list_all_length)
  qed
  moreover have "l \<le> 6 * nat (dr_thread_num dr) + 1" if "bn_end st" "(bench_step dr created returns buf1 buf2 ^^ l) st st'"
    using bench_steps_left [OF that(2) ok that(1)] steps_left_bound [of st] m(1) by linarith
  moreover have "list_all (\<lambda>(kind, dc). driver_makes dr buf1 buf2 kind dc) (bn_made st)"
    using ok unfolding bench_ok_def list_all_iff by blast
  moreover have "list_all finished (bn_threads st)" if "bn_main st = MainDone" "bn_end st"
    using m(4) that by (simp add: list_all_length)
  moreover have "list_ex (\<lambda>idx. stuck_call returns idx (bn_threads st ! idx)) [0..<length (bn_threads st)] \<or>
      (\<exists>st'. bench_step dr created returns buf1 buf2 st st')" if "bn_main st \<noteq> MainDone" "Stopped \<notin> set (bn_threads st)"
    using bench_progress [OF ok that, of returns created] unfolding list_ex_iff set_upt by (meson atLeastLessThan_iff zero_le)
  ultimately show ?thesis by blast
qed

text \<open>One thread of each kind; the first makes a call before the time is up.\<close>

theorem benchmark_starts_and_ends_witness:
  "\<exists>dr st. parse_args [''main'', ''1'', ''9'', ''2'', ''x'', ''p'', ''ssd_write''] = Some dr \<and>
     bench_exec dr (\<lambda>_. True) (\<lambda>_ _. True) [] [] [MainMoves 0, MainMoves 0, ThreadMoves 0, ThreadMoves 1, MainMoves 0, ThreadMoves 0,
       ThreadMoves 0, MainMoves 2000000] (bench_init dr) = Some st \<and>
     list_all counted (bn_threads st) \<and> \<not> (\<exists>st'. (bench_step dr (\<lambda>_. True) (\<lambda>_ _. True) [] [] ^^ 8) st st')"
proof -
  define dr where "dr = \<lparr>dr_thread_num = 1, dr_task_num = 9, dr_nblock = 2, dr_func = Some WriteCall, dr_offset = 2000000\<rparr>"
  define dc where "dc = \<lparr>dc_buf = [], dc_len = 2, dc_offset = 2000000, dc_flags = 0, dc_slot = 0\<rparr>"
  define st where "st = \<lparr>bn_main = Join 0, bn_threads = [Calls 0, Waits], bn_start = 2, bn_end = True, bn_made = [(WriteCall, dc)]\<rparr>"
  have p: "parse_args [''main'', ''1'', ''9'', ''2'', ''x'', ''p'', ''ssd_write''] = Some dr"
    by (simp add: parse_args_def select_func_def nvm_block_num_def dr_def)
  have run: "bench_exec dr (\<lambda>_. True) (\<lambda>_ _. True) [] [] [MainMoves 0, MainMoves 0, ThreadMoves 0, ThreadMoves 1, MainMoves 0, ThreadMoves 0,
       ThreadMoves 0, MainMoves 2000000] (bench_init dr) = Some st"
    by (simp add: dr_def bench_init_def main_threads_def ssd_write_def nvm_write_def bench_thread_def at_pc_def make_call_def
      ssd_write_call_def int_ok_def st_def dc_def numeral_2_eq_2)
  have n: "1 \<le> dr_thread_num dr" "bn_made st \<noteq> []" "bn_end st" "\<not> 8 \<le> 6 * nat (dr_thread_num dr) + 1" by (simp_all add: dr_def st_def)
  show ?thesis
    using p run n(2-4) benchmark_starts_and_ends [OF bench_exec_steps [OF run] n(1), of 8] by blast
qed

end
