(* ===== verification/Hash_Class.thy ===== *)
theory Hash_Class
  imports Mix_Hash
begin

text \<open>
  The class template \<open>Hash\<close> of \<open>src/include/mix_hash.h\<close>, the rewrite of the hash index in C++. It is not
  instantiated, and it does not compile: \<open>Record\<close> has no default constructor, a method is called
  \<open>delete\<close>, \<open>entry->push_front\<close> is applied to a list and \<open>result.value\<close> to a \<open>SearchResult\<close>. These are read as
  what they evidently mean (\<open>entry.push_front\<close>, \<open>result.record.value\<close>); everything else is as written. A
  pointer to a record is its number, \<open>None\<close> the null pointer.
\<close>

section \<open>The hash function\<close>

definition class_crc32_tab :: "u64 list" where
  "class_crc32_tab =
   [0x00000000, 0x77073096, 0xee0e612c, 0x990951ba, 0x076dc419, 0x706af48f,
    0xe963a535, 0x9e6495a3, 0x0edb8832, 0x79dcb8a4, 0xe0d5e91e, 0x97d2d988,
    0x09b64c2b, 0x7eb17cbd, 0xe7b82d07, 0x90bf1d91, 0x1db71064, 0x6ab020f2,
    0xf3b97148, 0x84be41de, 0x1adad47d, 0x6ddde4eb, 0xf4d4b551, 0x83d385c7,
    0x136c9856, 0x646ba8c0, 0xfd62f97a, 0x8a65c9ec, 0x14015c4f, 0x63066cd9,
    0xfa0f3d63, 0x8d080df5, 0x3b6e20c8, 0x4c69105e, 0xd56041e4, 0xa2677172,
    0x3c03e4d1, 0x4b04d447, 0xd20d85fd, 0xa50ab56b, 0x35b5a8fa, 0x42b2986c,
    0xdbbbc9d6, 0xacbcf940, 0x32d86ce3, 0x45df5c75, 0xdcd60dcf, 0xabd13d59,
    0x26d930ac, 0x51de003a, 0xc8d75180, 0xbfd06116, 0x21b4f4b5, 0x56b3c423,
    0xcfba9599, 0xb8bda50f, 0x2802b89e, 0x5f058808, 0xc60cd9b2, 0xb10be924,
    0x2f6f7c87, 0x58684c11, 0xc1611dab, 0xb6662d3d, 0x76dc4190, 0x01db7106,
    0x98d220bc, 0xefd5102a, 0x71b18589, 0x06b6b51f, 0x9fbfe4a5, 0xe8b8d433,
    0x7807c9a2, 0x0f00f934, 0x9609a88e, 0xe10e9818, 0x7f6a0dbb, 0x086d3d2d,
    0x91646c97, 0xe6635c01, 0x6b6b51f4, 0x1c6c6162, 0x856530d8, 0xf262004e,
    0x6c0695ed, 0x1b01a57b, 0x8208f4c1, 0xf50fc457, 0x65b0d9c6, 0x12b7e950,
    0x8bbeb8ea, 0xfcb9887c, 0x62dd1ddf, 0x15da2d49, 0x8cd37cf3, 0xfbd44c65,
    0x4db26158, 0x3ab551ce, 0xa3bc0074, 0xd4bb30e2, 0x4adfa541, 0x3dd895d7,
    0xa4d1c46d, 0xd3d6f4fb, 0x4369e96a, 0x346ed9fc, 0xad678846, 0xda60b8d0,
    0x44042d73, 0x33031de5, 0xaa0a4c5f, 0xdd0d7cc9, 0x5005713c, 0x270241aa,
    0xbe0b1010, 0xc90c2086, 0x5768b525, 0x206f85b3, 0xb966d409, 0xce61e49f,
    0x5edef90e, 0x29d9c998, 0xb0d09822, 0xc7d7a8b4, 0x59b33d17, 0x2eb40d81,
    0xb7bd5c3b, 0xc0ba6cad, 0xedb88320, 0x9abfb3b6, 0x03b6e20c, 0x74b1d29a,
    0xead54739, 0x9dd277af, 0x04db2615, 0x73dc1683, 0xe3630b12, 0x94643b84,
    0x0d6d6a3e, 0x7a6a5aa8, 0xe40ecf0b, 0x9309ff9d, 0x0a00ae27, 0x7d079eb1,
    0xf00f9344, 0x8708a3d2, 0x1e01f268, 0x6906c2fe, 0xf762575d, 0x806567cb,
    0x196c3671, 0x6e6b06e7, 0xfed41b76, 0x89d32be0, 0x10da7a5a, 0x67dd4acc,
    0xf9b9df6f, 0x8ebeeff9, 0x17b7be43, 0x60b08ed5, 0xd6d6a3e8, 0xa1d1937e,
    0x38d8c2c4, 0x4fdff252, 0xd1bb67f1, 0xa6bc5767, 0x3fb506dd, 0x48b2364b,
    0xd80d2bda, 0xaf0a1b4c, 0x36034af6, 0x41047a60, 0xdf60efc3, 0xa867df55,
    0x316e8eef, 0x4669be79, 0xcb61b38c, 0xbc66831a, 0x256fd2a0, 0x5268e236,
    0xcc0c7795, 0xbb0b4703, 0x220216b9, 0x5505262f, 0xc5ba3bbe, 0xb2bd0b28,
    0x2bb45a92, 0x5cb36a04, 0xc2d7ffa7, 0xb5d0cf31, 0x2cd99e8b, 0x5bdeae1d,
    0x9b64c2b0, 0xec63f226, 0x756aa39c, 0x026d930a, 0x9c0906a9, 0xeb0e363f,
    0x72076785, 0x05005713, 0x95bf4a82, 0xe2b87a14, 0x7bb12bae, 0x0cb61b38,
    0x92d28e9b, 0xe5d5be0d, 0x7cdcefb7, 0x0bdbdf21, 0x86d3d2d4, 0xf1d4e242,
    0x68ddb3f8, 0x1fda836e, 0x81be16cd, 0xf6b9265b, 0x6fb077e1, 0x18b74777,
    0x88085ae6, 0xff0f6a70, 0x66063bca, 0x11010b5c, 0x8f659eff, 0xf862ae69,
    0x616bffd3, 0x166ccf45, 0xa00ae278, 0xd70dd2ee, 0x4e048354, 0x3903b3c2,
    0xa7672661, 0xd06016f7, 0x4969474d, 0x3e6e77db, 0xaed16a4a, 0xd9d65adc,
    0x40df0b66, 0x37d83bf0, 0xa9bcae53, 0xdebb9ec5, 0x47b2cf7f, 0x30b5ffe9,
    0xbdbdf21c, 0xcabac28a, 0x53b39330, 0x24b4a3a6, 0xbad03605, 0xcdd70693,
    0x54de5729, 0x23d967bf, 0xb3667a2e, 0xc4614ab8, 0x5d681b02, 0x2a6f2b94,
    0xb40bbe37, 0xc30c8ea1, 0x5a05df1b, 0x2d02ef8d]"

text \<open>The checksum is kept in 32 bits, where \<open>mix_hash.c\<close> has 64.\<close>

definition class_crc32_round :: "u32 \<Rightarrow> u8 \<Rightarrow> u32" where
  "class_crc32_round crc32val c =
     ucast ((class_crc32_tab ! unat ((crc32val XOR ucast c) AND 0xff)) XOR ucast (drop_bit 8 crc32val))"

definition class_crc32 :: "u8 list \<Rightarrow> u64" where
  "class_crc32 s = ucast (foldl class_crc32_round 0 s)"

definition class_hash :: "u32 \<Rightarrow> int \<Rightarrow> int option" where
  "class_hash int_key hash_size =
     (let key = class_crc32 (print_int (sint int_key));
          key = key + push_bit 12 key;
          key = key XOR drop_bit 22 key;
          key = key + push_bit 4 key;
          key = key XOR drop_bit 9 key;
          key = key + push_bit 10 key;
          key = key XOR drop_bit 2 key;
          key = key + push_bit 7 key;
          key = key XOR drop_bit 12 key;
          key = drop_bit 3 key * 2654435761;
          m = word_of_int hash_size :: u64
      in if m = 0 then None else Some (sint (ucast (key mod m) :: u32)))"

section \<open>The class\<close>

record 'v hash_record =
  rec_key :: u32
  rec_value :: 'v

record 'v hash_class =
  hc_size :: int
  hc_entry_num :: int
  hc_entries :: "nat option list list"
  hc_pool :: "nat list"
  hc_records :: "'v hash_record list"

text \<open>The constructor: one record per bucket, whatever \<open>entry_num\<close> is; \<open>hash_entries_\<close> stays an empty vector.
  \<open>fresh\<close> is the content of a new record.\<close>

definition hash_class_init :: "int \<Rightarrow> int \<Rightarrow> 'v hash_record \<Rightarrow> 'v hash_class" where
  "hash_class_init size0 entry_num fresh = \<lparr>hc_size = size0, hc_entry_num = entry_num, hc_entries = [],
     hc_pool = [0..<nat size0], hc_records = replicate (nat size0) fresh\<rparr>"

definition new_record :: "u32 \<Rightarrow> 'v \<Rightarrow> 'v hash_class \<Rightarrow> nat option \<times> 'v hash_class" where
  "new_record key v h = (case hc_pool h of [] \<Rightarrow> (None, h)
     | p # ps \<Rightarrow> (Some p, h\<lparr>hc_pool := ps, hc_records := (hc_records h)[p := \<lparr>rec_key = key, rec_value = v\<rparr>]\<rparr>))"

definition delete_record :: "nat option \<Rightarrow> 'v hash_class \<Rightarrow> 'v hash_class option" where
  "delete_record p h = map_option (\<lambda>p. h\<lparr>hc_pool := hc_pool h @ [p]\<rparr>) p"

text \<open>\<open>put\<close>: the bucket is copied, and the record is put into the copy, if at all: the test returns when a
  record was found. \<open>None\<close> is an access outside of the vector.\<close>

definition class_put :: "u32 \<Rightarrow> 'v \<Rightarrow> 'v hash_class \<Rightarrow> (bool \<times> 'v hash_class) option" where
  "class_put key v h = do {
     hash_key \<leftarrow> class_hash key (hc_size h);
     entry \<leftarrow> arr_get (hc_entries h) hash_key;
     let (rec, h) = new_record key v h;
     if rec \<noteq> None then Some (False, h)
     else (let entry = rec # entry in Some (True, h))
   }"

text \<open>\<open>find_if\<close>: the position of the key; a null pointer is dereferenced.\<close>

fun find_record :: "u32 \<Rightarrow> 'v hash_record list \<Rightarrow> nat \<Rightarrow> nat option list \<Rightarrow> nat option option" where
  "find_record key recs i [] = Some None"
| "find_record key recs i (p # ps) = do {
     p \<leftarrow> p;
     r \<leftarrow> arr_get recs (int p);
     if key = rec_key r then Some (Some i) else find_record key recs (Suc i) ps
   }"

text \<open>\<open>get\<close>: when the key is found, the function ends without \<open>return\<close>.\<close>

definition class_get :: "u32 \<Rightarrow> 'v hash_class \<Rightarrow> bool option" where
  "class_get key h = do {
     hash_key \<leftarrow> class_hash key (hc_size h);
     entry \<leftarrow> arr_get (hc_entries h) hash_key;
     record \<leftarrow> find_record key (hc_records h) 0 entry;
     if record \<noteq> None then None else Some False
   }"

text \<open>\<open>delete\<close>: the record is erased from the copy.\<close>

definition class_delete :: "u32 \<Rightarrow> 'v hash_class \<Rightarrow> 'v hash_class option" where
  "class_delete key h = do {
     hash_key \<leftarrow> class_hash key (hc_size h);
     entry \<leftarrow> arr_get (hc_entries h) hash_key;
     record \<leftarrow> find_record key (hc_records h) 0 entry;
     let entry = (case record of None \<Rightarrow> entry | Some i \<Rightarrow> take i entry @ drop (Suc i) entry);
     Some h
   }"

definition class_get_record_by_entry :: "int \<Rightarrow> 'v hash_class \<Rightarrow> ('v hash_record option \<times> 'v hash_class) option" where
  "class_get_record_by_entry entry_idx h = do {
     entry \<leftarrow> arr_get (hc_entries h) entry_idx;
     (case entry of [] \<Rightarrow> Some (None, h)
      | p # _ \<Rightarrow> do {
          i \<leftarrow> p;
          r \<leftarrow> arr_get (hc_records h) (int i);
          h \<leftarrow> delete_record p h;
          Some (Some r, h)
        })
   }"

section \<open>The hash functions agree\<close>

lemma class_crc32_tab: "class_crc32_tab = crc32_tab"
  by (simp only: class_crc32_tab_def crc32_tab_def)

lemma crc32_tab_32_bits: "i < 256 \<Longrightarrow> ucast (ucast (crc32_tab ! i) :: u32) = crc32_tab ! i"
proof -
  have "list_all (\<lambda>x. ucast (ucast x :: u32) = x) crc32_tab" by (simp add: crc32_tab_def)
  then show "i < 256 \<Longrightarrow> ?thesis" by (simp add: list_all_length length_crc32_tab)
qed

lemma class_crc32_round: "crc32_round (ucast w) c = ucast (class_crc32_round w c)"
proof -
  have x: "(ucast w XOR ucast c :: u64) = ucast (w XOR ucast c)"
    by (rule bit_word_eqI) (auto simp: bit_xor_iff bit_ucast_iff dest: bit_imp_le_length)
  have i: "unat ((ucast w XOR ucast c :: u64) AND 0xff) = unat ((w XOR ucast c :: u32) AND 0xff)"
    unfolding x using unat_and_mask [of "ucast (w XOR ucast c) :: u64" 8] unat_and_mask [of "w XOR ucast c" 8] by (simp add: unat_ucast_up)
  have "unat ((w XOR ucast c) AND 0xff) < 256" using unat_and_mask [of "w XOR ucast c" 8] by simp
  note t = crc32_tab_32_bits [OF this]
  have "(ucast (ucast x :: u32) :: u64) = x \<Longrightarrow> x XOR drop_bit 8 (ucast w) = ucast (ucast (x XOR ucast (drop_bit 8 w)) :: u32)" for x :: u64
  proof -
    assume x: "(ucast (ucast x :: u32) :: u64) = x"
    have "ucast (ucast (x XOR ucast (drop_bit 8 w)) :: u32) = (ucast (ucast x :: u32) :: u64) XOR drop_bit 8 (ucast w)"
      by (rule bit_word_eqI) (auto simp: bit_xor_iff bit_ucast_iff bit_drop_bit_eq dest: bit_imp_le_length)
    then show ?thesis by (simp add: x)
  qed
  from this [OF t] show ?thesis by (simp add: crc32_round_def class_crc32_round_def class_crc32_tab i)
qed

lemma class_crc32: "class_crc32 s = crc32 s"
proof -
  have "foldl crc32_round (ucast w) s = ucast (foldl class_crc32_round w s)" for w
    by (induction s arbitrary: w) (simp_all add: class_crc32_round)
  from this [of 0] show ?thesis by (simp add: class_crc32_def crc32_def)
qed

lemma class_hash_eq: "class_hash = mix_hash_hash"
  by (simp add: fun_eq_iff class_hash_def mix_hash_hash_def key_mix_def class_crc32 Let_def)

section \<open>Properties\<close>

text \<open>C32. The hash function of the class, which computes the checksum in 32 bits, is that of \<open>mix_hash.c\<close>, which
  computes it in 64, for every key and every size of the table.\<close>

theorem hash_functions_agree: "class_hash key size0 = mix_hash_hash key size0"
  by (simp add: class_hash_eq)

text \<open>The calls of a client.\<close>

datatype 'v class_call = Put u32 'v | Get u32 | Delete u32 | Take int

fun class_op :: "'v class_call \<Rightarrow> 'v hash_class \<Rightarrow> (bool \<times> 'v hash_class) option" where
  "class_op (Put k v) h = class_put k v h"
| "class_op (Get k) h = map_option (\<lambda>b. (b, h)) (class_get k h)"
| "class_op (Delete k) h = map_option (\<lambda>h. (False, h)) (class_delete k h)"
| "class_op (Take i) h = map_option (\<lambda>(r, h). (r \<noteq> None, h)) (class_get_record_by_entry i h)"

fun class_ops :: "'v class_call list \<Rightarrow> 'v hash_class \<Rightarrow> (bool list \<times> 'v hash_class) option" where
  "class_ops [] h = Some ([], h)"
| "class_ops (x # xs) h = do {
     (b, h) \<leftarrow> class_op x h;
     (bs, h) \<leftarrow> class_ops xs h;
     Some (b # bs, h)
   }"

text \<open>The answers when \<open>n\<close> records are left, and the records the calls use up.\<close>

fun class_answers :: "nat \<Rightarrow> 'v class_call list \<Rightarrow> bool list" where
  "class_answers n [] = []"
| "class_answers n (Put k v # xs) = (n = 0) # class_answers (n - 1) xs"
| "class_answers n (_ # xs) = False # class_answers n xs"

fun puts :: "'v class_call list \<Rightarrow> nat" where
  "puts [] = 0"
| "puts (Put k v # xs) = Suc (puts xs)"
| "puts (_ # xs) = puts xs"

lemma class_ops_empty:
  assumes "0 < size0" "size0 < 2 ^ 31"
  shows "hc_size h = size0 \<Longrightarrow> hc_entries h = replicate (nat size0) [] \<Longrightarrow> \<forall>i. Take i \<in> set xs \<longrightarrow> 0 \<le> i \<and> i < size0 \<Longrightarrow>
    \<exists>h'. class_ops xs h = Some (class_answers (length (hc_pool h)) xs, h') \<and> hc_entries h' = hc_entries h \<and>
      length (hc_pool h') = length (hc_pool h) - puts xs"
proof (induction xs arbitrary: h)
  case (Cons x xs)
  have bucket: "\<exists>i. class_hash k size0 = Some i \<and> arr_get (hc_entries h) i = Some []" for k
    using mix_hash_hash_range [OF assms, of k] Cons.prems(2) by (auto simp: class_hash_eq arr_get_def)
  show ?case
  proof (cases x)
    case (Put k v)
    obtain i where i: "class_hash k size0 = Some i" "arr_get (hc_entries h) i = Some []" using bucket by blast
    define h1 where "h1 = snd (new_record k v h)"
    have h1: "hc_size h1 = size0" "hc_entries h1 = hc_entries h" "length (hc_pool h1) = length (hc_pool h) - 1"
      using Cons.prems(1) by (simp_all add: h1_def new_record_def split: list.split)
    have "class_put k v h = Some (hc_pool h = [], h1)"
      using i Cons.prems(1) by (simp add: class_put_def h1_def new_record_def Let_def split: list.split)
    then show ?thesis using Cons.IH [of h1] Cons.prems h1 by (auto simp: Put)
  next
    case (Get k)
    then show ?thesis using bucket [of k] Cons.IH [of h] Cons.prems by (auto simp: class_get_def)
  next
    case (Delete k)
    then show ?thesis using bucket [of k] Cons.IH [of h] Cons.prems by (auto simp: class_delete_def)
  next
    case (Take i)
    then have "0 \<le> i" "i < size0" using Cons.prems(3) by auto
    then have "arr_get (hc_entries h) i = Some []" using Cons.prems(2) by (simp add: arr_get_def)
    then show ?thesis using Cons.IH [of h] Cons.prems by (auto simp: Take class_get_record_by_entry_def)
  qed
qed simp

text \<open>C33. The class does not store anything. On a new object every operation accesses the vector outside of its
  bounds; and even if the vector had one list for every bucket, after any calls all lists are
  empty, no key is found, and \<open>put\<close> answers the wrong way round: it fails as long as there are records, each
  of which is lost, and reports success when there are none left.\<close>

theorem hash_class_stores_nothing:
  assumes "0 < size0" "size0 < 2 ^ 31" "\<forall>i. Take i \<in> set xs \<longrightarrow> 0 \<le> i \<and> i < size0"
  shows "class_op x (hash_class_init size0 num fresh) = None \<and>
    (\<exists>h. class_ops xs ((hash_class_init size0 num fresh)\<lparr>hc_entries := replicate (nat size0) []\<rparr>) = Some (class_answers (nat size0) xs, h) \<and>
       hc_entries h = replicate (nat size0) [] \<and> length (hc_pool h) = nat size0 - puts xs)"
proof
  have none: "arr_get [] i = None" for i :: int by (simp add: arr_get_def)
  show "class_op x (hash_class_init size0 num fresh) = None"
    by (cases x) (simp_all add: hash_class_init_def class_put_def class_get_def class_delete_def class_get_record_by_entry_def none split: bind_splits)
  show "\<exists>h. class_ops xs ((hash_class_init size0 num fresh)\<lparr>hc_entries := replicate (nat size0) []\<rparr>) = Some (class_answers (nat size0) xs, h) \<and>
       hc_entries h = replicate (nat size0) [] \<and> length (hc_pool h) = nat size0 - puts xs"
    using class_ops_empty [OF assms(1,2), of "(hash_class_init size0 num fresh)\<lparr>hc_entries := replicate (nat size0) []\<rparr>" xs] assms(3)
    by (simp add: hash_class_init_def)
qed

theorem hash_class_stores_nothing_witness:
  "\<exists>h. class_ops [Put 5 True, Get 5, Put 6 True, Put 7 False] ((hash_class_init 2 9 \<lparr>rec_key = 0, rec_value = False\<rparr>)\<lparr>hc_entries := [[], []]\<rparr>) =
     Some ([False, False, False, True], h) \<and> hc_entries h = [[], []] \<and> hc_pool h = []"
proof -
  let ?xs = "[Put 5 True, Get 5, Put 6 True, Put 7 False]"
  have r: "replicate (nat 2) [] = [[], [] :: nat option list]" by (simp add: numeral_eq_Suc)
  have a: "class_answers (nat 2) ?xs = [False, False, False, True]" "nat 2 - puts ?xs = 0" by simp_all
  have "(0 :: int) < 2" "(2 :: int) < 2 ^ 31" "\<forall>i. Take i \<in> set ?xs \<longrightarrow> 0 \<le> i \<and> i < 2" by simp_all
  from conjunct2 [OF hash_class_stores_nothing [OF this, of "Get 0" 9 "\<lparr>rec_key = 0, rec_value = False\<rparr>"]]
  show ?thesis unfolding r a by simp
qed

end
