(* ===== verification/Io_Ring.thy ===== *)
theory Io_Ring
  imports Mix_Queue
begin

text \<open>
  The ring and the channel of the C++ rewrite: \<open>class IoRing\<close> of \<open>src/include/io_ring.h\<close> and
  \<open>src/src/io_ring.cpp\<close>, \<open>class IoChannel\<close> of \<open>src/src/io_channel.cpp\<close>, and the polling of
  \<open>class IoThread\<close>, \<open>src/src/io_thread.cpp\<close>. A ring with elements of one byte is the queue of
  \<open>mix_queue.c\<close>; for larger elements the counters and the allocation mix bytes and elements.
\<close>

section \<open>The ring\<close>

record io_ring =
  ir_in :: u32
  ir_out :: u32
  ir_mask :: u32
  ir_esize :: u32
  ir_data :: "u8 list"

text \<open>The constructor does not set \<open>esize_\<close>, its old value is \<open>old\<close>; \<open>fresh\<close> is the content of the
  memory that \<open>new char[size]\<close> returns. \<open>None\<close> is a failed \<open>assert\<close> or a division by zero.\<close>

definition IoRing :: "u32 \<Rightarrow> (nat \<Rightarrow> u8) \<Rightarrow> u32 \<Rightarrow> u32 \<Rightarrow> io_ring option" where
  "IoRing old fresh size0 esize =
     (if \<not> 2 < size0 \<or> esize = 0 then None
      else let size = roundup_pow_of_two (size0 div esize)
           in Some \<lparr>ir_in = 0, ir_out = 0, ir_mask = size - 1, ir_esize = old,
                ir_data = map fresh [0..<unat size]\<rparr>)"

definition ring_unused :: "io_ring \<Rightarrow> u32" where
  "ring_unused r = (ir_mask r + 1) - (ir_in r - ir_out r)"

definition ring_used :: "io_ring \<Rightarrow> u32" where
  "ring_used r = ir_in r - ir_out r"

definition ringInBurstReally :: "io_ring \<Rightarrow> u8 list \<Rightarrow> u32 \<Rightarrow> (io_ring \<times> u32) option" where
  "ringInBurstReally r src len0 =
     (let size = ir_mask r + 1; esize = ir_esize r;
          off = ir_in r AND ir_mask r;
          (off, size, len) = (if esize \<noteq> 1 then (off * esize, size * esize, len0 * esize) else (off, size, len0));
          l = queue_min len (size - off)
      in do {
        first \<leftarrow> mem_read src 0 (unat l);
        data \<leftarrow> mem_write (ir_data r) (unat off) first;
        second \<leftarrow> mem_read src (unat l) (unat (len - l));
        data \<leftarrow> mem_write data 0 second;
        Some (r\<lparr>ir_data := data\<rparr>, l)
      })"

definition ringOutBurstReally :: "io_ring \<Rightarrow> u32 \<Rightarrow> (u8 list \<times> u32) option" where
  "ringOutBurstReally r len0 =
     (let size = ir_mask r + 1; esize = ir_esize r;
          off = ir_out r AND ir_mask r;
          (off, size, len) = (if esize \<noteq> 1 then (off * esize, size * esize, len0 * esize) else (off, size, len0));
          l = queue_min len (size - off)
      in do {
        first \<leftarrow> mem_read (ir_data r) (unat off) (unat l);
        second \<leftarrow> mem_read (ir_data r) 0 (unat (len - l));
        Some (first @ second, l)
      })"

text \<open>Both operations move one element; the counters advance by the number of bytes copied.\<close>

definition ringIn :: "io_ring \<Rightarrow> u8 list \<Rightarrow> (io_ring \<times> u32) option" where
  "ringIn r src =
     (let len = 1; l = ring_unused r;
          len = (if len > l then l else len)
      in do {
        (r, l) \<leftarrow> ringInBurstReally r src len;
        Some (r\<lparr>ir_in := ir_in r + l\<rparr>, l)
      })"

definition ringOut :: "io_ring \<Rightarrow> (io_ring \<times> u8 list \<times> u32) option" where
  "ringOut r =
     (let len = 1; l = ring_used r
      in if l = 0 then Some (r, [], l)
         else if len > l then Some (r, [], len)
         else do {
           (dst, l) \<leftarrow> ringOutBurstReally r len;
           Some (r\<lparr>ir_out := ir_out r + l\<rparr>, dst, l)
         })"

section \<open>The channel\<close>

text \<open>A request is the list of its bytes.\<close>

definition REQUEST_SIZE :: u32 where "REQUEST_SIZE = 62"

record io_channel =
  ch_nvm_ring :: io_ring
  ch_buffer_ring :: io_ring
  ch_nvm_req :: "u8 list"
  ch_buffer_req :: "u8 list"

definition IoChannel :: "u32 \<Rightarrow> (nat \<Rightarrow> u8) \<Rightarrow> u8 list \<Rightarrow> u32 \<Rightarrow> io_channel option" where
  "IoChannel old fresh req entry_num = do {
     nvm \<leftarrow> IoRing old fresh entry_num REQUEST_SIZE;
     buffer \<leftarrow> IoRing old fresh entry_num REQUEST_SIZE;
     Some \<lparr>ch_nvm_ring = nvm, ch_buffer_ring = buffer, ch_nvm_req = req, ch_buffer_req = req\<rparr>
   }"

text \<open>What a call that was given the request \<open>req\<close> leaves in it: the bytes that came out, if any.\<close>

definition overwritten :: "u8 list \<Rightarrow> u8 list \<Rightarrow> u8 list" where
  "overwritten req bytes = bytes @ drop (length bytes) req"

text \<open>\<open>submitNvmIo\<close> and \<open>submitBufferIo\<close> call \<open>ringOut\<close>.\<close>

definition submitNvmIo :: "io_channel \<Rightarrow> u8 list \<Rightarrow> (io_channel \<times> u8 list \<times> bool) option" where
  "submitNvmIo ch req = do {
     (r, bytes, ret) \<leftarrow> ringOut (ch_nvm_ring ch);
     Some (ch\<lparr>ch_nvm_ring := r\<rparr>, overwritten req bytes, 0 < sint ret)
   }"

definition submitBufferIo :: "io_channel \<Rightarrow> u8 list \<Rightarrow> (io_channel \<times> u8 list \<times> bool) option" where
  "submitBufferIo ch req = do {
     (r, bytes, ret) \<leftarrow> ringOut (ch_buffer_ring ch);
     Some (ch\<lparr>ch_buffer_ring := r\<rparr>, overwritten req bytes, 0 < sint ret)
   }"

definition obtainNvmIo :: "io_channel \<Rightarrow> (io_channel \<times> u8 list) option" where
  "obtainNvmIo ch = do {
     (r, bytes, _) \<leftarrow> ringOut (ch_nvm_ring ch);
     let req = overwritten (ch_nvm_req ch) bytes;
     Some (ch\<lparr>ch_nvm_ring := r, ch_nvm_req := req\<rparr>, req)
   }"

definition obtainBufferIo :: "io_channel \<Rightarrow> (io_channel \<times> u8 list) option" where
  "obtainBufferIo ch = do {
     (r, bytes, _) \<leftarrow> ringOut (ch_buffer_ring ch);
     let req = overwritten (ch_buffer_req ch) bytes;
     Some (ch\<lparr>ch_buffer_ring := r, ch_buffer_req := req\<rparr>, req)
   }"

section \<open>Polling\<close>

record io_thread =
  th_start :: bool
  th_channel :: io_channel
  th_seq :: u8
  th_mask :: u8

definition IoThread :: "io_channel \<Rightarrow> io_thread" where
  "IoThread ch = \<lparr>th_start = False, th_channel = ch, th_seq = 0, th_mask = 1\<rparr>"

definition nvmRound :: "io_thread \<Rightarrow> io_thread \<times> bool" where
  "nvmRound t = (t\<lparr>th_seq := th_seq t + 1\<rparr>, th_mask t AND th_seq t \<noteq> 0)"

definition IoThread_poll :: "io_thread \<Rightarrow> (io_thread \<times> u8 list) option" where
  "IoThread_poll t =
     (let (t, nvm) = nvmRound t
      in do {
        (ch, req) \<leftarrow> (if nvm then obtainNvmIo (th_channel t) else obtainBufferIo (th_channel t));
        Some (t\<lparr>th_channel := ch\<rparr>, req)
      })"

definition IoThread_run :: "io_thread \<Rightarrow> io_thread" where
  "IoThread_run t = t\<lparr>th_start := True\<rparr>"

text \<open>\<open>loop\<close> runs in the thread that the constructor starts, while the owner may call \<open>run\<close> at any time; a
  \<open>Turn\<close> is one test of the flag with the poll that follows. The result tells the elements that were
  obtained, with which nothing is done, and whether the thread has ended.\<close>

datatype loop_event = Run | Turn

fun IoThread_loop :: "loop_event list \<Rightarrow> io_thread \<Rightarrow> (io_thread \<times> u8 list list \<times> bool) option" where
  "IoThread_loop [] t = Some (t, [], False)"
| "IoThread_loop (Run # es) t = IoThread_loop es (IoThread_run t)"
| "IoThread_loop (Turn # es) t =
     (if \<not> th_start t then Some (t, [], True)
      else do {
        (t, req) \<leftarrow> IoThread_poll t;
        (t, reqs, ended) \<leftarrow> IoThread_loop es t;
        Some (t, req # reqs, ended)
      })"

text \<open>\<open>startThreadPool\<close> keeps the number and ends without \<open>return\<close>: the caller that looks at the result, the
  second component, has undefined behaviour.\<close>

definition startThreadPool :: "int \<Rightarrow> (int \<times> bool option) option" where
  "startThreadPool thread_num = (if 0 < thread_num then Some (thread_num, None) else None)"

text \<open>The constructor starts the thread with the flag down: unless the owner is faster, the thread ends at
  once, and a later call of \<open>run\<close> has no effect.\<close>

lemma loop_ends_at_once: "IoThread_loop (Turn # es) (IoThread ch) = Some (IoThread ch, [], True)"
  by (simp add: IoThread_def)

section \<open>Elements of one byte\<close>

definition ring_queue :: "io_ring \<Rightarrow> mix_queue" where
  "ring_queue r = \<lparr>q_in = ir_in r, q_out = ir_out r, q_mask = ir_mask r, q_esize = ir_esize r, q_data = ir_data r\<rparr>"

definition queue_ring :: "mix_queue \<Rightarrow> io_ring" where
  "queue_ring q = \<lparr>ir_in = q_in q, ir_out = q_out q, ir_mask = q_mask q, ir_esize = q_esize q, ir_data = q_data q\<rparr>"

lemma ring_queue_inverse [simp]: "queue_ring (ring_queue r) = r" "ring_queue (queue_ring q) = q"
  by (simp_all add: ring_queue_def queue_ring_def)

lemma ring_queue_sel [simp]:
  "q_in (ring_queue r) = ir_in r" "q_out (ring_queue r) = ir_out r" "q_mask (ring_queue r) = ir_mask r"
  "q_esize (ring_queue r) = ir_esize r" "q_data (ring_queue r) = ir_data r"
  by (simp_all add: ring_queue_def)

definition byte_ring_ok :: "io_ring \<Rightarrow> bool" where
  "byte_ring_ok r \<longleftrightarrow> queue_ok (ring_queue r) \<and> ir_esize r = 1"

text \<open>One element fits in one piece, so the number of bytes copied is the number of elements.\<close>

lemma one_piece:
  assumes "byte_ring_ok r" "n \<le> 1"
  shows "queue_min n (ir_mask r + 1 - (c AND ir_mask r)) = n"
proof -
  have k: "ring_ok (ring_queue r)" using assms(1) by (simp add: byte_ring_ok_def queue_ok_def)
  have "unat (c AND ir_mask r) < queue_cap (ring_queue r)" "unat (ir_mask r + 1) = queue_cap (ring_queue r)"
    using unat_off [OF k, of c] unat_size [OF k] queue_cap_pos [of "ring_queue r"] by simp_all
  then have "1 \<le> unat (ir_mask r + 1 - (c AND ir_mask r))" by (subst unat_sub) (simp_all add: word_le_nat_alt)
  then show ?thesis using assms(2) by (auto simp: queue_min_def word_less_nat_alt word_le_nat_alt)
qed

lemma burst_in:
  "ringInBurstReally r src len = map_option (\<lambda>(q, l). (queue_ring q, l)) (mix_enqueue_raw (ring_queue r) src len (ir_in r))"
  by (cases r) (simp add: ringInBurstReally_def mix_enqueue_raw_def Let_def ring_queue_def queue_ring_def split_beta split: bind_split)

lemma burst_in_count:
  assumes "byte_ring_ok r" "len \<le> 1" "mix_enqueue_raw (ring_queue r) src len (ir_in r) = Some (q, l)"
  shows "l = len"
  using assms(3) one_piece [OF assms(1,2), of "ir_in r"] assms(1)
  by (auto simp: mix_enqueue_raw_def byte_ring_ok_def Let_def split: bind_splits)

lemma ringIn_enqueue:
  assumes "byte_ring_ok r"
  shows "ringIn r src = map_option (\<lambda>(q, n). (queue_ring q, n)) (mix_enqueue (ring_queue r) src 1)"
proof -
  define len where "len = (if 1 > ring_unused r then ring_unused r else 1)"
  have "len \<le> 1" by (simp add: len_def)
  note c = burst_in_count [OF assms this, of src]
  have u: "mix_queue_unused (ring_queue r) = ring_unused r" by (simp add: mix_queue_unused_def ring_unused_def)
  have i: "ringIn r src = ringInBurstReally r src len \<bind> (\<lambda>(r, l). Some (r\<lparr>ir_in := ir_in r + l\<rparr>, l))"
    "mix_enqueue (ring_queue r) src 1 =
       mix_enqueue_raw (ring_queue r) src len (ir_in r) \<bind> (\<lambda>(q, _). Some (q\<lparr>q_in := q_in q + len\<rparr>, len))"
    by (simp_all only: ringIn_def mix_enqueue_def Let_def len_def u ring_queue_sel)
  show ?thesis
  proof (cases "mix_enqueue_raw (ring_queue r) src len (ir_in r)")
    case None
    then show ?thesis by (simp add: i burst_in)
  next
    case (Some p)
    then obtain q where "mix_enqueue_raw (ring_queue r) src len (ir_in r) = Some (q, len)" using c by (cases p) auto
    then show ?thesis by (simp add: i burst_in queue_ring_def)
  qed
qed

lemma ringOut_dequeue:
  assumes "byte_ring_ok r"
  shows "ringOut r = map_option (\<lambda>(q, x, n). (queue_ring q, x, n)) (mix_dequeue (ring_queue r) 1)"
proof (cases "ring_used r = 0")
  case True
  then show ?thesis by (simp add: ringOut_def mix_dequeue_def ring_used_def)
next
  case False
  have e: "ir_esize r = 1" using assms by (simp add: byte_ring_ok_def)
  have "\<not> 1 > ring_used r" using False by (simp add: word_less_1)
  then show ?thesis
    using False e one_piece [OF assms, of 1 "ir_out r"]
    by (cases r) (simp add: ringOut_def mix_dequeue_def ring_used_def ringOutBurstReally_def mix_dequeue_raw_def Let_def queue_ring_def
        ring_queue_def split: bind_split)
qed


lemma byte_ring_queue:
  assumes "byte_ring_ok r" "queue_ok q" "queue_fits q = queue_fits (ring_queue r)"
  shows "byte_ring_ok (queue_ring q)"
proof -
  have "queue_fits q [0]" unfolding assms(3) using assms(1) by (simp add: queue_fits_def queue_es_def byte_ring_ok_def)
  then have "unat (q_esize q) = 1" by (simp add: queue_fits_def queue_es_def)
  then have "q_esize q = 1" by simp
  then show ?thesis using assms(2) by (simp add: byte_ring_ok_def) (simp add: queue_ring_def)
qed

text \<open>So the ring meets the contract of a bounded queue.\<close>

interpretation byte_ring: bounded_fifo ringIn ringOut "\<lambda>r. queue_list (ring_queue r)" "\<lambda>r. queue_cap (ring_queue r)"
  "\<lambda>r x. length x = 1" byte_ring_ok
proof unfold_locales
  fix r and x :: "u8 list" assume r: "byte_ring_ok r" and x: "length x = 1"
  have q: "queue_ok (ring_queue r)" "queue_fits (ring_queue r) x"
    using r x by (simp_all add: byte_ring_ok_def queue_fits_def queue_es_def)
  show "\<exists>r'. ringIn r x = Some (r', 1) \<and> byte_ring_ok r' \<and> queue_list (ring_queue r') = queue_list (ring_queue r) @ [x] \<and>
        queue_cap (ring_queue r') = queue_cap (ring_queue r) \<and> (\<lambda>x :: u8 list. length x = 1) = (\<lambda>x. length x = 1)"
    if "length (queue_list (ring_queue r)) < queue_cap (ring_queue r)"
    using ring.enq_room [OF q that] byte_ring_queue [OF r] by (auto simp: ringIn_enqueue [OF r] queue_enq_def)
  show "\<exists>r'. ringIn r x = Some (r', 0) \<and> byte_ring_ok r' \<and> queue_list (ring_queue r') = queue_list (ring_queue r) \<and>
        queue_cap (ring_queue r') = queue_cap (ring_queue r) \<and> (\<lambda>x :: u8 list. length x = 1) = (\<lambda>x. length x = 1)"
    if "\<not> length (queue_list (ring_queue r)) < queue_cap (ring_queue r)"
    using ring.enq_full [OF q that] byte_ring_queue [OF r] by (auto simp: ringIn_enqueue [OF r] queue_enq_def)
next
  fix r x xs assume r: "byte_ring_ok r" and l: "queue_list (ring_queue r) = x # xs"
  have q: "queue_ok (ring_queue r)" using r by (simp add: byte_ring_ok_def)
  show "\<exists>r'. ringOut r = Some (r', x, 1) \<and> byte_ring_ok r' \<and> queue_list (ring_queue r') = xs \<and>
        queue_cap (ring_queue r') = queue_cap (ring_queue r) \<and> (\<lambda>x :: u8 list. length x = 1) = (\<lambda>x. length x = 1)"
    using ring.deq_some [OF q l] byte_ring_queue [OF r] by (auto simp: ringOut_dequeue [OF r] queue_deq_def)
next
  fix r assume r: "byte_ring_ok r" and l: "queue_list (ring_queue r) = []"
  have q: "queue_ok (ring_queue r)" using r by (simp add: byte_ring_ok_def)
  show "\<exists>r' x. ringOut r = Some (r', x, 0) \<and> byte_ring_ok r' \<and> queue_list (ring_queue r') = [] \<and>
        queue_cap (ring_queue r') = queue_cap (ring_queue r) \<and> (\<lambda>x :: u8 list. length x = 1) = (\<lambda>x. length x = 1)"
    using ring.deq_none [OF q l] byte_ring_queue [OF r] by (auto simp: ringOut_dequeue [OF r] queue_deq_def)
qed

section \<open>Properties\<close>

lemma new_byte_ring:
  assumes "unat n = 2 ^ k" "2 \<le> k" "k \<le> 31"
  obtains r where "IoRing 1 fresh n 1 = Some r" "byte_ring_ok r" "queue_list (ring_queue r) = []" "queue_cap (ring_queue r) = 2 ^ k"
proof -
  have p: "1 \<le> k" "(4 :: nat) \<le> 2 ^ k" using assms(2) power_increasing [of 2 k "2 :: nat"] by simp_all
  obtain q where q: "mix_queue_init (Some (map fresh [0..<unat n])) n 1 = Some (Some q)" "queue_ok q" "queue_list q = []"
      "queue_cap q = 2 ^ k" "q_esize q = 1"
    using mix_queue_init_power_of_two [of n k 1 "map fresh [0..<unat n]"] assms(1) p(1) by auto
  have "q = \<lparr>q_in = 0, q_out = 0, q_mask = roundup_pow_of_two n - 1, q_esize = 1, q_data = map fresh [0..<unat n]\<rparr>"
    using q(1) by (auto simp: mix_queue_init_def mix_queue_init_raw_def Let_def split: bind_splits if_splits)
  moreover have "roundup_pow_of_two n = n"
  proof -
    have "(2 :: nat) ^ k \<le> 2 ^ 31" using assms(3) by (intro power_increasing) simp_all
    then have "0 < unat n" "unat n \<le> 2 ^ 31" using assms(1) by simp_all
    then obtain j where "unat (roundup_pow_of_two n) = 2 ^ j" "unat n \<le> 2 ^ j" "\<And>i. unat n \<le> 2 ^ i \<Longrightarrow> j \<le> i"
      by (rule roundup_least) blast
    moreover from this have "j = k" using assms(1) by (metis le_antisym order_refl one_less_numeral_iff power_le_imp_le_exp semiring_norm(76))
    ultimately show ?thesis using assms(1) by (simp add: word_unat_eq_iff)
  qed
  moreover have "2 < n" using p(2) assms(1) by (simp add: word_less_nat_alt)
  ultimately have "IoRing 1 fresh n 1 = Some (queue_ring q)" by (simp add: IoRing_def queue_ring_def Let_def)
  moreover have "byte_ring_ok (queue_ring q)" using q(2,5) by (simp add: byte_ring_ok_def) (simp add: queue_ring_def)
  ultimately show thesis using that q(3,4) by simp
qed

text \<open>An element size of 0 makes \<open>ringIn\<close> copy nothing.\<close>

lemma ring_of_no_size: "ir_esize r = 0 \<Longrightarrow> ringIn r src = Some (r, 0)"
  by (cases r) (simp add: ringIn_def ringInBurstReally_def queue_min_def mem_read_def mem_write_def Let_def)

text \<open>C37. A ring of \<open>2 ^ k\<close> elements of one byte depends on the memory it is made in, because the constructor
  never sets \<open>esize_\<close>: when the memory happens to hold the element size 1, the ring returns what was put in,
  in order; when it holds 0, every \<open>ringIn\<close> stores nothing, leaves the ring as it is and returns 0.\<close>

theorem byte_ring_roundtrip:
  assumes "unat n = 2 ^ k" "2 \<le> k" "k \<le> 31" "length xs \<le> 2 ^ k"
  shows "(\<exists>r r1 r2. IoRing 1 fresh n 1 = Some r \<and> post_all ringIn r (map (\<lambda>x. [x]) xs) = Some r1 \<and>
      drain ringOut (length xs) r1 = Some (r2, map (\<lambda>x. [x]) xs)) \<and>
    (\<exists>r. IoRing 0 fresh n 1 = Some r \<and> (\<forall>src. ringIn r src = Some (r, 0)))"
proof -
  obtain r where r: "IoRing 1 fresh n 1 = Some r" "byte_ring_ok r" "queue_list (ring_queue r) = []" "queue_cap (ring_queue r) = 2 ^ k"
    by (rule new_byte_ring [OF assms(1-3)])
  have "list_all (\<lambda>x :: u8 list. length x = 1) (map (\<lambda>x. [x]) xs)" by (simp add: list_all_iff)
  from byte_ring.post_then_drain [OF r(2,3) this]
  have "\<exists>r r1 r2. IoRing 1 fresh n 1 = Some r \<and> post_all ringIn r (map (\<lambda>x. [x]) xs) = Some r1 \<and>
      drain ringOut (length xs) r1 = Some (r2, map (\<lambda>x. [x]) xs)" using r assms(4) by auto
  moreover have "\<exists>r'. IoRing 0 fresh n 1 = Some r' \<and> ir_esize r' = 0"
    using r(1) by (auto simp: IoRing_def Let_def split: if_splits)
  ultimately show ?thesis using ring_of_no_size by blast
qed

theorem byte_ring_roundtrip_witness:
  "\<exists>r r1 r2 r'. IoRing 1 (\<lambda>_. 0) 4 1 = Some r \<and> post_all ringIn r [[5], [6], [7], [8]] = Some r1 \<and>
     drain ringOut 4 r1 = Some (r2, [[5], [6], [7], [8]]) \<and> IoRing 0 (\<lambda>_. 0) 4 1 = Some r' \<and> ringIn r' [5] = Some (r', 0)"
proof -
  have "unat (4 :: u32) = 2 ^ 2" "2 \<le> (2 :: nat)" "2 \<le> (31 :: nat)" "length [5, 6, 7, 8 :: u8] \<le> 2 ^ 2" by simp_all
  moreover have "map (\<lambda>x. [x]) [5, 6, 7, 8 :: u8] = [[5], [6], [7], [8]]" "length [5, 6, 7, 8 :: u8] = 4" by simp_all
  ultimately show ?thesis by (metis byte_ring_roundtrip)
qed

text \<open>The rings of a channel cannot hold a request: \<open>new char[size]\<close> allocates one byte per element,
  so the first request that is put in is written behind the end of the buffer when there are fewer
  elements than a request has bytes.\<close>

lemma request_overruns_ring:
  assumes "IoRing REQUEST_SIZE fresh n REQUEST_SIZE = Some r" "62 \<le> unat n" "unat n \<le> 32 * 62"
  shows "ringIn r src = None"
proof -
  define size where "size = roundup_pow_of_two (n div REQUEST_SIZE)"
  have u: "unat (n div REQUEST_SIZE) = unat n div 62" by (simp add: unat_div REQUEST_SIZE_def)
  have m: "unat (n div REQUEST_SIZE) \<le> 32" "0 < unat (n div REQUEST_SIZE)"
    using div_le_mono [OF assms(3), of 62] div_le_mono [OF assms(2), of 62] unfolding u by simp_all
  then obtain k where k: "unat size = 2 ^ k" "\<And>j. unat (n div REQUEST_SIZE) \<le> 2 ^ j \<Longrightarrow> k \<le> j"
    using roundup_least [of "n div REQUEST_SIZE"] unfolding size_def by auto
  have "k \<le> 5" using k(2) [of 5] m(1) by simp
  then have "(2 :: nat) ^ k \<le> 2 ^ 5" by (intro power_increasing) simp_all
  then have s: "unat size \<le> 32" "1 \<le> unat size" using k(1) by simp_all
  have r: "r = \<lparr>ir_in = 0, ir_out = 0, ir_mask = size - 1, ir_esize = REQUEST_SIZE, ir_data = map fresh [0..<unat size]\<rparr>"
    using assms(1) by (auto simp: IoRing_def Let_def size_def split: if_splits)
  have "unat (size * 62) = unat size * 62" using s(1) by (subst unat_mult_bounded) simp_all
  then have l: "queue_min 62 (size * 62) = 62" using s(2) by (simp add: queue_min_def word_less_nat_alt)
  have "size \<noteq> 0" using s(2) by auto
  moreover have "mem_write (map fresh [0..<unat size]) 0 first = None" if "mem_read src 0 62 = Some first" for first
    using that s(1) by (auto simp: mem_read_eq_Some mem_write_def)
  ultimately show ?thesis
    using l by (auto simp: ringIn_def ring_unused_def ringInBurstReally_def r REQUEST_SIZE_def Let_def split: bind_splits)
qed

text \<open>What clients can do with a channel.\<close>

datatype channel_op = SubmitNvm "u8 list" | SubmitBuffer "u8 list" | Poll

fun channel_run :: "channel_op list \<Rightarrow> io_thread \<Rightarrow> (io_thread \<times> bool list \<times> u8 list list) option" where
  "channel_run [] t = Some (t, [], [])"
| "channel_run (SubmitNvm req # ops) t = do {
     (ch, _, ok) \<leftarrow> submitNvmIo (th_channel t) req;
     (t, oks, reqs) \<leftarrow> channel_run ops (t\<lparr>th_channel := ch\<rparr>);
     Some (t, ok # oks, reqs)
   }"
| "channel_run (SubmitBuffer req # ops) t = do {
     (ch, _, ok) \<leftarrow> submitBufferIo (th_channel t) req;
     (t, oks, reqs) \<leftarrow> channel_run ops (t\<lparr>th_channel := ch\<rparr>);
     Some (t, ok # oks, reqs)
   }"
| "channel_run (Poll # ops) t = do {
     (t, req) \<leftarrow> IoThread_poll t;
     (t, oks, reqs) \<leftarrow> channel_run ops t;
     Some (t, oks, req # reqs)
   }"

definition channel_empty :: "u8 list \<Rightarrow> io_channel \<Rightarrow> bool" where
  "channel_empty req ch \<longleftrightarrow> ring_used (ch_nvm_ring ch) = 0 \<and> ring_used (ch_buffer_ring ch) = 0 \<and>
     ch_nvm_req ch = req \<and> ch_buffer_req ch = req"

lemma empty_ring_out: "ring_used r = 0 \<Longrightarrow> ringOut r = Some (r, [], 0)"
  by (simp add: ringOut_def)

lemma empty_channel_ops:
  assumes "channel_empty req ch"
  shows "submitNvmIo ch x = Some (ch, x, False)" "submitBufferIo ch x = Some (ch, x, False)"
    "obtainNvmIo ch = Some (ch, req)" "obtainBufferIo ch = Some (ch, req)"
  using assms
  by (simp_all add: channel_empty_def submitNvmIo_def submitBufferIo_def obtainNvmIo_def obtainBufferIo_def
      empty_ring_out overwritten_def Let_def)

lemma new_channel_empty: "IoChannel old fresh req n = Some ch \<Longrightarrow> channel_empty req ch"
  by (auto simp: IoChannel_def IoRing_def channel_empty_def ring_used_def Let_def split: bind_splits if_splits)

lemma empty_channel_run:
  assumes "channel_empty req (th_channel t)"
  shows "\<exists>t' oks reqs. channel_run ops t = Some (t', oks, reqs) \<and> channel_empty req (th_channel t') \<and>
    (\<forall>ok \<in> set oks. \<not> ok) \<and> (\<forall>r \<in> set reqs. r = req)"
  using assms
proof (induction ops arbitrary: t)
  case (Cons op ops)
  note e = empty_channel_ops [OF Cons.prems]
  show ?case
  proof (cases op)
    case Poll
    let ?t = "t\<lparr>th_seq := th_seq t + 1\<rparr>"
    have "IoThread_poll t = Some (?t, req)" using e by (simp add: IoThread_poll_def nvmRound_def)
    then show ?thesis using Cons.IH [of ?t] Cons.prems Poll by auto
  qed (use Cons.IH [OF Cons.prems] e in auto)
qed simp

text \<open>C38. A channel never carries a request: \<open>submitNvmIo\<close> and \<open>submitBufferIo\<close> take an element out of the
  ring instead of putting one in. Whatever is submitted and polled, every submission is refused and
  every poll delivers the blank request that the channel was made with.\<close>

theorem channel_never_carries:
  assumes "IoChannel old fresh req n = Some ch"
  shows "\<exists>t oks reqs. channel_run ops (IoThread ch) = Some (t, oks, reqs) \<and> set oks \<subseteq> {False} \<and> set reqs \<subseteq> {req}"
proof -
  have "channel_empty req (th_channel (IoThread ch))" using new_channel_empty [OF assms] by (simp add: IoThread_def)
  from empty_channel_run [OF this, of ops] show ?thesis by blast
qed

theorem channel_never_carries_witness:
  "\<exists>ch t. IoChannel 62 (\<lambda>_. 0) (replicate 62 0) 1024 = Some ch \<and>
     channel_run [SubmitNvm (replicate 62 7), Poll, Poll] (IoThread ch) = Some (t, [False], [replicate 62 0, replicate 62 0])"
proof -
  obtain ch where ch: "IoChannel 62 (\<lambda>_. 0) (replicate 62 0) 1024 = Some ch"
    by (simp add: IoChannel_def IoRing_def REQUEST_SIZE_def Let_def)
  obtain t oks reqs where r: "channel_run [SubmitNvm (replicate 62 7), Poll, Poll] (IoThread ch) = Some (t, oks, reqs)"
      "set oks \<subseteq> {False}" "set reqs \<subseteq> {replicate 62 0}"
    using channel_never_carries [OF ch] by blast
  have "length oks = 1" "length reqs = 2" using r(1) by (auto split: bind_splits)
  then have "oks = [False]" "reqs = [replicate 62 0, replicate 62 0]"
    using r(2,3) by (auto simp: length_Suc_conv numeral_2_eq_2)
  then show ?thesis using ch r(1) by blast
qed


end
