(* ===== verification/Ssd.thy ===== *)
theory Ssd
  imports Nvm
begin

text \<open>
  The SSD behind a device file, \<open>class SSDDevice\<close> of \<open>src/src/ssd.cpp\<close> and \<open>src/include/ssd.h\<close>, with
  the requests of \<open>src/include/io_request.h\<close>. The system calls \<open>pread\<close> and \<open>pwrite\<close> are parameters.
\<close>

section \<open>The device\<close>

datatype OP = OP_READ | OP_WRITE | OP_CLEAR

fun op_value :: "OP \<Rightarrow> u64" where
  "op_value OP_READ = 1"
| "op_value OP_WRITE = 2"
| "op_value OP_CLEAR = 4"

record io_request =
  rq_buf :: "u8 list"
  rq_len :: u64
  rq_offset :: u64
  rq_opcode :: OP

text \<open>The file descriptor stands for the file; the calls get the bytes or their number and the offset in
  the file, and return the new file or the bytes read with the result of the call.\<close>

record 'f syscalls =
  sc_pwrite :: "'f \<Rightarrow> u8 list \<Rightarrow> u64 \<Rightarrow> 'f \<times> int"
  sc_pread :: "'f \<Rightarrow> u64 \<Rightarrow> u64 \<Rightarrow> u8 list \<times> int"

record 'f ssd_object =
  sd_file :: "'f option"
  sd_capacity :: u64
  sd_block_size :: u32

definition SSDDevice :: "u64 \<Rightarrow> 'f ssd_object" where
  "SSDDevice len0 = \<lparr>sd_file = None, sd_capacity = Device_capacity len0, sd_block_size = push_bit 12 1\<rparr>"

text \<open>\<open>open\<close> delivers a file, or \<open>None\<close> for a negative descriptor.\<close>

definition SSDDevice_initDevice :: "'f option \<Rightarrow> 'f ssd_object \<Rightarrow> 'f ssd_object \<times> bool" where
  "SSDDevice_initDevice opened d = (case opened of None \<Rightarrow> (d, False) | Some f \<Rightarrow> (d\<lparr>sd_file := Some f\<rparr>, True))"

text \<open>\<open>None\<close>: the buffer is too short, or no file is open. The results of the calls are not looked at.\<close>

definition SSDDevice_write :: "'f syscalls \<Rightarrow> 'f ssd_object \<Rightarrow> u8 list \<Rightarrow> u64 \<Rightarrow> u64 \<Rightarrow> ('f ssd_object \<times> u64) option" where
  "SSDDevice_write sc d src len0 offset =
     (let off = offset * ucast (sd_block_size d); l = len0 * ucast (sd_block_size d)
      in do {
        f \<leftarrow> sd_file d;
        bytes \<leftarrow> mem_read src 0 (unat l);
        let (f, _) = sc_pwrite sc f bytes off;
        Some (d\<lparr>sd_file := Some f\<rparr>, l)
      })"

definition SSDDevice_read :: "'f syscalls \<Rightarrow> 'f ssd_object \<Rightarrow> u8 list \<Rightarrow> u64 \<Rightarrow> u64 \<Rightarrow> (u8 list \<times> u64) option" where
  "SSDDevice_read sc d dst len0 offset =
     (let off = offset * ucast (sd_block_size d); l = len0 * ucast (sd_block_size d)
      in do {
        f \<leftarrow> sd_file d;
        let (bytes, _) = sc_pread sc f l off;
        dst \<leftarrow> mem_write dst 0 bytes;
        Some (dst, l)
      })"

text \<open>\<open>submitIo\<close> masks the opcode of the request with the flags of \<open>mixdk.h\<close>.\<close>

definition SSDDevice_submitIo :: "'f syscalls \<Rightarrow> 'f ssd_object \<Rightarrow> io_request \<Rightarrow> ('f ssd_object \<times> io_request \<times> bool) option" where
  "SSDDevice_submitIo sc d req =
     (let op_code = op_value (rq_opcode req) AND (1 OR 4)
      in if op_code = 1 then do {
           (dst, _) \<leftarrow> SSDDevice_read sc d (rq_buf req) (rq_len req) (rq_offset req);
           Some (d, req\<lparr>rq_buf := dst\<rparr>, True)
         }
         else if op_code = 4 then do {
           (d, _) \<leftarrow> SSDDevice_write sc d (rq_buf req) (rq_len req) (rq_offset req);
           Some (d, req, True)
         }
         else Some (d, req, False))"

section \<open>Properties\<close>

text \<open>The documented behaviour of the calls on a file of bytes: a transfer within the file is complete.\<close>

definition file_calls :: "u8 list syscalls \<Rightarrow> bool" where
  "file_calls sc \<longleftrightarrow>
     (\<forall>f bytes off. unat off + length bytes \<le> length f \<longrightarrow>
        (\<exists>f'. mem_write f (unat off) bytes = Some f' \<and> sc_pwrite sc f bytes off = (f', int (length bytes)))) \<and>
     (\<forall>f l off bytes. mem_read f (unat off) (unat l) = Some bytes \<longrightarrow> sc_pread sc f l off = (bytes, uint l))"

definition ssd_ready :: "u8 list ssd_object \<Rightarrow> u8 list \<Rightarrow> bool" where
  "ssd_ready d f \<longleftrightarrow> sd_file d = Some f \<and> sd_block_size d = 4096 \<and> length f < 2 ^ 63"

lemma ssd_positions:
  assumes "ssd_ready d f" "(i + n) * 4096 \<le> length f"
  shows "unat (of_nat i * ucast (sd_block_size d) :: u64) = i * 4096" "unat (of_nat n * ucast (sd_block_size d) :: u64) = n * 4096"
proof -
  have b: "(ucast (sd_block_size d) :: u64) = 4096" using assms(1) by (simp add: ssd_ready_def)
  have "i * 4096 < 2 ^ 64" "n * 4096 < 2 ^ 64" "i < 2 ^ 64" "n < 2 ^ 64"
    using assms by (simp_all add: ssd_ready_def add_mult_distrib)
  then show "unat (of_nat i * ucast (sd_block_size d) :: u64) = i * 4096" "unat (of_nat n * ucast (sd_block_size d) :: u64) = n * 4096"
    unfolding b by (subst unat_mult_bounded; simp add: unsigned_of_nat take_bit_nat_eq_self)+
qed

lemma ssd_write_read:
  assumes sc: "file_calls sc" and d: "ssd_ready d f" and fit: "(i + n) * 4096 \<le> length f"
    and src: "n * 4096 \<le> length src" and dst: "n * 4096 \<le> length dst"
  obtains d' f' where "SSDDevice_write sc d src (of_nat n) (of_nat i) = Some (d', of_nat n * 4096)" "ssd_ready d' f'"
    "mem_write f (i * 4096) (take (n * 4096) src) = Some f'" "length f' = length f"
    "SSDDevice_read sc d' dst (of_nat n) (of_nat i) = Some (take (n * 4096) src @ drop (n * 4096) dst, of_nat n * 4096)"
proof -
  note p = ssd_positions [OF d fit]
  let ?b = "take (n * 4096) src"
  have len: "length ?b = n * 4096" using src by simp
  have b: "(ucast (sd_block_size d) :: u64) = 4096" and o: "sd_file d = Some f" using d by (simp_all add: ssd_ready_def)
  have "i * 4096 + length ?b \<le> length f" using fit len by (simp add: add_mult_distrib)
  then obtain f' where f': "mem_write f (i * 4096) ?b = Some f'" "sc_pwrite sc f ?b (of_nat i * 4096) = (f', int (length ?b))"
    using sc p(1) unfolding file_calls_def b by metis
  have "SSDDevice_write sc d src (of_nat n) (of_nat i) = Some (d\<lparr>sd_file := Some f'\<rparr>, of_nat n * 4096)"
    using o f'(2) p(2) src by (simp add: SSDDevice_write_def b mem_read_def)
  moreover have r: "ssd_ready (d\<lparr>sd_file := Some f'\<rparr>) f'" using d mem_write_length [OF f'(1)] by (simp add: ssd_ready_def)
  moreover have "sc_pread sc f' (of_nat n * 4096) (of_nat i * 4096) = (?b, uint (of_nat n * 4096 :: u64))"
    using sc mem_read_write_same [OF f'(1)] p len unfolding file_calls_def b by auto
  moreover have "mem_write dst 0 ?b = Some (?b @ drop (n * 4096) dst)" using dst len by (simp add: mem_write_def)
  ultimately show thesis
    using that [of "d\<lparr>sd_file := Some f'\<rparr>" f'] f'(1) mem_write_length [OF f'(1)] by (simp add: SSDDevice_read_def b)
qed

text \<open>C39. Blocks written through the SSD device read back as written, but not through \<open>submitIo\<close>: the
  opcodes of a request are not those the device looks for. A write request is refused and a clear
  request writes.\<close>

theorem ssd_submit_confuses_opcodes:
  assumes "file_calls sc" "ssd_ready d f" "(i + n) * 4096 \<le> length f" "n * 4096 \<le> length (rq_buf req)"
    "rq_len req = of_nat n" "rq_offset req = of_nat i"
  shows "SSDDevice_submitIo sc d (req\<lparr>rq_opcode := OP_WRITE\<rparr>) = Some (d, req\<lparr>rq_opcode := OP_WRITE\<rparr>, False) \<and>
    (\<exists>d'. SSDDevice_submitIo sc d (req\<lparr>rq_opcode := OP_CLEAR\<rparr>) = Some (d', req\<lparr>rq_opcode := OP_CLEAR\<rparr>, True) \<and>
       (\<forall>dst. n * 4096 \<le> length dst \<longrightarrow>
          SSDDevice_submitIo sc d' (req\<lparr>rq_buf := dst, rq_opcode := OP_READ\<rparr>) =
            Some (d', req\<lparr>rq_buf := take (n * 4096) (rq_buf req) @ drop (n * 4096) dst, rq_opcode := OP_READ\<rparr>, True)))"
proof
  show "SSDDevice_submitIo sc d (req\<lparr>rq_opcode := OP_WRITE\<rparr>) = Some (d, req\<lparr>rq_opcode := OP_WRITE\<rparr>, False)"
    by (simp add: SSDDevice_submitIo_def)
  obtain d' where w: "SSDDevice_write sc d (rq_buf req) (of_nat n) (of_nat i) = Some (d', of_nat n * 4096)"
    by (rule ssd_write_read [OF assms(1-4,4)])
  have "SSDDevice_read sc d' dst (of_nat n) (of_nat i) =
      Some (take (n * 4096) (rq_buf req) @ drop (n * 4096) dst, of_nat n * 4096)" if "n * 4096 \<le> length dst" for dst
    using w by (rule_tac ssd_write_read [OF assms(1-4) that]) auto
  then show "\<exists>d'. SSDDevice_submitIo sc d (req\<lparr>rq_opcode := OP_CLEAR\<rparr>) = Some (d', req\<lparr>rq_opcode := OP_CLEAR\<rparr>, True) \<and>
       (\<forall>dst. n * 4096 \<le> length dst \<longrightarrow>
          SSDDevice_submitIo sc d' (req\<lparr>rq_buf := dst, rq_opcode := OP_READ\<rparr>) =
            Some (d', req\<lparr>rq_buf := take (n * 4096) (rq_buf req) @ drop (n * 4096) dst, rq_opcode := OP_READ\<rparr>, True))"
    using w assms(5,6) by (intro exI [of _ d']) (simp add: SSDDevice_submitIo_def)
qed

definition byte_file :: "u8 list syscalls" where
  "byte_file = \<lparr>sc_pwrite = (\<lambda>f bytes off. case mem_write f (unat off) bytes of
       None \<Rightarrow> (f, -1) | Some f' \<Rightarrow> (f', int (length bytes))),
     sc_pread = (\<lambda>f l off. case mem_read f (unat off) (unat l) of None \<Rightarrow> ([], -1) | Some bytes \<Rightarrow> (bytes, uint l))\<rparr>"

lemma byte_file_calls: "file_calls byte_file"
  using mem_write_ok by (fastforce simp: file_calls_def byte_file_def)

theorem ssd_submit_confuses_opcodes_witness:
  "let req = \<lparr>rq_buf = replicate 4096 7, rq_len = 1, rq_offset = 1, rq_opcode = OP_WRITE\<rparr>;
       d = (SSDDevice 8192)\<lparr>sd_file := Some (replicate 8192 0)\<rparr>
   in SSDDevice_submitIo byte_file d req = Some (d, req, False) \<and>
      (\<exists>d'. SSDDevice_submitIo byte_file d (req\<lparr>rq_opcode := OP_CLEAR\<rparr>) = Some (d', req\<lparr>rq_opcode := OP_CLEAR\<rparr>, True) \<and>
         SSDDevice_submitIo byte_file d' (req\<lparr>rq_buf := replicate 4096 0, rq_opcode := OP_READ\<rparr>) =
           Some (d', req\<lparr>rq_opcode := OP_READ\<rparr>, True))"
proof -
  let ?req = "\<lparr>rq_buf = replicate 4096 7, rq_len = 1, rq_offset = 1, rq_opcode = OP_WRITE\<rparr>"
  let ?d = "(SSDDevice 8192)\<lparr>sd_file := Some (replicate 8192 0)\<rparr> :: u8 list ssd_object"
  have "ssd_ready ?d (replicate 8192 0)" by (simp add: ssd_ready_def SSDDevice_def)
  from ssd_submit_confuses_opcodes [OF byte_file_calls this, of 1 1 ?req] show ?thesis
    by (auto simp: Let_def dest!: spec [of _ "replicate 4096 0"])
qed

end
