(* ===== verification/Mix_Logging.thy ===== *)
theory Mix_Logging
  imports Mix_Queue
begin

text \<open>
  The log of requests, \<open>src/src/mix_logging.c\<close> and \<open>src/include/mix_logging.h\<close>: a ring of entries with
  the counters \<open>head\<close> and \<open>tail\<close>. \<open>fls\<close> and \<open>roundup_pow_of_two\<close> repeat the code of \<open>mix_queue.c\<close>.
\<close>

section \<open>The log\<close>

record mix_log =
  lg_begin :: "u8 list"
  lg_capacity :: u32
  lg_entry_size :: u32
  lg_mask :: u32
  lg_head :: int
  lg_tail :: int

definition LOG_ENTRY_SIZE :: u32 where "LOG_ENTRY_SIZE = 16"

text \<open>\<open>mix_log_init\<close>; the flags say whether the two allocations succeed, \<open>fresh\<close> is the content of the new
  memory. \<open>None\<close> is the returned \<open>NULL\<close>.\<close>

definition mix_log_init :: "bool \<Rightarrow> bool \<Rightarrow> (nat \<Rightarrow> u8) \<Rightarrow> u32 \<Rightarrow> mix_log option" where
  "mix_log_init alloc1 alloc2 fresh entry_num =
     (if entry_num \<le> 0 \<or> entry_num \<noteq> roundup_pow_of_two entry_num then None
      else if \<not> alloc1 then None
      else if \<not> alloc2 then None
      else Some \<lparr>lg_begin = map fresh [0..<unat (entry_num * LOG_ENTRY_SIZE)], lg_capacity = entry_num,
             lg_entry_size = LOG_ENTRY_SIZE, lg_mask = entry_num - 1, lg_head = 0, lg_tail = 0\<rparr>)"

text \<open>The difference of the counters, which are 64 bits wide, is truncated to \<open>unsigned int\<close>.\<close>

definition mix_log_unused :: "mix_log \<Rightarrow> u32" where
  "mix_log_unused log = word_of_int (uint (lg_mask log + 1) - (lg_head log - lg_tail log))"

text \<open>\<open>mix_log_append\<close> returns 0 when the log is full; otherwise it ends without a result, here \<open>None\<close>, and
  without having stored anything.\<close>

definition mix_log_append :: "mix_log \<Rightarrow> mix_log \<times> int option" where
  "mix_log_append log = (let l = mix_log_unused log in if l = 0 then (log, Some 0) else (log, None))"

definition mix_log_release :: "mix_log \<Rightarrow> mix_log" where
  "mix_log_release log = log\<lparr>lg_tail := lg_tail log - 1\<rparr>"

section \<open>Properties\<close>

lemma roundup_fixed:
  assumes "unat n \<le> 2 ^ 31" "0 < unat n"
  shows "roundup_pow_of_two n = n \<longleftrightarrow> (\<exists>k. unat n = 2 ^ k)"
proof -
  obtain k where k: "unat (roundup_pow_of_two n) = 2 ^ k" "unat n \<le> 2 ^ k" "\<And>j. unat n \<le> 2 ^ j \<Longrightarrow> k \<le> j"
    using roundup_least [OF assms(2,1)] by metis
  have "unat n = 2 ^ k" if "unat n = 2 ^ j" for j
  proof -
    have "(2 :: nat) ^ k \<le> 2 ^ j" using k(3) [of j] that by (intro power_increasing) simp_all
    then show ?thesis using k(2) that by simp
  qed
  then show ?thesis using k(1) by (metis word_unat_eq_iff)
qed

lemma mix_log_init_ok:
  assumes "unat n = 2 ^ k" "k \<le> 31"
  shows "\<exists>log. mix_log_init True True fresh n = Some log \<and> lg_mask log + 1 = n \<and> lg_head log = 0 \<and> lg_tail log = 0"
proof -
  have "(2 :: nat) ^ k \<le> 2 ^ 31" using assms(2) by (intro power_increasing) simp_all
  then have "roundup_pow_of_two n = n" using roundup_fixed [of n] assms(1) by auto
  moreover have "n \<noteq> 0" using assms(1) by auto
  ultimately show ?thesis by (simp add: mix_log_init_def)
qed

lemma release_steps:
  "(mix_log_release ^^ j) log = log\<lparr>lg_tail := lg_tail log - int j\<rparr>"
  by (induction j) (simp_all add: mix_log_release_def)

text \<open>C40. Releasing entries uses up the log: \<open>mix_log_release\<close> moves \<open>tail\<close> backwards, so every release
  takes one entry away from a new log of \<open>2 ^ k\<close> entries, and after as many releases an append
  reports a full log although nothing was ever stored.\<close>

theorem log_release_uses_up:
  assumes "unat n = 2 ^ k" "k \<le> 31"
  shows "\<exists>log. mix_log_init True True fresh n = Some log \<and>
    (\<forall>j \<le> unat n. unat (mix_log_unused ((mix_log_release ^^ j) log)) = unat n - j) \<and>
    snd (mix_log_append ((mix_log_release ^^ unat n) log)) = Some 0"
proof -
  obtain log where log: "mix_log_init True True fresh n = Some log" "lg_mask log + 1 = n" "lg_head log = 0" "lg_tail log = 0"
    using mix_log_init_ok [OF assms] by blast
  have u: "unat (mix_log_unused ((mix_log_release ^^ j) log)) = unat n - j" if "j \<le> unat n" for j
  proof -
    have "uint n - int j = int (unat n - j)" using that by (simp add: of_nat_diff)
    then have "mix_log_unused ((mix_log_release ^^ j) log) = of_nat (unat n - j)"
      using log(2-4) by (simp add: mix_log_unused_def release_steps)
    moreover have "unat n - j < 2 ^ 32" using unat_less_exp [of n] by (simp add: less_imp_diff_less)
    ultimately show ?thesis by (simp add: unsigned_of_nat take_bit_nat_eq_self)
  qed
  have "mix_log_unused ((mix_log_release ^^ unat n) log) = 0" using u [of "unat n"] by (simp add: unat_eq_zero)
  then show ?thesis using log(1) u by (auto simp: mix_log_append_def Let_def)
qed

theorem log_release_uses_up_witness:
  "\<exists>log. mix_log_init True True (\<lambda>_. 0) 4 = Some log \<and> unat (mix_log_unused ((mix_log_release ^^ 3) log)) = 1 \<and>
     snd (mix_log_append ((mix_log_release ^^ 4) log)) = Some 0"
  using log_release_uses_up [of 4 2 "\<lambda>_. 0"] by (auto dest: spec [of _ "3 :: nat"])


end
