(* ===== verification/Spec2Isabelle.thy ===== *)
theory Spec2Isabelle
  imports Migrate_Protocol Last_Write Benchmark Hash_Class Io_Ring Ssd Mix_Logging
begin

text \<open>
  \<^bold>\<open>UHS, a hybrid block store on persistent memory and SSD: its model and its properties\<close>

  The program offers one array of 4096-byte blocks (\<open>src/src/mixdk.c\<close>: \<open>mixdk_init\<close>, \<open>mixdk_write\<close>,
  \<open>mixdk_read\<close>, \<open>mix_segments_clear\<close>). Blocks below a fixed threshold live in persistent memory (the NVM
  area), all others on an SSD behind a write buffer that is also in persistent memory. Writes of one
  block go to the buffer, larger ones to the SSD. The buffer is divided into four segments; a segment
  that is full is migrated to the SSD by eight threads.

  \<^bold>\<open>Parts and theories\<close>

  \<^item> \<open>Prelude\<close>: machine integers, raw memory (\<open>mem_read\<close>, \<open>mem_write\<close>), arrays with checked access, and the
    lemmas on slots, words and little-endian integers that the other theories share. A C computation is a
    function into \<open>'a option\<close>; \<open>None\<close> is undefined behaviour, an abort, or a loop that does not end.
  \<^item> \<open>Fifo_Spec\<close>, \<open>Bit_Index_Spec\<close>, \<open>Index_Spec\<close>, \<open>Membership_Spec\<close>, \<open>Block_Spec\<close>: the contracts of the
    components, one locale each, with what their clients do proved from the contract.
  \<^item> \<open>Mix_Queue\<close> (\<open>mix_queue.c\<close>): the task queue as a ring with free-running counters; it meets the contract
    of a bounded queue for every position of the counters.
  \<^item> \<open>Mix_Bitmap\<close> (\<open>mix_bitmap.c\<close>): the map of free blocks with its cyclic search, and the 4-bit counters.
  \<^item> \<open>Mix_Hash\<close> (\<open>mix_hash.c\<close>): CRC-32, the hash function, and the table with its chains and node pool on an
    explicit store; it is a map from addresses to stacks of block numbers.
  \<^item> \<open>Mix_Bloom\<close> (\<open>mix_bloom_filter.c\<close>): MurmurHash3 and the counting bloom filter.
  \<^item> \<open>Nvm\<close> (\<open>nvm.cpp\<close>): the mapping of the persistent memory, reads and writes of NVM blocks, of buffer
    blocks and of their descriptors, and \<open>class NVMDevice\<close>.
  \<^item> \<open>Mix_Meta\<close> (\<open>mix_meta.c\<close>): the metadata of the segments, allocation, lookup, clearing, rebuilding and the
    steps of a migration; \<open>Mix_Migrate\<close>: what the passes of the eight threads do together.
  \<^item> \<open>Migrate_Protocol\<close> (\<open>mix_meta.c\<close>): the handshake between the worker and the migration threads, every
    shared access a step of an inductive relation.
  \<^item> \<open>Nvm_Worker\<close> (\<open>nvm_worker.cpp\<close>): tasks, the state of the whole program (\<open>system\<close>), the four workers,
    redirection of small writes and reads, posting and striping.
  \<^item> \<open>Scheduler\<close> (\<open>scheduler.c\<close>, \<open>ssd_worker.c\<close>, \<open>mixdk.c\<close>): the way of a request from the interface to the
    workers; \<open>Mixdk\<close> (\<open>mixdk.c\<close>, \<open>scheduler.c\<close>, \<open>nvm_worker.cpp\<close>): the start of the program and the
    properties of a single caller.
  \<^item> \<open>Concurrent\<close> (\<open>mixdk.c\<close>, \<open>scheduler.c\<close>, \<open>nvm_worker.cpp\<close>, \<open>ssd_worker.c\<close>): up to sixteen callers at once. A
    call is cut at its waiting loop (\<open>begin_write\<close>, \<open>begin_read\<close>) or into the steps it takes alone
    (\<open>ssd_read_call\<close>, \<open>ssd_store_call\<close> and the posting of its subtasks); a run is any sequence of these, of polls
    and of returns (\<open>run_actions\<close>), and the specification is a disk with a write buffer, on which a request is
    one step (\<open>disk\<close>, \<open>effect\<close>). \<open>Interleaving\<close>: the invariant of the running system and the properties of
    the runs. \<open>Last_Write\<close>: what the disk, and so the program, keeps of the writes behind the threshold.
  \<^item> \<open>Driver\<close> (\<open>main.c\<close>): the benchmark, a client of the public interface with two kinds of threads;
    \<open>Benchmark\<close>: its barrier, its end, and the calls its threads make, as a step relation (\<open>bench_step\<close>).
  \<^item> \<open>Io_Ring\<close> (\<open>io_ring.cpp\<close>, \<open>io_channel.cpp\<close>, \<open>io_thread.cpp\<close>), \<open>Ssd\<close> (\<open>ssd.cpp\<close>) and \<open>Mix_Logging\<close>
    (\<open>mix_logging.c\<close>): the classes of the C++ rewrite and the request log; \<open>Hash_Class\<close> (\<open>include/mix_hash.h\<close>):
    the class template of the rewrite for the hash index.

  \<^bold>\<open>What is shown\<close>

  \<^item> The data structures refine their abstract counterparts: queue and list, table and stacks, bitmap and set,
    filter and multiset, memory areas and arrays of blocks, each through the interpretation of a locale.
  \<^item> Segments: new addresses take the blocks in order, every address is found, a migration ends for
    every order of the threads and copies every entry, and segment 0 behaves as a disk in which the last
    write wins. In the other segments the migration copies the wrong blocks.
  \<^item> The handshake: the worker never stops waiting too early, in any interleaving; a wake-up can be
    lost, then the system blocks, and there is no other way to block.
  \<^item> The system: requests to the NVM area end under every fair schedule and read back; the start
    builds the invariant that the other theorems assume, and forgets the write buffer; a buffered block is
    not seen by reads, and can undo a later large write; errors of the start are not reported.
  \<^item> Several callers: every interleaving refines the atomic disk, the reached states are well-formed, no
    caller starves, and the loop of a caller ends after at most 32 polls of its worker, and two more for every
    clearing subtask in its queue. This holds for every kind of call, reads and writes of the SSD included,
    and for runs of any length, with any number of migrations. The disk shows what is wrong behind the
    threshold: small writes go to the buffer, large ones to the SSD without an effect on the buffer, reads
    show the SSD, and a part of the buffer that is full is replaced by blocks of part 0 (\<open>flush\<close>). For the
    addresses of part 0 the last write wins in every run, as long as no large write covers them.
  \<^item> The benchmark: no thread makes a call before all have been started, it blocks only when a thread was
    stopped or a call does not return, and once the time is up a bounded number of steps follow. Its writes
    behind the threshold are such a run with up to eight threads; but its start stores behind the end of its
    arrays, and in the modes for the NVM area it leaves the area at the wrong end of the SSD.
  \<^item> Bounds and errors: where the code reads or writes outside of an array, loses nodes, wraps an
    offset around, or confuses flags, the theorem says for which inputs.

  \<^bold>\<open>Parameters, bounds and fuel\<close>

  Code that is not in the repository is a parameter: libpmem (\<open>copy_fn\<close>, with \<open>pmem_copies\<close> as its
  contract), \<open>mix_ssd_write\<close> and \<open>mix_ssd_read\<close> (\<open>environment\<close>, with \<open>ssd_stores\<close> and \<open>ssd_device\<close>), the
  system calls (\<open>syscalls\<close>, \<open>file_calls\<close>), the results of allocations and thread creation (\<open>boot\<close>) and the
  former content of memory that is not initialised. Loops are recursive on their bound; the search in the
  bitmap and the emptying of a bucket are \<open>partial_function (option)\<close>, and the theorems show when they
  return. The waiting loop of a caller consumes a schedule, the list of the workers in the order in which they
  poll: two polls of every worker are enough for a single caller, because each worker has two queues that
  take turns, and 32 for sixteen callers, each of which has at most one task in a queue besides subtasks.
  The four workers and the callers interleave at the granularity of one task or one access to the SSD, a
  migration being part of the task that leads to it; that the eight migration threads may run one after the
  other rests on their shares of the table being disjoint. So the statements on several callers are about
  migrations that end: that one may hang in its handshake is shown in \<open>Migrate_Protocol\<close>. The hypotheses on the machine are bundled in
  \<open>platform\<close> (\<open>Concurrent\<close>).

  \<^bold>\<open>Not modelled\<close>

  Locks, memory barriers and thread priorities; the empty classes of \<open>nvm_buffer.cpp\<close> and \<open>nvm_zone.h\<close>; console
  output (\<open>mix_log.c\<close>); the programs under \<open>test\<close>; the printing, the processor affinity and the time
  measured by the benchmark \<open>main.c\<close>; functions that only release memory. The declarations of the structures of \<open>mix_hash.c\<close>
  are no longer in the repository, their fields are taken from their uses. The lock-free variants of the queue
  are modelled without interference.
\<close>

end
